(* ===== verification/Prelude.thy ===== *)
theory Prelude
  imports "HOL-Library.Word"
begin

unbundle bit_operations_syntax

text \<open>
  What every component of the FerriOS model shares: Rust's integer types as words, the
  checked and the unchecked arithmetic of Rust, the outcome of a kernel function (a value, an
  \<open>Err\<close> of Rust's \<open>Result<_, &'static str>\<close> or a panic), kernel functions as programs that
  thread a state, and the laws of their composition. The named collection \<open>keeps\<close> holds the
  rules that lift an invariant through a program.
\<close>

named_theorems keeps "rules that carry an invariant through a program"
named_theorems prog "unfolding rules of the program combinators"

section \<open>Machine integers\<close>

type_synonym u8 = "8 word"
type_synonym u16 = "16 word"
type_synonym u32 = "32 word"
type_synonym u64 = "64 word"
type_synonym i64 = "64 word"

text \<open>Rust's \<open>checked_add\<close>, \<open>checked_sub\<close>, \<open>checked_mul\<close>: \<open>None\<close> where the exact result
  does not fit.\<close>

definition checked_add :: "'a::len word \<Rightarrow> 'a word \<Rightarrow> 'a word option" where
  "checked_add a b = (if unat a + unat b < 2 ^ LENGTH('a) then Some (a + b) else None)"

definition checked_sub :: "'a::len word \<Rightarrow> 'a word \<Rightarrow> 'a word option" where
  "checked_sub a b = (if b \<le> a then Some (a - b) else None)"

definition checked_mul :: "'a::len word \<Rightarrow> 'a word \<Rightarrow> 'a word option" where
  "checked_mul a b = (if unat a * unat b < 2 ^ LENGTH('a) then Some (a * b) else None)"

lemma checked_add_SomeD:
  "checked_add a b = Some c \<Longrightarrow> c = a + b \<and> unat c = unat a + unat b"
  by (auto simp: checked_add_def unat_word_ariths split: if_splits)

lemma checked_sub_SomeD:
  "checked_sub a b = Some c \<Longrightarrow> c = a - b \<and> unat c = unat a - unat b \<and> unat b \<le> unat a"
  by (auto simp: checked_sub_def unat_sub word_le_nat_alt split: if_splits)

text \<open>Bit flags: \<open>flags.contains(f)\<close>.\<close>

definition contains :: "u64 \<Rightarrow> u64 \<Rightarrow> bool" where
  "contains fl f \<longleftrightarrow> fl AND f = f"

lemma unat_exp: "k < LENGTH('a) \<Longrightarrow> unat (2 ^ k :: 'a::len word) = 2 ^ k"
proof -
  assume "k < LENGTH('a)"
  then have "(2 :: nat) ^ k < 2 ^ LENGTH('a)" by simp
  then have "unat (of_nat (2 ^ k) :: 'a word) = 2 ^ k" by (simp only: unat_of_nat mod_less)
  then show ?thesis by simp
qed

lemma less_exp_bits:
  assumes "k < LENGTH('a)"
  shows "w < 2 ^ k \<longleftrightarrow> (\<forall>n. bit (w :: 'a::len word) n \<longrightarrow> n < k)"
proof -
  have "w < 2 ^ k \<longleftrightarrow> unat w < 2 ^ k"
    using assms by (simp add: word_less_nat_alt unat_exp)
  also have "\<dots> \<longleftrightarrow> take_bit k (unat w) = unat w"
    by (simp add: take_bit_nat_eq_self_iff)
  also have "\<dots> \<longleftrightarrow> take_bit k w = w"
    using assms by (metis less_imp_le unsigned_take_bit_eq unsigned_word_eqI)
  also have "\<dots> \<longleftrightarrow> (\<forall>n. bit w n \<longrightarrow> n < k)"
    by (subst bit_eq_iff) (use assms in \<open>auto simp: bit_take_bit_iff dest: bit_imp_le_length\<close>)
  finally show ?thesis .
qed

section \<open>Outcomes and programs\<close>

datatype 'a res = Ok 'a | Err string | Panic string

type_synonym ('s, 'a) program = "'s \<Rightarrow> 'a res \<times> 's"

definition ret :: "'a \<Rightarrow> ('s, 'a) program" where
  "ret a = (\<lambda>s. (Ok a, s))"

definition throw :: "string \<Rightarrow> ('s, 'a) program" where
  "throw e = (\<lambda>s. (Err e, s))"

definition panic :: "string \<Rightarrow> ('s, 'a) program" where
  "panic e = (\<lambda>s. (Panic e, s))"

definition gets :: "('s \<Rightarrow> 'a) \<Rightarrow> ('s, 'a) program" where
  "gets f = (\<lambda>s. (Ok (f s), s))"

definition modify :: "('s \<Rightarrow> 's) \<Rightarrow> ('s, unit) program" where
  "modify f = (\<lambda>s. (Ok (), f s))"

text \<open>\<open>f()?\<close> followed by the rest of the function: an error or a panic skips the rest, and the
  state reached when it happened is kept.\<close>

definition bind :: "('s, 'a) program \<Rightarrow> ('a \<Rightarrow> ('s, 'b) program) \<Rightarrow> ('s, 'b) program" where
  "bind f g = (\<lambda>s. case f s of
      (Ok a, t) \<Rightarrow> g a t
    | (Err e, t) \<Rightarrow> (Err e, t)
    | (Panic e, t) \<Rightarrow> (Panic e, t))"

text \<open>\<open>opt.ok_or(msg)?\<close> and \<open>opt.expect(msg)\<close>.\<close>

definition ok_or :: "string \<Rightarrow> 'a option \<Rightarrow> ('s, 'a) program" where
  "ok_or msg x = (case x of None \<Rightarrow> throw msg | Some a \<Rightarrow> ret a)"

definition expect :: "string \<Rightarrow> 'a option \<Rightarrow> ('s, 'a) program" where
  "expect msg x = (case x of None \<Rightarrow> panic msg | Some a \<Rightarrow> ret a)"

text \<open>A \<open>for\<close> loop whose body may fail.\<close>

primrec foreach :: "'i list \<Rightarrow> ('i \<Rightarrow> ('s, unit) program) \<Rightarrow> ('s, unit) program" where
  "foreach [] body = ret ()"
| "foreach (i # is) body = bind (body i) (\<lambda>_. foreach is body)"

text \<open>A program on a part of the state (the memory inside the kernel state).\<close>

definition zoom :: "('s \<Rightarrow> 't) \<Rightarrow> ('t \<Rightarrow> 's \<Rightarrow> 's) \<Rightarrow> ('t, 'a) program \<Rightarrow> ('s, 'a) program" where
  "zoom get put f = (\<lambda>s. case f (get s) of (r, t) \<Rightarrow> (r, put t s))"

lemmas program_defs [prog] =
  ret_def throw_def panic_def gets_def modify_def ok_or_def expect_def zoom_def

lemma bind_simps [simp]:
  "f s = (Ok a, t) \<Longrightarrow> bind f g s = g a t"
  "f s = (Err e, t) \<Longrightarrow> bind f g s = (Err e, t)"
  "f s = (Panic e, t) \<Longrightarrow> bind f g s = (Panic e, t)"
  by (simp_all add: bind_def)

lemma bind_run: "f s = (Ok a, t) \<Longrightarrow> g a t = r \<Longrightarrow> bind f g s = r"
  by simp

lemma bind_ret [simp]: "bind (ret a) g = g a"
  by (simp add: bind_def ret_def)

lemma bind_throw [simp]: "bind (throw e) g = throw e"
  by (simp add: bind_def throw_def)

lemma bind_panic [simp]: "bind (panic e) g = panic e"
  by (simp add: bind_def panic_def)

lemma bind_gets [simp]: "bind (gets f) g s = g (f s) s"
  by (simp add: bind_def gets_def)

lemma bind_modify [simp]: "bind (modify f) g s = g () (f s)"
  by (simp add: bind_def modify_def)

lemma ok_or_simps [simp]: "ok_or m None = throw m" "ok_or m (Some a) = ret a"
  by (simp_all add: ok_or_def)

lemma expect_simps [simp]: "expect m None = panic m" "expect m (Some a) = ret a"
  by (simp_all add: expect_def)

lemma ret_apply [simp]: "ret a s = (Ok a, s)"
  by (simp add: ret_def)

lemma throw_apply [simp]: "throw e s = (Err e, s)"
  by (simp add: throw_def)

lemma panic_apply [simp]: "panic e s = (Panic e, s)"
  by (simp add: panic_def)

lemma bind_OkE:
  assumes "bind f g s = (Ok b, u)"
  obtains a t where "f s = (Ok a, t)" and "g a t = (Ok b, u)"
  using assms by (auto simp: bind_def split: prod.splits res.splits)

lemma bind_cases:
  assumes "bind f g s = (r, u)"
  obtains (ok) a t where "f s = (Ok a, t)" and "g a t = (r, u)"
  | (err) e where "f s = (Err e, u)" and "r = Err e"
  | (panic) e where "f s = (Panic e, u)" and "r = Panic e"
  using assms by (auto simp: bind_def split: prod.splits res.splits)

lemma foreach_append:
  "foreach (xs @ ys) body = bind (foreach xs body) (\<lambda>_. foreach ys body)"
  by (induction xs) (auto simp: bind_def fun_eq_iff split: prod.splits res.splits)

section \<open>Invariants of programs\<close>

text \<open>\<open>triple P f Q\<close>: from a state that satisfies \<open>P\<close>, the program ends with an outcome and a state
  that satisfy \<open>Q\<close>, whichever way it ends.\<close>

definition triple :: "('s \<Rightarrow> bool) \<Rightarrow> ('s, 'a) program \<Rightarrow> ('a res \<Rightarrow> 's \<Rightarrow> bool) \<Rightarrow> bool" where
  "triple P f Q \<longleftrightarrow> (\<forall>s. P s \<longrightarrow> (case f s of (r, t) \<Rightarrow> Q r t))"

lemma tripleI: "(\<And>s r t. P s \<Longrightarrow> f s = (r, t) \<Longrightarrow> Q r t) \<Longrightarrow> triple P f Q"
  by (auto simp: triple_def split: prod.splits)

lemma tripleD: "triple P f Q \<Longrightarrow> P s \<Longrightarrow> f s = (r, t) \<Longrightarrow> Q r t"
  by (auto simp: triple_def split: prod.splits)

definition preserves :: "('s \<Rightarrow> bool) \<Rightarrow> ('s, 'a) program \<Rightarrow> bool" where
  "preserves I f \<longleftrightarrow> (\<forall>s r t. I s \<longrightarrow> f s = (r, t) \<longrightarrow> I t)"

lemma preservesD: "preserves I f \<Longrightarrow> I s \<Longrightarrow> f s = (r, t) \<Longrightarrow> I t"
  by (auto simp: preserves_def)

lemma preservesI: "(\<And>s r t. I s \<Longrightarrow> f s = (r, t) \<Longrightarrow> I t) \<Longrightarrow> preserves I f"
  by (auto simp: preserves_def)

lemma preserves_pure [keeps]:
  "preserves I (ret a)" "preserves I (throw e)" "preserves I (panic e)"
  "preserves I (gets h)" "preserves I (ok_or m x)" "preserves I (expect m x)"
  by (auto simp: preserves_def prog split: option.splits)

lemma preserves_modify [keeps]: "(\<And>s. I s \<Longrightarrow> I (h s)) \<Longrightarrow> preserves I (modify h)"
  by (auto simp: preserves_def prog)

lemma preserves_bind [keeps]:
  "preserves I f \<Longrightarrow> (\<And>a. preserves I (g a)) \<Longrightarrow> preserves I (bind f g)"
  unfolding preserves_def by (metis bind_cases)

lemma preserves_foreach [keeps]:
  "(\<And>i. i \<in> set is \<Longrightarrow> preserves I (body i)) \<Longrightarrow> preserves I (foreach is body)"
proof (induction "is")
  case Nil
  show ?case by (simp add: preserves_def)
next
  case (Cons i "is")
  then show ?case by (simp add: preserves_bind)
qed

lemma preserves_zoom [keeps]:
  "(\<And>s. I s \<Longrightarrow> J (get s)) \<Longrightarrow> preserves J f \<Longrightarrow> (\<And>s t. I s \<Longrightarrow> J t \<Longrightarrow> I (put t s)) \<Longrightarrow>
   preserves I (zoom get put f)"
  by (auto simp: preserves_def zoom_def split: prod.splits) metis

section \<open>Lists as fixed-size tables\<close>

text \<open>The first index of a table that satisfies a condition, as the kernel's scans
  \<open>for i in 0..n\<close> find it.\<close>

definition first_index :: "nat \<Rightarrow> (nat \<Rightarrow> bool) \<Rightarrow> nat option" where
  "first_index n P = List.find P [0..<n]"

lemma first_index_Some_iff:
  "first_index n P = Some i \<longleftrightarrow> i < n \<and> P i \<and> (\<forall>j<i. \<not> P j)"
proof -
  have "List.find P [0..<n] = Some i \<longleftrightarrow>
      (\<exists>k<length [0..<n]. P ([0..<n] ! k) \<and> i = [0..<n] ! k \<and> (\<forall>j<k. \<not> P ([0..<n] ! j)))"
    by (rule find_Some_iff)
  then show ?thesis
    by (auto simp: first_index_def)
qed

lemma first_index_None_iff: "first_index n P = None \<longleftrightarrow> (\<forall>i<n. \<not> P i)"
  by (auto simp: first_index_def find_None_iff)

section \<open>Bytes of a 64-bit word\<close>

text \<open>Memory is kept in 64-bit words; byte \<open>k\<close> of a word is bits \<open>8 * k\<close> to \<open>8 * k + 7\<close>, the
  little-endian order of the machine.\<close>

definition get_byte :: "u64 \<Rightarrow> nat \<Rightarrow> u8" where
  "get_byte q k = ucast (drop_bit (8 * k) q)"

definition set_byte :: "u64 \<Rightarrow> nat \<Rightarrow> u8 \<Rightarrow> u64" where
  "set_byte q k b = (q AND NOT (push_bit (8 * k) (mask 8))) OR push_bit (8 * k) (ucast b)"

lemma bit_get_byte: "bit (get_byte q k) n \<longleftrightarrow> n < 8 \<and> bit q (8 * k + n)"
  by (auto simp: get_byte_def bit_simps)

lemma bit_set_byte:
  "bit (set_byte q k b) n \<longleftrightarrow> n < 64 \<and>
     (if 8 * k \<le> n \<and> n < 8 * k + 8 then bit b (n - 8 * k) else bit q n)"
proof (cases "8 * k \<le> n \<and> n < 8 * k + 8")
  case True
  then have "n - 8 * k < 8" by arith
  with True show ?thesis
    by (auto simp: set_byte_def bit_simps)
next
  case False
  then have "8 * k \<le> n \<Longrightarrow> \<not> n - 8 * k < 8" by arith
  with False show ?thesis
    by (auto simp: set_byte_def bit_simps dest: bit_imp_le_length)
qed

lemma get_set_byte: "k < 8 \<Longrightarrow> get_byte (set_byte q k b) k = b"
  by (rule bit_word_eqI) (auto simp: bit_get_byte bit_set_byte dest: bit_imp_le_length)

lemma get_set_byte_other: "j \<noteq> k \<Longrightarrow> get_byte (set_byte q k b) j = get_byte q j"
  by (rule bit_word_eqI) (auto simp: bit_get_byte bit_set_byte dest: bit_imp_le_length)

lemma get_byte_0 [simp]: "get_byte 0 k = 0"
  by (simp add: get_byte_def)

lemma word_bytes_eqI: "(\<And>k. k < 8 \<Longrightarrow> get_byte p k = get_byte q k) \<Longrightarrow> p = q"
proof (rule bit_word_eqI)
  fix n assume "n < LENGTH(64)" and eq: "\<And>k. k < 8 \<Longrightarrow> get_byte p k = get_byte q k"
  then have "n div 8 < 8" by simp
  from eq [OF this] have "bit (get_byte p (n div 8)) (n mod 8) = bit (get_byte q (n div 8)) (n mod 8)"
    by simp
  then show "bit p n = bit q n"
    by (simp add: bit_get_byte)
qed

end
