(* ===== verification/Frames.thy ===== *)
theory Frames
  imports Prelude
begin

text \<open>
  The physical frame allocator of kernel/src/memory/mod.rs: \<open>BootInfoFrameAllocator\<close> hands out
  the 4 KiB frames of the boot loader's usable regions one after the other and reuses returned
  frames first. The trait \<open>FrameAllocator\<close> + \<open>FrameDeallocator\<close> that the paging code takes as
  a type parameter is the locale \<open>frame_source\<close>; the allocator's own model interprets it at the
  end of the theory.

  Frames are named by their start address (\<open>PhysFrame\<close>). The regions are the boot loader's
  data: a start, an end and whether the region's kind is \<open>MemoryRegionKind::Usable\<close>.
\<close>

section \<open>The interface the paging code relies on\<close>

definition page_aligned :: "u64 \<Rightarrow> bool" where
  "page_aligned a \<longleftrightarrow> a AND mask 12 = 0"

lemma page_aligned_bits: "page_aligned f \<longleftrightarrow> (\<forall>n<12. \<not> bit f n)"
proof
  assume "page_aligned f"
  then have "\<not> bit (f AND mask 12) n" for n by (simp add: page_aligned_def)
  then show "\<forall>n<12. \<not> bit f n"
    by (metis bit_and_iff bit_imp_le_length bit_mask_iff possible_bit_word)
next
  assume "\<forall>n<12. \<not> bit f n"
  then show "page_aligned f"
    unfolding page_aligned_def by (intro bit_word_eqI) (auto simp: bit_and_iff bit_mask_iff)
qed

text \<open>A \<open>PhysFrame\<close>: a 4 KiB aligned physical address, and physical addresses have 52 bits.\<close>

definition phys_frame :: "u64 \<Rightarrow> bool" where
  "phys_frame f \<longleftrightarrow> page_aligned f \<and> f < 2 ^ 52"

lemma phys_frame_bits: "phys_frame f \<longleftrightarrow> (\<forall>n. bit f n \<longrightarrow> 12 \<le> n \<and> n < 52)"
  unfolding phys_frame_def page_aligned_bits by (subst less_exp_bits) (auto simp: not_less)

locale frame_source =
  fixes alloc :: "'a \<Rightarrow> u64 option \<times> 'a"
    and dealloc :: "u64 \<Rightarrow> 'a \<Rightarrow> 'a"
    and avail :: "'a \<Rightarrow> u64 set"
    and ok :: "'a \<Rightarrow> bool"
  assumes alloc_Some: "ok a \<Longrightarrow> alloc a = (Some f, b) \<Longrightarrow>
      f \<in> avail a \<and> avail b = avail a - {f} \<and> ok b"
    and alloc_None: "ok a \<Longrightarrow> alloc a = (None, b) \<Longrightarrow> avail a = {} \<and> avail b = {} \<and> ok b"
    and dealloc_ok: "ok a \<Longrightarrow> f \<notin> avail a \<Longrightarrow> phys_frame f \<Longrightarrow>
      ok (dealloc f a) \<and> avail (dealloc f a) = insert f (avail a)"
    and avail_phys: "ok a \<Longrightarrow> f \<in> avail a \<Longrightarrow> phys_frame f"
begin

text \<open>A frame just handed out is not handed out again before it is returned.\<close>

lemma alloc_fresh:
  assumes "ok a" and "alloc a = (Some f, b)" and "alloc b = (Some g, c)"
  shows "f \<noteq> g"
  using alloc_Some [OF assms(1,2)] alloc_Some [OF _ assms(3)] by auto

lemma alloc_dealloc_avail:
  assumes "ok a" and "alloc a = (Some f, b)"
  shows "avail (dealloc f b) = avail a" and "ok (dealloc f b)"
  using alloc_Some [OF assms] avail_phys [OF assms(1)] dealloc_ok [of b f] by auto

text \<open>Allocation fails only when nothing is left.\<close>

lemma alloc_total:
  assumes "ok a" and "avail a \<noteq> {}"
  obtains f b where "alloc a = (Some f, b)" and "f \<in> avail a"
proof (cases "alloc a")
  case (Pair r b)
  then show ?thesis
  proof (cases r)
    case None
    with alloc_None [OF assms(1), of b] Pair assms(2) show ?thesis by simp
  next
    case (Some f)
    with alloc_Some [OF assms(1), of f b] Pair that show ?thesis by simp
  qed
qed

end

section \<open>The allocator of the boot loader's memory map\<close>

datatype region_kind = Usable | OtherKind

record region =
  r_start :: u64
  r_end :: u64
  r_kind :: region_kind

record frame_alloc =
  memory_map :: "region list"
  next_frame :: nat
  recycled_frames :: "u64 list"

definition frame_alloc_init :: "region list \<Rightarrow> frame_alloc" where
  "frame_alloc_init mm = \<lparr>memory_map = mm, next_frame = 0, recycled_frames = []\<rparr>"

text \<open>\<open>(r.start..r.end).step_by(PAGE_SIZE)\<close>: no address where the start is not below the end.\<close>

definition region_addresses :: "region \<Rightarrow> u64 list" where
  "region_addresses r =
     map (\<lambda>k. r_start r + of_nat (4096 * k))
       [0..<(unat (r_end r) - unat (r_start r) + 4095) div 4096]"

text \<open>\<open>PhysFrame::containing_address\<close> rounds an address down to its frame.\<close>

definition containing_frame :: "u64 \<Rightarrow> u64" where
  "containing_frame a = a AND NOT (mask 12)"

definition usable_frames :: "frame_alloc \<Rightarrow> u64 list" where
  "usable_frames a =
     map containing_frame
       (concat (map region_addresses (filter (\<lambda>r. r_kind r = Usable) (memory_map a))))"

text \<open>\<open>recycled_frames\<close> is a \<open>Vec\<close> used as a stack: \<open>push\<close> and \<open>pop\<close> work at its end. The
  counter \<open>next\<close> also moves when the map is exhausted, as in the code.\<close>

definition allocate_frame :: "frame_alloc \<Rightarrow> u64 option \<times> frame_alloc" where
  "allocate_frame a =
     (if recycled_frames a \<noteq> []
      then (Some (last (recycled_frames a)), a\<lparr>recycled_frames := butlast (recycled_frames a)\<rparr>)
      else (if next_frame a < length (usable_frames a)
            then Some (usable_frames a ! next_frame a) else None,
            a\<lparr>next_frame := Suc (next_frame a)\<rparr>))"

definition deallocate_frame :: "u64 \<Rightarrow> frame_alloc \<Rightarrow> frame_alloc" where
  "deallocate_frame f a = a\<lparr>recycled_frames := recycled_frames a @ [f]\<rparr>"

section \<open>What the allocator keeps\<close>

text \<open>The frames it can still hand out: the returned ones and the rest of the map.\<close>

definition free_list :: "frame_alloc \<Rightarrow> u64 list" where
  "free_list a = recycled_frames a @ drop (next_frame a) (usable_frames a)"

definition avail_frames :: "frame_alloc \<Rightarrow> u64 set" where
  "avail_frames a = set (free_list a)"

definition frame_alloc_ok :: "frame_alloc \<Rightarrow> bool" where
  "frame_alloc_ok a \<longleftrightarrow> distinct (free_list a) \<and> (\<forall>f\<in>set (free_list a). phys_frame f)"

lemma usable_frames_update [simp]:
  "usable_frames (a\<lparr>next_frame := n\<rparr>) = usable_frames a"
  "usable_frames (a\<lparr>recycled_frames := rs\<rparr>) = usable_frames a"
  by (simp_all add: usable_frames_def)

lemma free_list_update [simp]:
  "free_list (a\<lparr>recycled_frames := rs\<rparr>) = rs @ drop (next_frame a) (usable_frames a)"
  "free_list (a\<lparr>next_frame := n\<rparr>) = recycled_frames a @ drop n (usable_frames a)"
  by (simp_all add: free_list_def)

lemma phys_frame_containing: "a < 2 ^ 52 \<Longrightarrow> phys_frame (containing_frame a)"
  by (subst (asm) less_exp_bits)
    (auto simp: phys_frame_bits containing_frame_def bit_simps)

lemma containing_frame_id: "page_aligned a \<Longrightarrow> containing_frame a = a"
  by (rule bit_word_eqI) (auto simp: containing_frame_def page_aligned_bits bit_simps not_less)

lemma allocate_frame_cases:
  assumes "allocate_frame a = (r, b)"
  obtains (recycled) f rs where "recycled_frames a = rs @ [f]" and "r = Some f"
      and "b = a\<lparr>recycled_frames := rs\<rparr>"
  | (fresh) "recycled_frames a = []" and "next_frame a < length (usable_frames a)"
      and "r = Some (usable_frames a ! next_frame a)" and "b = a\<lparr>next_frame := Suc (next_frame a)\<rparr>"
  | (exhausted) "recycled_frames a = []" and "length (usable_frames a) \<le> next_frame a"
      and "r = None" and "b = a\<lparr>next_frame := Suc (next_frame a)\<rparr>"
proof (cases "recycled_frames a" rule: rev_cases)
  case Nil
  with assms that(2,3) show ?thesis
    by (cases "next_frame a < length (usable_frames a)") (auto simp: allocate_frame_def)
next
  case (snoc rs f)
  with assms that(1) show ?thesis by (auto simp: allocate_frame_def)
qed

lemma free_list_Cons:
  "recycled_frames a = [] \<Longrightarrow> next_frame a < length (usable_frames a) \<Longrightarrow>
   free_list a = usable_frames a ! next_frame a # drop (Suc (next_frame a)) (usable_frames a)"
  by (simp add: free_list_def Cons_nth_drop_Suc)

lemma allocate_frame_Some:
  assumes "frame_alloc_ok a" and "allocate_frame a = (Some f, b)"
  shows "f \<in> avail_frames a \<and> avail_frames b = avail_frames a - {f} \<and> frame_alloc_ok b"
  using assms(2)
proof (cases rule: allocate_frame_cases)
  case (recycled g rs)
  then show ?thesis
    using assms(1) by (auto simp: avail_frames_def frame_alloc_ok_def free_list_def)
next
  case fresh
  then show ?thesis
    using assms(1) free_list_Cons [OF fresh(1,2)]
    by (auto simp: avail_frames_def frame_alloc_ok_def)
qed simp

lemma allocate_frame_None:
  assumes "frame_alloc_ok a" and "allocate_frame a = (None, b)"
  shows "avail_frames a = {} \<and> avail_frames b = {} \<and> frame_alloc_ok b"
  using assms(2)
  by (cases rule: allocate_frame_cases)
    (auto simp: avail_frames_def frame_alloc_ok_def free_list_def)

lemma deallocate_frame_ok:
  assumes "frame_alloc_ok a" and "f \<notin> avail_frames a" and "phys_frame f"
  shows "frame_alloc_ok (deallocate_frame f a) \<and>
    avail_frames (deallocate_frame f a) = insert f (avail_frames a)"
  using assms by (auto simp: avail_frames_def frame_alloc_ok_def deallocate_frame_def free_list_def)

interpretation boot: frame_source allocate_frame deallocate_frame avail_frames frame_alloc_ok
proof unfold_locales
  show "frame_alloc_ok a \<Longrightarrow> f \<in> avail_frames a \<Longrightarrow> phys_frame f" for a f
    by (simp add: avail_frames_def frame_alloc_ok_def)
qed (fact allocate_frame_Some allocate_frame_None deallocate_frame_ok)+

end
