(* ===== verification/Paging.thy ===== *)
theory Paging
  imports Frames
begin

text \<open>
  The four-level page tables of kernel/src/memory/va.rs.

  Physical memory is a function from a frame (its start address) and an index below 512 to the
  64-bit word stored there: a frame holding a page table is read entry by entry, a frame holding
  data byte by byte (byte \<open>8 * i + k\<close> is byte \<open>k\<close> of word \<open>i\<close>, the machine being
  little-endian). The kernel reaches physical memory through the boot loader's direct map at
  \<open>PHYSICAL_MEMORY_OFFSET\<close>; a pointer into that map is written here as the physical address it
  stands for, so \<open>phys_to_virt\<close>, \<open>table_from_frame\<close> and \<open>table_from_entry\<close> are the identity on
  frames.

  The entries themselves belong to the crate x86_64, which is not part of the repository: what
  \<open>PageTableEntry::flags\<close>, \<open>addr\<close> and \<open>set_frame\<close> do is the parameter \<open>X\<close> of every definition,
  and what the kernel relies on are the assumptions of the locale \<open>paging_crate\<close>. The bit
  layout of the processor's entries, \<open>x86_bits\<close>, satisfies them.
\<close>

section \<open>The crate's page-table entries\<close>

type_synonym phys_mem = "u64 \<Rightarrow> nat \<Rightarrow> u64"

definition PRESENT :: u64 where "PRESENT = 1"
definition WRITABLE :: u64 where "WRITABLE = 2"
definition USER_ACCESSIBLE :: u64 where "USER_ACCESSIBLE = 4"
definition HUGE_PAGE :: u64 where "HUGE_PAGE = 128"

lemmas flag_defs = PRESENT_def WRITABLE_def USER_ACCESSIBLE_def HUGE_PAGE_def

text \<open>
  \<open>pte_flags\<close> and \<open>pte_addr\<close> read an entry; \<open>pte_set_frame f fl\<close> is the entry that
  \<open>entry.set_frame(f, fl)\<close> stores, \<open>None\<close> where the crate's assertion fails, and \<open>pte_set_flags e fl\<close>
  the one that \<open>entry.set_flags(fl)\<close> makes of \<open>e\<close>. An unused entry is
  the word 0 (\<open>PageTable::new()\<close>, \<open>set_unused()\<close>). \<open>pte_frame\<close> is \<open>PageTableEntry::frame\<close>.
  \<open>virt_ok\<close> holds of the addresses for which \<open>VirtAddr::new\<close> does not panic.
\<close>

datatype frame_error = FrameNotPresent | HugeFrame

record x86 =
  pte_flags :: "u64 \<Rightarrow> u64"
  pte_addr :: "u64 \<Rightarrow> u64"
  pte_set_frame :: "u64 \<Rightarrow> u64 \<Rightarrow> u64 option"
  pte_set_flags :: "u64 \<Rightarrow> u64 \<Rightarrow> u64"
  pte_frame :: "u64 \<Rightarrow> frame_error + u64"
  virt_ok :: "u64 \<Rightarrow> bool"

text \<open>Bits 12 to 51 of an entry hold the address, the other bits the flags.\<close>

definition addr_mask :: u64 where "addr_mask = push_bit 12 (mask 40)"

definition flag_word :: "u64 \<Rightarrow> bool" where
  "flag_word fl \<longleftrightarrow> fl AND addr_mask = 0 \<and> \<not> contains fl HUGE_PAGE"

locale paging_crate =
  fixes X :: x86
  assumes set_frame_ok: "phys_frame f \<Longrightarrow> flag_word fl \<Longrightarrow>
      \<exists>e. pte_set_frame X f fl = Some e \<and> pte_flags X e = fl \<and> pte_addr X e = f"
    and set_flags_ok: "flag_word fl \<Longrightarrow>
      pte_flags X (pte_set_flags X e fl) = fl \<and> pte_addr X (pte_set_flags X e fl) = pte_addr X e"
    and flags_bits: "pte_flags X e AND addr_mask = 0"
    and flags_unused: "pte_flags X 0 = 0"
    and addr_phys: "phys_frame (pte_addr X e)"
    and frame_ok: "contains (pte_flags X e) PRESENT \<Longrightarrow> \<not> contains (pte_flags X e) HUGE_PAGE \<Longrightarrow>
      pte_frame X e = Inr (pte_addr X e)"
    and frame_not_present: "\<not> contains (pte_flags X e) PRESENT \<Longrightarrow>
      pte_frame X e = Inl FrameNotPresent"
    and frame_huge: "contains (pte_flags X e) PRESENT \<Longrightarrow> contains (pte_flags X e) HUGE_PAGE \<Longrightarrow>
      pte_frame X e = Inl HugeFrame"
    and virt_lower_half: "va < 2 ^ 47 \<Longrightarrow> virt_ok X va"

text \<open>The processor's layout.\<close>

definition x86_bits :: x86 where
  "x86_bits = \<lparr>
     pte_flags = (\<lambda>e. e AND NOT addr_mask),
     pte_addr = (\<lambda>e. e AND addr_mask),
     pte_set_frame = (\<lambda>f fl. if contains fl HUGE_PAGE \<or> \<not> page_aligned f then None
                             else Some (f OR fl)),
     pte_set_flags = (\<lambda>e fl. (e AND addr_mask) OR fl),
     pte_frame = (\<lambda>e. if \<not> contains (e AND NOT addr_mask) PRESENT then Inl FrameNotPresent
                      else if contains (e AND NOT addr_mask) HUGE_PAGE then Inl HugeFrame
                      else Inr (e AND addr_mask)),
     virt_ok = (\<lambda>va. va < 2 ^ 47 \<or> NOT va < 2 ^ 47)\<rparr>"

lemma bit_addr_mask: "bit addr_mask n \<longleftrightarrow> 12 \<le> n \<and> n < 52"
  by (auto simp: addr_mask_def bit_simps)

lemma flag_word_bits: "flag_word fl \<Longrightarrow> bit fl n \<Longrightarrow> \<not> (12 \<le> n \<and> n < 52)"
proof
  assume "flag_word fl" and n: "bit fl n" "12 \<le> n \<and> n < 52"
  then have "bit (fl AND addr_mask) n = bit (0 :: u64) n" by (simp add: flag_word_def)
  with n show False
    by (simp add: bit_and_iff bit_addr_mask)
qed

interpretation bits: paging_crate x86_bits
proof
  fix f fl
  assume f: "phys_frame f" and fl: "flag_word fl"
  then have bits: "bit f n \<Longrightarrow> 12 \<le> n \<and> n < 52" "bit fl n \<Longrightarrow> \<not> (12 \<le> n \<and> n < 52)" for n
    using flag_word_bits by (auto simp: phys_frame_bits)
  have "(f OR fl) AND NOT addr_mask = fl"
    by (rule bit_word_eqI)
      (auto simp: bit_and_iff bit_or_iff bit_not_iff bit_addr_mask dest: bits)
  moreover have "(f OR fl) AND addr_mask = f"
    by (rule bit_word_eqI)
      (auto simp: bit_and_iff bit_or_iff bit_not_iff bit_addr_mask dest: bits)
  ultimately show "\<exists>e. pte_set_frame x86_bits f fl = Some e \<and> pte_flags x86_bits e = fl \<and>
      pte_addr x86_bits e = f"
    using f fl by (simp add: x86_bits_def flag_word_def phys_frame_def)
next
  fix e fl
  assume fl: "flag_word fl"
  have "(e AND addr_mask OR fl) AND NOT addr_mask = fl"
    by (rule bit_word_eqI)
      (auto simp: bit_and_iff bit_or_iff bit_not_iff bit_addr_mask dest: flag_word_bits [OF fl])
  moreover have "(e AND addr_mask OR fl) AND addr_mask = e AND addr_mask"
    by (rule bit_word_eqI)
      (auto simp: bit_and_iff bit_or_iff bit_addr_mask dest: flag_word_bits [OF fl])
  ultimately show "pte_flags x86_bits (pte_set_flags x86_bits e fl) = fl \<and>
      pte_addr x86_bits (pte_set_flags x86_bits e fl) = pte_addr x86_bits e"
    by (simp add: x86_bits_def)
next
  show "pte_flags x86_bits e AND addr_mask = 0" for e
    by (simp add: x86_bits_def bit.conj_disj_distribs and.assoc)
next
  show "pte_flags x86_bits 0 = 0" by (simp add: x86_bits_def)
  show "phys_frame (pte_addr x86_bits e)" for e
    by (simp add: phys_frame_bits x86_bits_def bit_and_iff bit_addr_mask)
qed (simp_all add: x86_bits_def)

section \<open>Walking the tables\<close>

text \<open>The memory the paging code works on: physical memory, the frame allocator it is given and
  the global \<open>PHYSICAL_MEMORY_OFFSET\<close>, \<open>None\<close> until \<open>memory::init\<close> has run.\<close>

record 'a mem =
  pm :: phys_mem
  fa :: 'a
  phys_offset :: "u64 option"

definition pml4_index :: "u64 \<Rightarrow> nat" where
  "pml4_index va = unat (drop_bit 39 va AND mask 9)"

definition pdpt_index :: "u64 \<Rightarrow> nat" where
  "pdpt_index va = unat (drop_bit 30 va AND mask 9)"

definition pd_index :: "u64 \<Rightarrow> nat" where
  "pd_index va = unat (drop_bit 21 va AND mask 9)"

definition pt_index :: "u64 \<Rightarrow> nat" where
  "pt_index va = unat (drop_bit 12 va AND mask 9)"

definition page_offset :: "u64 \<Rightarrow> nat" where
  "page_offset va = unat (va AND mask 12)"

definition present :: "x86 \<Rightarrow> u64 \<Rightarrow> bool" where
  "present X e \<longleftrightarrow> contains (pte_flags X e) PRESENT"

definition table_flags :: u64 where
  "table_flags = PRESENT OR WRITABLE OR USER_ACCESSIBLE"

definition set_entry :: "u64 \<Rightarrow> nat \<Rightarrow> u64 \<Rightarrow> 'a mem \<Rightarrow> 'a mem" where
  "set_entry t i e s = s\<lparr>pm := (pm s)(t := (pm s t)(i := e))\<rparr>"

text \<open>\<open>init_page_table\<close>, \<open>PageTable::new()\<close> written to a frame and \<open>write_bytes(.., 0, PAGE_SIZE)\<close>
  all leave a frame of zero words.\<close>

definition zero_frame :: "u64 \<Rightarrow> 'a mem \<Rightarrow> 'a mem" where
  "zero_frame f s = s\<lparr>pm := (pm s)(f := (\<lambda>_. 0))\<rparr>"

text \<open>One of the three blocks of \<open>walk_pagetable\<close>: from entry \<open>i\<close> of table \<open>t\<close> to the table of
  the next level, which is allocated when it is missing and \<open>alloc\<close> is set.\<close>

definition next_table ::
  "x86 \<Rightarrow> ('a \<Rightarrow> u64 option \<times> 'a) \<Rightarrow> bool \<Rightarrow> u64 \<Rightarrow> nat \<Rightarrow> ('a mem, u64 option) program" where
  "next_table X al alloc t i = (\<lambda>s.
     if present X (pm s t i) then (Ok (Some (pte_addr X (pm s t i))), s)
     else if \<not> alloc then (Ok None, s)
     else (case al (fa s) of
         (None, a) \<Rightarrow> (Ok None, s\<lparr>fa := a\<rparr>)
       | (Some f, a) \<Rightarrow>
           (let s1 = zero_frame f (s\<lparr>fa := a\<rparr>) in
            case pte_set_frame X f table_flags of
              None \<Rightarrow> (Panic ''set_frame: assertion failed'', s1)
            | Some e \<Rightarrow> (Ok (Some (pte_addr X e)), set_entry t i e s1))))"

text \<open>The result \<open>Some (t, i)\<close> stands for the reference to entry \<open>i\<close> of the page table \<open>t\<close>.\<close>

definition walk_pagetable ::
  "x86 \<Rightarrow> ('a \<Rightarrow> u64 option \<times> 'a) \<Rightarrow> u64 \<Rightarrow> u64 \<Rightarrow> bool \<Rightarrow> ('a mem, (u64 \<times> nat) option) program"
where
  "walk_pagetable X al pml4 va alloc =
     bind (next_table X al alloc pml4 (pml4_index va)) (\<lambda>o1. case o1 of
       None \<Rightarrow> ret None
     | Some pdpt \<Rightarrow> bind (next_table X al alloc pdpt (pdpt_index va)) (\<lambda>o2. case o2 of
         None \<Rightarrow> ret None
       | Some pd \<Rightarrow> bind (next_table X al alloc pd (pd_index va)) (\<lambda>o3. case o3 of
           None \<Rightarrow> ret None
         | Some pt \<Rightarrow> ret (Some (pt, pt_index va)))))"

text \<open>\<open>translate_addr_inner\<close>: the physical address of \<open>va\<close> under the table \<open>cr3\<close>. It descends
  through all four levels and asks each entry for its frame.\<close>

fun translate_levels :: "x86 \<Rightarrow> phys_mem \<Rightarrow> u64 \<Rightarrow> nat list \<Rightarrow> u64 option res" where
  "translate_levels X m f [] = Ok (Some f)"
| "translate_levels X m f (i # is) =
     (case pte_frame X (m f i) of
        Inr g \<Rightarrow> translate_levels X m g is
      | Inl FrameNotPresent \<Rightarrow> Ok None
      | Inl HugeFrame \<Rightarrow> Panic ''huge pages not supported'')"

definition translate_addr_inner :: "x86 \<Rightarrow> phys_mem \<Rightarrow> u64 \<Rightarrow> u64 \<Rightarrow> u64 option res" where
  "translate_addr_inner X m cr3 va =
     (case translate_levels X m cr3
             [pml4_index va, pdpt_index va, pd_index va, pt_index va] of
        Ok (Some f) \<Rightarrow> Ok (Some (f + of_nat (page_offset va)))
      | Ok None \<Rightarrow> Ok None
      | Err e \<Rightarrow> Err e
      | Panic e \<Rightarrow> Panic e)"

end
