(* ===== verification/Space.thy ===== *)
theory Space
  imports Paging
begin

text \<open>
  The abstract view of a page-table hierarchy, and what walking it keeps.

  A path is a list of at most four indices, from the PML4 downwards; \<open>tbl X m r p\<close> is the frame
  at its end: the table of the next level, or for four indices the data frame of a page. The
  user half of a hierarchy is a tree (\<open>user_tree\<close>): no two user paths end in the same frame,
  so no table and no data frame is shared. \<open>space_ok\<close> adds that nothing in the tree is in the
  frame allocator's hands and that the user half has no huge pages. The central fact is
  \<open>tbl_link\<close>: storing a fresh frame in an empty entry adds exactly one path, and it serves
  intermediate tables and data pages alike.
\<close>

section \<open>Paths\<close>

fun tbl :: "x86 \<Rightarrow> phys_mem \<Rightarrow> u64 \<Rightarrow> nat list \<Rightarrow> u64 option" where
  "tbl X m r [] = Some r"
| "tbl X m r (i # is) = (if present X (m r i) then tbl X m (pte_addr X (m r i)) is else None)"

definition upath :: "nat list \<Rightarrow> bool" where
  "upath p \<longleftrightarrow> length p \<le> 4 \<and> (\<forall>i\<in>set p. i < 512) \<and> (p \<noteq> [] \<longrightarrow> hd p < 256)"

definition va_path :: "u64 \<Rightarrow> nat list" where
  "va_path va = [pml4_index va, pdpt_index va, pd_index va, pt_index va]"

lemma tbl_snoc:
  "tbl X m r (p @ [i]) = (case tbl X m r p of None \<Rightarrow> None
     | Some t \<Rightarrow> if present X (m t i) then Some (pte_addr X (m t i)) else None)"
  by (induction p arbitrary: r) auto

lemma upath_Nil [simp]: "upath []"
  by (simp add: upath_def)

lemma upath_snocD: "upath (p @ [i]) \<Longrightarrow> upath p \<and> i < 512 \<and> length p < 4"
  by (cases p) (auto simp: upath_def)

lemma unat_drop_bit: "k < 64 \<Longrightarrow> unat (drop_bit k (a :: u64)) = unat a div 2 ^ k"
  by (simp add: drop_bit_eq_div unat_div unat_exp del: drop_bit_of_0)

lemma unat_and_mask: "unat (a AND mask k :: u64) = unat a mod 2 ^ k"
  by (metis take_bit_eq_mask unsigned_take_bit_eq take_bit_eq_mod)

definition table_path :: "u64 \<Rightarrow> nat list" where
  "table_path va = [pml4_index va, pdpt_index va, pd_index va]"

lemma va_path_table: "va_path va = table_path va @ [pt_index va]"
  by (simp add: va_path_def table_path_def)

text \<open>In terms of the page number \<open>va div 4096\<close>.\<close>

definition page_no :: "u64 \<Rightarrow> nat" where
  "page_no va = unat va div 4096"

definition page_path :: "nat \<Rightarrow> nat list" where
  "page_path k = [k div 512 div 512 div 512 mod 512, k div 512 div 512 mod 512,
                  k div 512 mod 512, k mod 512]"

lemma va_path_page: "va_path va = page_path (page_no va)"
  by (simp add: va_path_def page_path_def page_no_def pml4_index_def pdpt_index_def pd_index_def
      pt_index_def unat_and_mask unat_drop_bit flip: div_mult2_eq)

lemma page_offset_nat: "page_offset va = unat va mod 4096"
  by (simp add: page_offset_def unat_and_mask)

text \<open>The lower canonical half, which the PML4 entries 0 to 255 cover.\<close>

definition user_va :: "u64 \<Rightarrow> bool" where
  "user_va va \<longleftrightarrow> unat va < 2 ^ 47"

lemma user_va_less: "user_va va \<longleftrightarrow> va < 2 ^ 47"
  by (simp add: user_va_def word_less_nat_alt)

lemma page_no_user: "user_va va \<Longrightarrow> page_no va < 2 ^ 35"
  by (simp add: page_no_def user_va_def)

lemma upath_page: "k < 2 ^ 35 \<Longrightarrow> upath (page_path k)"
  by (auto simp: upath_def page_path_def)

lemma upath_va: "user_va va \<Longrightarrow> upath (va_path va)"
  unfolding va_path_page by (intro upath_page page_no_user)

lemma div_mod_512_eqI: "k mod 512 = l mod 512 \<Longrightarrow> k div 512 = l div 512 \<Longrightarrow> k = (l :: nat)"
  by (metis div_mult_mod_eq)

text \<open>Two user addresses have the same path exactly when they lie in the same page.\<close>

lemma page_path_inj:
  assumes "k < 2 ^ 35" and "l < 2 ^ 35" and "page_path k = page_path l"
  shows "k = l"
proof -
  have small: "k div 512 div 512 div 512 < 512" "l div 512 div 512 div 512 < 512"
    using assms(1,2) by simp_all
  have eq: "k div 512 div 512 div 512 mod 512 = l div 512 div 512 div 512 mod 512"
      "k div 512 div 512 mod 512 = l div 512 div 512 mod 512"
      "k div 512 mod 512 = l div 512 mod 512" "k mod 512 = l mod 512"
    using assms(3) by (simp_all only: page_path_def list.inject)
  from eq(1) small have "k div 512 div 512 div 512 = l div 512 div 512 div 512"
    by (simp only: mod_less)
  with eq(2) have "k div 512 div 512 = l div 512 div 512" by (rule div_mod_512_eqI)
  with eq(3) have "k div 512 = l div 512" by (rule div_mod_512_eqI)
  with eq(4) show ?thesis by (rule div_mod_512_eqI)
qed

lemma va_path_eq_iff:
  "user_va va \<Longrightarrow> user_va vb \<Longrightarrow> va_path va = va_path vb \<longleftrightarrow> page_no va = page_no vb"
  unfolding va_path_page by (metis page_path_inj page_no_user)

section \<open>The user half as a tree\<close>

definition user_tree :: "x86 \<Rightarrow> phys_mem \<Rightarrow> u64 \<Rightarrow> bool" where
  "user_tree X m r \<longleftrightarrow>
     (\<forall>p q t. upath p \<and> upath q \<and> tbl X m r p = Some t \<and> tbl X m r q = Some t \<longrightarrow> p = q)"

definition space_frames :: "x86 \<Rightarrow> phys_mem \<Rightarrow> u64 \<Rightarrow> u64 set" where
  "space_frames X m r = {t. \<exists>p. upath p \<and> tbl X m r p = Some t}"

definition no_huge :: "x86 \<Rightarrow> phys_mem \<Rightarrow> u64 \<Rightarrow> bool" where
  "no_huge X m r \<longleftrightarrow> (\<forall>p i t. upath (p @ [i]) \<and> tbl X m r p = Some t \<and> present X (m t i) \<longrightarrow>
     \<not> contains (pte_flags X (m t i)) HUGE_PAGE)"

text \<open>What a path to a page shows: the frame, the flags of its entry, the contents.\<close>

definition path_view :: "x86 \<Rightarrow> phys_mem \<Rightarrow> u64 \<Rightarrow> nat list \<Rightarrow> (u64 \<times> u64 \<times> (nat \<Rightarrow> u64)) option" where
  "path_view X m r p = (case tbl X m r (butlast p) of None \<Rightarrow> None
     | Some t \<Rightarrow> let e = m t (last p) in
         if present X e then Some (pte_addr X e, pte_flags X e, m (pte_addr X e)) else None)"

definition page_view :: "x86 \<Rightarrow> phys_mem \<Rightarrow> u64 \<Rightarrow> nat \<Rightarrow> (u64 \<times> u64 \<times> (nat \<Rightarrow> u64)) option" where
  "page_view X m r k = path_view X m r (page_path k)"

lemma user_treeD:
  "user_tree X m r \<Longrightarrow> tbl X m r p = Some t \<Longrightarrow> tbl X m r q = Some t \<Longrightarrow> upath p \<Longrightarrow> upath q \<Longrightarrow> p = q"
  unfolding user_tree_def by blast

text \<open>Below the PML4 and in its lower half.\<close>

lemma upper_entry:
  assumes "user_tree X m r" and "upath (p @ [i])" and "tbl X m r p = Some t" and "256 \<le> j"
  shows "(r, j) \<noteq> (t, i)"
proof
  assume a: "(r, j) = (t, i)"
  then have "p = []" using user_treeD [OF assms(1,3), of "[]"] upath_snocD [OF assms(2)] by simp
  then show False using assms(2,4) a by (simp add: upath_def)
qed

lemma space_framesI: "upath p \<Longrightarrow> tbl X m r p = Some t \<Longrightarrow> t \<in> space_frames X m r"
  unfolding space_frames_def by blast

lemma root_in_space [simp]: "r \<in> space_frames X m r"
  by (rule space_framesI [of "[]"]) simp_all

lemma path_view_snoc:
  "path_view X m r (p @ [i]) = (case tbl X m r p of None \<Rightarrow> None
     | Some t \<Rightarrow> if present X (m t i) then Some (pte_addr X (m t i), pte_flags X (m t i), m (pte_addr X (m t i)))
               else None)"
  by (auto simp: path_view_def Let_def split: option.splits)

lemma path_view_frame:
  "q \<noteq> [] \<Longrightarrow> path_view X m r q = Some (f, fl, d) \<Longrightarrow> tbl X m r q = Some f"
  by (cases q rule: rev_cases) (auto simp: path_view_snoc tbl_snoc split: option.splits if_splits)

lemma path_view_None_iff: "q \<noteq> [] \<Longrightarrow> path_view X m r q = None \<longleftrightarrow> tbl X m r q = None"
  by (cases q rule: rev_cases) (auto simp: path_view_snoc tbl_snoc split: option.splits if_splits)

text \<open>Memory that agrees on the tables of the user half shows the same tree.\<close>

lemma tbl_cong:
  assumes "\<And>p i t. upath (p @ [i]) \<Longrightarrow> tbl X m r p = Some t \<Longrightarrow> m' t i = m t i" and "upath q"
  shows "tbl X m' r q = tbl X m r q"
  using assms(2)
proof (induction q rule: rev_induct)
  case (snoc i q)
  from upath_snocD [OF snoc.prems] snoc.IH have "tbl X m' r q = tbl X m r q" by blast
  then show ?case
    using assms(1) [OF snoc.prems] by (auto simp: tbl_snoc split: option.splits)
qed simp

text \<open>Memory that agrees on every frame of the tree shows the same tree and the same pages.\<close>

lemma same_space:
  assumes same: "\<And>f. f \<in> space_frames X m r \<Longrightarrow> m' f = m f"
  shows "upath q \<Longrightarrow> tbl X m' r q = tbl X m r q"
    and "space_frames X m' r = space_frames X m r"
    and "user_tree X m r \<Longrightarrow> user_tree X m' r"
    and "no_huge X m r \<Longrightarrow> no_huge X m' r"
    and "upath q \<Longrightarrow> length q = 4 \<Longrightarrow> path_view X m' r q = path_view X m r q"
proof -
  have T: "tbl X m' r q = tbl X m r q" if "upath q" for q
  proof (rule tbl_cong [OF _ that])
    fix p i t
    assume "upath (p @ [i])" and "tbl X m r p = Some t"
    then show "m' t i = m t i"
      using same space_framesI upath_snocD by metis
  qed
  then show "upath q \<Longrightarrow> tbl X m' r q = tbl X m r q" .
  show "space_frames X m' r = space_frames X m r"
    unfolding space_frames_def using T by (metis (no_types, lifting))
  show "user_tree X m r \<Longrightarrow> user_tree X m' r"
    unfolding user_tree_def using T by metis
  show "no_huge X m r \<Longrightarrow> no_huge X m' r"
    unfolding no_huge_def using T same space_framesI upath_snocD by metis
  assume q: "upath q" "length q = 4"
  obtain p i where p: "q = p @ [i]" using q(2) by (cases q rule: rev_cases) auto
  show "path_view X m' r q = path_view X m r q"
  proof (cases "tbl X m r p")
    case None
    then show ?thesis using T [of p] upath_snocD q p by (simp add: path_view_snoc)
  next
    case (Some t)
    have t: "m' t = m t" using same space_framesI Some upath_snocD q p by metis
    moreover have "present X (m t i) \<Longrightarrow> m' (pte_addr X (m t i)) = m (pte_addr X (m t i))"
      using same space_framesI [OF q(1)] p Some by (simp add: tbl_snoc)
    ultimately show ?thesis
      using T [of p] upath_snocD q p Some by (simp add: path_view_snoc)
  qed
qed

text \<open>Storing an entry for a fresh frame \<open>f\<close> in the empty slot \<open>i\<close> of table \<open>t\<close>.\<close>

definition linked :: "x86 \<Rightarrow> phys_mem \<Rightarrow> phys_mem \<Rightarrow> u64 \<Rightarrow> nat list \<Rightarrow> u64 \<Rightarrow> nat \<Rightarrow> u64 \<Rightarrow> bool" where
  "linked X m m' r p t i e \<longleftrightarrow>
     user_tree X m r \<and> upath (p @ [i]) \<and> tbl X m r p = Some t \<and> \<not> present X (m t i) \<and>
     present X e \<and> pte_addr X e \<notin> space_frames X m r \<and>
     (length p < 3 \<longrightarrow> (\<forall>j. \<not> present X (m' (pte_addr X e) j))) \<and> m' t i = e \<and>
     (\<forall>t' j. t' \<noteq> pte_addr X e \<and> (t', j) \<noteq> (t, i) \<longrightarrow> m' t' j = m t' j)"

lemma tbl_link:
  assumes "linked X m m' r p t i e" and "upath q"
  shows "tbl X m' r q = (if q = p @ [i] then Some (pte_addr X e) else tbl X m r q)"
  using assms(2)
proof (induction q rule: rev_induct)
  case Nil
  then show ?case by simp
next
  case (snoc j q)
  let ?f = "pte_addr X e"
  note L = assms(1) [unfolded linked_def]
  have q: "upath q" "length q < 4" and p: "upath p"
    using upath_snocD [OF snoc.prems] upath_snocD L by blast+
  have IH: "tbl X m' r q = (if q = p @ [i] then Some ?f else tbl X m r q)"
    using snoc.IH q by blast
  show ?case
  proof (cases "q = p @ [i]")
    case True
    then have "length p < 3" using q by simp
    with L have "\<not> present X (m' ?f j)" by blast
    moreover have "tbl X m r q = None" using L True by (simp add: tbl_snoc)
    moreover have "tbl X m' r q = Some ?f" and "q @ [j] \<noteq> p @ [i]" using IH True by simp_all
    ultimately show ?thesis by (simp add: tbl_snoc)
  next
    case False
    show ?thesis
    proof (cases "tbl X m r q")
      case None
      then show ?thesis using IH False L by (auto simp: tbl_snoc)
    next
      case (Some u)
      have "u \<noteq> ?f" using space_framesI [OF q(1) Some] L by blast
      moreover have "u = t \<Longrightarrow> q = p" using user_treeD Some L p q by blast
      ultimately have new: "m' u j = (if q @ [j] = p @ [i] then e else m u j)"
        using L Some by auto
      have "tbl X m' r q = Some u" using IH False Some by simp
      then have "tbl X m' r (q @ [j]) =
            (if present X (m' u j) then Some (pte_addr X (m' u j)) else None)"
          "tbl X m r (q @ [j]) = (if present X (m u j) then Some (pte_addr X (m u j)) else None)"
        using Some by (simp_all add: tbl_snoc)
      then show ?thesis using new L by (cases "q @ [j] = p @ [i]") auto
    qed
  qed
qed

lemma linked_tree:
  assumes L: "linked X m m' r p t i e"
  shows "user_tree X m' r" and "space_frames X m' r = insert (pte_addr X e) (space_frames X m r)"
proof -
  have u: "upath (p @ [i])" and fresh: "pte_addr X e \<notin> space_frames X m r"
    and tree: "user_tree X m r" and empty: "tbl X m r (p @ [i]) = None"
    using L by (auto simp: linked_def tbl_snoc)
  show "user_tree X m' r"
    unfolding user_tree_def
    using tbl_link [OF L] fresh space_framesI user_treeD [OF tree]
    by (metis option.inject)
  show "space_frames X m' r = insert (pte_addr X e) (space_frames X m r)"
  proof (rule set_eqI)
    fix x
    have "(\<exists>q. upath q \<and> tbl X m' r q = Some x) \<longleftrightarrow>
        x = pte_addr X e \<or> (\<exists>q. upath q \<and> tbl X m r q = Some x)"
      using tbl_link [OF L] u empty by (metis option.distinct(1) option.inject)
    then show "x \<in> space_frames X m' r \<longleftrightarrow> x \<in> insert (pte_addr X e) (space_frames X m r)"
      by (simp add: space_frames_def)
  qed
qed

lemma linked_no_huge:
  assumes L: "linked X m m' r p t i e" and "no_huge X m r"
    and "\<not> contains (pte_flags X e) HUGE_PAGE"
    and "length p = 3 \<or> (\<forall>j. \<not> present X (m' (pte_addr X e) j))"
  shows "no_huge X m' r"
  unfolding no_huge_def
proof (intro allI impI, elim conjE)
  fix q j u
  assume q: "upath (q @ [j])" and u: "tbl X m' r q = Some u" and pr: "present X (m' u j)"
  note q' = upath_snocD [OF q]
  show "\<not> contains (pte_flags X (m' u j)) HUGE_PAGE"
  proof (cases "q = p @ [i]")
    case True
    with u tbl_link [OF L] q' have "u = pte_addr X e" by simp
    moreover have "length p \<noteq> 3" using True q' by auto
    ultimately show ?thesis using pr assms(4) by blast
  next
    case False
    with u tbl_link [OF L] q' have mu: "tbl X m r q = Some u" by simp
    then have "u \<noteq> pte_addr X e"
      using L q' space_framesI by (metis linked_def)
    with L have "m' u j = (if (u, j) = (t, i) then e else m u j)"
      by (auto simp: linked_def)
    with assms(2,3) pr q mu show ?thesis by (auto simp: no_huge_def split: if_splits)
  qed
qed

text \<open>A link above the leaves shows no new page; one at the leaves shows exactly one.\<close>

lemma linked_view:
  assumes L: "linked X m m' r p t i e" and q: "upath q" "length q = 4"
  shows "path_view X m' r q = (if q = p @ [i]
      then Some (pte_addr X e, pte_flags X e, m' (pte_addr X e)) else path_view X m r q)"
proof -
  obtain q' j where qj: "q = q' @ [j]" using q(2) by (cases q rule: rev_cases) auto
  let ?f = "pte_addr X e"
  note L' = L [unfolded linked_def]
  have q': "upath q'" "length q' = 3" and p: "upath p" "length p \<le> 3"
    using upath_snocD [of q' j] upath_snocD [of p i] q qj L' by auto
  have t: "tbl X m r p = Some t" using L' by blast
  have link: "tbl X m' r q' = (if q' = p @ [i] then Some ?f else tbl X m r q')"
    using tbl_link [OF L q'(1)] .
  have frame: "f' \<noteq> ?f \<Longrightarrow> f' \<noteq> t \<Longrightarrow> m' f' = m f'" for f'
    using L' by (auto simp: fun_eq_iff)
  show ?thesis
  proof (cases "q' = p @ [i]")
    case True
    then have "length p < 3" using q' by auto
    with L' have "\<not> present X (m' ?f j)" by blast
    moreover have "tbl X m r q' = None" using L' True by (simp add: tbl_snoc)
    moreover have "tbl X m' r q' = Some ?f" and "q \<noteq> p @ [i]" using link True qj by simp_all
    ultimately show ?thesis using qj by (simp add: path_view_snoc)
  next
    case False
    show ?thesis
    proof (cases "tbl X m r q'")
      case None
      then show ?thesis using link False qj t by (auto simp: path_view_snoc)
    next
      case (Some u)
      have uf: "u \<noteq> ?f" using space_framesI [OF q'(1) Some] L' by blast
      have ut: "u = t \<Longrightarrow> q' = p" using user_treeD Some L' p q' by blast
      show ?thesis
      proof (cases "q = p @ [i]")
        case True
        then show ?thesis using link False Some L' qj t by (auto simp: path_view_snoc)
      next
        case neq: False
        with uf ut L' qj t Some have mu: "m' u j = m u j" by auto
        show ?thesis
        proof (cases "present X (m u j)")
          case True
          then have fq: "tbl X m r q = Some (pte_addr X (m u j))"
            using Some qj by (simp add: tbl_snoc)
          then have "pte_addr X (m u j) \<noteq> ?f" using space_framesI [OF q(1)] L' by metis
          moreover have "pte_addr X (m u j) \<noteq> t"
            using user_treeD [of X m r q t p] fq t L' p q by force
          ultimately show ?thesis
            using frame link False Some mu neq qj by (auto simp: path_view_snoc)
        qed (use link False Some mu neq qj in \<open>simp add: path_view_snoc\<close>)
      qed
    qed
  qed
qed

text \<open>Clearing the entry of a page removes exactly that page.\<close>

definition unlinked :: "x86 \<Rightarrow> phys_mem \<Rightarrow> phys_mem \<Rightarrow> u64 \<Rightarrow> nat list \<Rightarrow> u64 \<Rightarrow> nat \<Rightarrow> bool" where
  "unlinked X m m' r p t i \<longleftrightarrow>
     user_tree X m r \<and> upath (p @ [i]) \<and> length p = 3 \<and> tbl X m r p = Some t \<and> \<not> present X 0 \<and>
     (\<forall>t' j. m' t' j = (if t' = t \<and> j = i then 0 else m t' j))"

lemma unlinkedD:
  assumes "unlinked X m m' r p t i"
  shows "user_tree X m r" and "upath p" and "upath (p @ [i])" and "length p = 3"
    and "tbl X m r p = Some t" and "\<not> present X 0"
    and "m' t' j = (if t' = t \<and> j = i then 0 else m t' j)"
    and "t' \<noteq> t \<Longrightarrow> m' t' = m t'"
  using assms upath_snocD [of p i] by (auto simp: unlinked_def fun_eq_iff)

lemma unlinked_entry:
  assumes U: "unlinked X m m' r p t i" and q: "upath q" "tbl X m r q = Some u"
  shows "m' u j = (if q @ [j] = p @ [i] then 0 else m u j)"
  using unlinkedD(7) [OF U, of u j] user_treeD [OF unlinkedD(1) [OF U] q(2) _ q(1) unlinkedD(2) [OF U]]
    unlinkedD(5) [OF U] q by auto

lemma tbl_unlink:
  assumes U: "unlinked X m m' r p t i" and q: "upath q"
  shows "tbl X m' r q = (if q = p @ [i] then None else tbl X m r q)"
  using q
proof (induction q rule: rev_induct)
  case (snoc j q)
  have q: "upath q" "q \<noteq> p @ [i]"
    using upath_snocD [OF snoc.prems] unlinkedD(4) [OF U] by auto
  then have IH: "tbl X m' r q = tbl X m r q" using snoc.IH by simp
  show ?case
  proof (cases "tbl X m r q")
    case None
    then show ?thesis using IH unlinkedD(5) [OF U] by (auto simp: tbl_snoc)
  next
    case (Some u)
    then show ?thesis
      using IH unlinked_entry [OF U q(1) Some, of j] unlinkedD(6) [OF U]
      by (cases "q @ [j] = p @ [i]") (auto simp: tbl_snoc)
  qed
qed simp

lemma view_unlink:
  assumes U: "unlinked X m m' r p t i" and q: "upath q" "length q = 4"
  shows "path_view X m' r q = (if q = p @ [i] then None else path_view X m r q)"
proof -
  obtain q' j where qj: "q = q' @ [j]" using q(2) by (cases q rule: rev_cases) auto
  have q': "upath q'" "q' \<noteq> p @ [i]"
    using upath_snocD [of q' j] q qj unlinkedD(4) [OF U] by auto
  then have link: "tbl X m' r q' = tbl X m r q'"
    using tbl_unlink [OF U q'(1)] by simp
  show ?thesis
  proof (cases "tbl X m r q'")
    case None
    then show ?thesis using link qj unlinkedD(5) [OF U] by (auto simp: path_view_snoc)
  next
    case (Some u)
    note mu = unlinked_entry [OF U q'(1) Some, of j]
    show ?thesis
    proof (cases "q = p @ [i]")
      case True
      then show ?thesis
        using link Some mu unlinkedD(6) [OF U] qj by (simp add: path_view_snoc)
    next
      case False
      have "m' (pte_addr X (m u j)) = m (pte_addr X (m u j))" if "present X (m u j)"
      proof (rule unlinkedD(8) [OF U])
        have "tbl X m r q = Some (pte_addr X (m u j))" using that Some qj by (simp add: tbl_snoc)
        then show "pte_addr X (m u j) \<noteq> t"
          using user_treeD [OF unlinkedD(1) [OF U], of q t p] unlinkedD(2,4,5) [OF U] q by auto
      qed
      then show ?thesis using link Some mu False qj by (auto simp: path_view_snoc)
    qed
  qed
qed

lemma unlink_tree:
  assumes U: "unlinked X m m' r p t i" and f: "tbl X m r (p @ [i]) = Some f"
  shows "user_tree X m' r" and "space_frames X m' r = space_frames X m r - {f}"
proof -
  note T = tbl_unlink [OF U] and tree = user_treeD [OF unlinkedD(1) [OF U]]
  show "user_tree X m' r"
    unfolding user_tree_def using T tree by (metis option.distinct(1))
  show "space_frames X m' r = space_frames X m r - {f}"
  proof (rule set_eqI)
    fix x
    have "(\<exists>q. upath q \<and> tbl X m' r q = Some x) \<longleftrightarrow>
        x \<noteq> f \<and> (\<exists>q. upath q \<and> tbl X m r q = Some x)"
      using T f unlinkedD(3) [OF U] tree by (metis option.distinct(1) option.inject)
    then show "x \<in> space_frames X m' r \<longleftrightarrow> x \<in> space_frames X m r - {f}"
      by (auto simp: space_frames_def)
  qed
qed

lemma unlink_no_huge:
  assumes U: "unlinked X m m' r p t i" and nh: "no_huge X m r"
  shows "no_huge X m' r"
  unfolding no_huge_def
proof (intro allI impI, elim conjE)
  fix q j u
  assume q: "upath (q @ [j])" and u: "tbl X m' r q = Some u" and pr: "present X (m' u j)"
  have "tbl X m r q = Some u"
    using u tbl_unlink [OF U] upath_snocD [OF q] by (auto split: if_splits)
  moreover have "m' u j = m u j"
    using pr unlinkedD(6,7) [OF U] by (metis (full_types))
  ultimately show "\<not> contains (pte_flags X (m' u j)) HUGE_PAGE"
    using nh q pr unfolding no_huge_def by auto
qed

end
