(* ===== verification/Walk.thy ===== *)
theory Walk
  imports Space
begin

text \<open>
  What \<open>walk_pagetable\<close> and \<open>translate_addr_inner\<close> do to a well-formed page-table hierarchy,
  for every frame allocator: the locale \<open>paging\<close> joins the crate's entries and the allocator
  trait, as the type parameters of the Rust functions do. \<open>space_ok\<close> is the invariant of one
  address space and \<open>grows\<close> is what a walk that allocates may change: it adds intermediate
  tables, and every page keeps its frame, its flags and its contents.
\<close>

section \<open>The invariant of an address space\<close>

definition space_ok ::
  "x86 \<Rightarrow> ('a \<Rightarrow> u64 set) \<Rightarrow> ('a \<Rightarrow> bool) \<Rightarrow> 'a mem \<Rightarrow> u64 \<Rightarrow> bool" where
  "space_ok X av ok s r \<longleftrightarrow> ok (fa s) \<and> user_tree X (pm s) r \<and> no_huge X (pm s) r \<and>
     space_frames X (pm s) r \<inter> av (fa s) = {} \<and> phys_frame r \<and> phys_offset s \<noteq> None"

text \<open>What every operation on an address space keeps: the invariant, the frames held by the space
  and by the allocator together, all memory outside them, and the kernel half of the PML4.\<close>

definition evolves ::
  "x86 \<Rightarrow> ('a \<Rightarrow> u64 set) \<Rightarrow> ('a \<Rightarrow> bool) \<Rightarrow> u64 \<Rightarrow> 'a mem \<Rightarrow> 'a mem \<Rightarrow> bool" where
  "evolves X av ok r s s' \<longleftrightarrow> space_ok X av ok s' r \<and>
     space_frames X (pm s') r \<union> av (fa s') = space_frames X (pm s) r \<union> av (fa s) \<and>
     (\<forall>f. f \<notin> space_frames X (pm s) r \<union> av (fa s) \<longrightarrow> pm s' f = pm s f) \<and>
     (\<forall>i\<ge>256. pm s' r i = pm s r i)"

lemma evolves_refl: "space_ok X av ok s r \<Longrightarrow> evolves X av ok r s s"
  unfolding evolves_def by blast

lemma evolvesD:
  assumes "evolves X av ok r s s'"
  shows "space_ok X av ok s' r"
    and "space_frames X (pm s') r \<union> av (fa s') = space_frames X (pm s) r \<union> av (fa s)"
    and "f \<notin> space_frames X (pm s) r \<Longrightarrow> f \<notin> av (fa s) \<Longrightarrow> pm s' f = pm s f"
    and "256 \<le> i \<Longrightarrow> pm s' r i = pm s r i"
  using assms unfolding evolves_def by blast+

lemma evolves_trans:
  assumes "evolves X av ok r s t" and "evolves X av ok r t u"
  shows "evolves X av ok r s u"
  unfolding evolves_def
proof (intro conjI allI impI)
  fix f assume "f \<notin> space_frames X (pm s) r \<union> av (fa s)"
  moreover from this have "f \<notin> space_frames X (pm t) r \<union> av (fa t)"
    using evolvesD(2) [OF assms(1)] by simp
  ultimately show "pm u f = pm s f"
    using evolvesD(3) [OF assms(1)] evolvesD(3) [OF assms(2)] by simp
qed (use evolvesD [OF assms(1)] evolvesD [OF assms(2)] in auto)

definition grows ::
  "x86 \<Rightarrow> ('a \<Rightarrow> u64 set) \<Rightarrow> ('a \<Rightarrow> bool) \<Rightarrow> u64 \<Rightarrow> 'a mem \<Rightarrow> 'a mem \<Rightarrow> bool" where
  "grows X av ok r s s' \<longleftrightarrow> evolves X av ok r s s' \<and>
     (\<forall>q. upath q \<and> length q = 4 \<longrightarrow> path_view X (pm s') r q = path_view X (pm s) r q) \<and>
     (\<forall>q t. upath q \<and> tbl X (pm s) r q = Some t \<longrightarrow> tbl X (pm s') r q = Some t) \<and>
     av (fa s') \<subseteq> av (fa s)"

lemma growsD:
  assumes "grows X av ok r s s'"
  shows "space_ok X av ok s' r"
    and "upath q \<Longrightarrow> length q = 4 \<Longrightarrow> path_view X (pm s') r q = path_view X (pm s) r q"
    and "upath q \<Longrightarrow> tbl X (pm s) r q = Some t \<Longrightarrow> tbl X (pm s') r q = Some t"
    and "av (fa s') \<subseteq> av (fa s)"
    and "evolves X av ok r s s'"
  using assms unfolding grows_def evolves_def by blast+

lemma grows_refl: "space_ok X av ok s r \<Longrightarrow> grows X av ok r s s"
  unfolding grows_def evolves_def by blast

lemma grows_trans:
  assumes "grows X av ok r s t" and "grows X av ok r t u"
  shows "grows X av ok r s u"
  unfolding grows_def
proof (intro conjI allI impI)
  show "evolves X av ok r s u"
    using growsD(5) [OF assms(1)] growsD(5) [OF assms(2)] by (rule evolves_trans)
qed (use growsD [OF assms(1)] growsD [OF assms(2)] in auto)

lemma grows_page_view:
  "grows X av ok r s s' \<Longrightarrow> k < 2 ^ 35 \<Longrightarrow> page_view X (pm s') r k = page_view X (pm s) r k"
  unfolding page_view_def by (intro growsD(2) upath_page) (simp_all add: page_path_def)

locale paging = paging_crate X + frame_source al dl av ok
  for X :: x86 and al :: "'a \<Rightarrow> u64 option \<times> 'a" and dl :: "u64 \<Rightarrow> 'a \<Rightarrow> 'a"
    and av :: "'a \<Rightarrow> u64 set" and ok :: "'a \<Rightarrow> bool"
begin

lemma not_present_0 [simp]: "\<not> present X 0"
  by (simp add: present_def contains_def flags_unused PRESENT_def)

lemma table_entry:
  assumes "phys_frame f"
  obtains e where "pte_set_frame X f table_flags = Some e" and "pte_addr X e = f"
    and "present X e" and "\<not> contains (pte_flags X e) HUGE_PAGE"
proof -
  have "flag_word table_flags"
    by (simp add: flag_word_def addr_mask_def table_flags_def flag_defs contains_def mask_eq_exp_minus_1)
  from set_frame_ok [OF assms this] obtain e where
    "pte_set_frame X f table_flags = Some e" "pte_flags X e = table_flags" "pte_addr X e = f"
    by blast
  then show ?thesis
    using that by (simp add: present_def table_flags_def flag_defs contains_def)
qed

text \<open>Linking an entry for a frame just taken from the allocator keeps the invariant.\<close>

lemma space_ok_linked:
  assumes ok: "space_ok X av ok s r" and al: "al (fa s) = (Some f, fa s')"
    and po: "phys_offset s' = phys_offset s"
    and L: "linked X (pm s) (pm s') r p t i e" and e: "pte_addr X e = f"
    and nh: "\<not> contains (pte_flags X e) HUGE_PAGE"
    and leaf: "length p = 3 \<or> (\<forall>j. \<not> present X (pm s' f j))"
  shows "space_ok X av ok s' r"
    and "space_frames X (pm s') r \<union> av (fa s') = space_frames X (pm s) r \<union> av (fa s)"
proof -
  note a = alloc_Some [OF _ al]
  note o' = ok [unfolded space_ok_def]
  have sf: "space_frames X (pm s') r = insert f (space_frames X (pm s) r)"
    using linked_tree(2) [OF L] e by simp
  show "space_frames X (pm s') r \<union> av (fa s') = space_frames X (pm s) r \<union> av (fa s)"
    using a o' sf by auto
  show "space_ok X av ok s' r"
    unfolding space_ok_def
    using a o' po sf linked_tree(1) [OF L] linked_no_huge [OF L _ nh] leaf e by auto
qed

lemma next_table_hit:
  assumes "tbl X (pm s) r (p @ [i]) = Some u" and "tbl X (pm s) r p = Some t"
  shows "next_table X al alloc t i s = (Ok (Some u), s)"
  using assms by (auto simp: next_table_def tbl_snoc split: if_splits)

lemma next_table_grows:
  assumes ok: "space_ok X av ok s r" and t: "tbl X (pm s) r p = Some t"
    and up: "upath (p @ [i])" "length p < 3"
    and run: "next_table X al True t i s = (res, s')"
  shows "(\<exists>u. res = Ok (Some u) \<and> tbl X (pm s') r (p @ [i]) = Some u \<and> grows X av ok r s s') \<or>
    (res = Ok None \<and> av (fa s) = {} \<and> grows X av ok r s s')"
proof (cases "present X (pm s t i)")
  case True
  then show ?thesis
    using run t grows_refl [OF ok] by (auto simp: next_table_def tbl_snoc)
next
  case miss: False
  note o' = ok [unfolded space_ok_def]
  obtain x a where al: "al (fa s) = (x, a)" by fastforce
  show ?thesis
  proof (cases x)
    case None
    then have s': "res = Ok None" "s' = s\<lparr>fa := a\<rparr>"
      using run miss al by (simp_all add: next_table_def)
    have "av (fa s) = {} \<and> av a = {} \<and> ok a"
      using alloc_None al None o' by blast
    then show ?thesis
      using s' o' by (auto simp: grows_def evolves_def space_ok_def)
  next
    case (Some f)
    have f: "f \<in> av (fa s)" "phys_frame f"
      using alloc_Some [of "fa s" f a] avail_phys al Some o' by auto
    then have f_new: "f \<notin> space_frames X (pm s) r" using o' by blast
    from table_entry [OF f(2)] obtain e where e: "pte_set_frame X f table_flags = Some e"
        "pte_addr X e = f" "present X e" "\<not> contains (pte_flags X e) HUGE_PAGE" .
    have s': "res = Ok (Some f)" "s' = set_entry t i e (zero_frame f (s\<lparr>fa := a\<rparr>))"
      using run miss al Some e by (simp_all add: next_table_def Let_def)
    have tf: "t \<noteq> f"
      using f_new space_framesI [OF _ t] upath_snocD [OF up(1)] by blast
    have fa: "fa s' = a" "phys_offset s' = phys_offset s" and z: "\<And>j. pm s' f j = 0"
      using s' tf by (simp_all add: set_entry_def zero_frame_def)
    have L: "linked X (pm s) (pm s') r p t i e"
      unfolding linked_def
      using o' up t miss e f_new s' tf
      by (auto simp: set_entry_def zero_frame_def)
    have "space_ok X av ok s' r"
        and "space_frames X (pm s') r \<union> av (fa s') = space_frames X (pm s) r \<union> av (fa s)"
      using space_ok_linked [OF ok _ fa(2) L e(2,4)] al Some fa z by simp_all
    moreover have "path_view X (pm s') r q = path_view X (pm s) r q"
      if "upath q" "length q = 4" for q
      using linked_view [OF L that] that up by auto
    moreover have "tbl X (pm s') r q = Some u" if "upath q" "tbl X (pm s) r q = Some u" for q u
      using tbl_link [OF L that(1)] that miss t by (auto simp: tbl_snoc)
    moreover have "av a \<subseteq> av (fa s)" using alloc_Some [of "fa s" f a] al Some o' by auto
    moreover have "pm s' g = pm s g" if "g \<notin> space_frames X (pm s) r \<union> av (fa s)" for g
      using that s' f space_framesI [OF _ t] upath_snocD [OF up(1)]
      by (auto simp: set_entry_def zero_frame_def)
    moreover have "tbl X (pm s') r (p @ [i]) = Some f"
      using tbl_link [OF L up(1)] e by simp
    moreover have "pm s' r j = pm s r j" if "256 \<le> j" for j
    proof -
      have "(r, j) \<noteq> (t, i)" using upper_entry [OF _ up(1) t that] o' by blast
      moreover have "r \<noteq> f" using space_framesI [of "[]"] f_new by auto
      ultimately show ?thesis using s' by (auto simp: set_entry_def zero_frame_def)
    qed
    ultimately show ?thesis
      using s' fa unfolding grows_def evolves_def by auto
  qed
qed

text \<open>Without \<open>alloc\<close> the walk reads the tables and changes nothing.\<close>

lemma walk_find:
  "walk_pagetable X al r va False s =
     (Ok (map_option (\<lambda>t. (t, pt_index va)) (tbl X (pm s) r (table_path va))), s)"
  by (simp add: walk_pagetable_def next_table_def bind_def table_path_def)

text \<open>With \<open>alloc\<close> it ends at the page's table, or the allocator has run dry; either way only
  intermediate tables were added.\<close>

lemma walk_alloc:
  assumes ok: "space_ok X av ok s r" and va: "user_va va"
    and run: "walk_pagetable X al r va True s = (res, s')"
  shows "grows X av ok r s s' \<and>
    ((\<exists>t. res = Ok (Some (t, pt_index va)) \<and> tbl X (pm s') r (table_path va) = Some t) \<or>
     (res = Ok None \<and> av (fa s') = {}))"
proof -
  let ?a = "pml4_index va" and ?b = "pdpt_index va" and ?c = "pd_index va"
  have up3: "upath [?a, ?b, ?c]" and up2: "upath [?a, ?b]" and up1: "upath [?a]"
    using upath_va [OF va] by (auto simp: upath_def va_path_def)
  obtain r1 s1 where n1: "next_table X al True r ?a s = (r1, s1)" by fastforce
  have A: "(\<exists>u. r1 = Ok (Some u) \<and> tbl X (pm s1) r [?a] = Some u \<and> grows X av ok r s s1) \<or>
      (r1 = Ok None \<and> av (fa s) = {} \<and> grows X av ok r s s1)"
    using next_table_grows [OF ok _ _ _ n1, of "[]"] up1 by simp
  show ?thesis
  proof (cases "r1 = Ok None")
    case True
    then show ?thesis using A run n1 growsD(4) by (fastforce simp: walk_pagetable_def)
  next
    case False
    with A obtain u1 where r1: "r1 = Ok (Some u1)" and u1: "tbl X (pm s1) r [?a] = Some u1"
      and g1: "grows X av ok r s s1" by blast
    obtain r2 s2 where n2: "next_table X al True u1 ?b s1 = (r2, s2)" by fastforce
    have B: "(\<exists>u. r2 = Ok (Some u) \<and> tbl X (pm s2) r [?a, ?b] = Some u \<and> grows X av ok r s1 s2) \<or>
        (r2 = Ok None \<and> av (fa s1) = {} \<and> grows X av ok r s1 s2)"
      using next_table_grows [OF growsD(1) [OF g1] u1 _ _ n2] up2 by simp
    show ?thesis
    proof (cases "r2 = Ok None")
      case True
      then show ?thesis
        using B run n1 n2 r1 grows_trans [OF g1] growsD(4) by (fastforce simp: walk_pagetable_def)
    next
      case False
      with B obtain u2 where r2: "r2 = Ok (Some u2)" and u2: "tbl X (pm s2) r [?a, ?b] = Some u2"
        and g2: "grows X av ok r s s2" using grows_trans [OF g1] by blast
      obtain r3 s3 where n3: "next_table X al True u2 ?c s2 = (r3, s3)" by fastforce
      have C: "(\<exists>u. r3 = Ok (Some u) \<and> tbl X (pm s3) r [?a, ?b, ?c] = Some u \<and> grows X av ok r s2 s3) \<or>
          (r3 = Ok None \<and> av (fa s2) = {} \<and> grows X av ok r s2 s3)"
        using next_table_grows [OF growsD(1) [OF g2] u2 _ _ n3] up3 by simp
      then show ?thesis
        using run n1 n2 n3 r1 r2 grows_trans [OF g2] growsD(4)
        by (fastforce simp: walk_pagetable_def table_path_def)
    qed
  qed
qed

text \<open>The two readers of the tables agree: where \<open>walk_pagetable\<close> finds a present entry of a
  user page, \<open>translate_addr_inner\<close> returns the page's frame plus the offset in it, and where
  it finds none, \<open>None\<close>.\<close>

lemma translate_levels_tbl:
  assumes "no_huge X m r" and "upath (p @ is)" and "tbl X m r p = Some t"
  shows "translate_levels X m t is = Ok (tbl X m r (p @ is))"
  using assms(2,3)
proof (induction "is" arbitrary: p t)
  case Nil
  then show ?case by simp
next
  case (Cons i "is")
  have up: "upath (p @ [i])"
    using Cons.prems(1) by (cases p) (auto simp: upath_def)
  show ?case
  proof (cases "present X (m t i)")
    case True
    have "\<not> contains (pte_flags X (m t i)) HUGE_PAGE"
      using assms(1) up Cons.prems(2) True unfolding no_huge_def by blast
    then have "pte_frame X (m t i) = Inr (pte_addr X (m t i))"
      using True frame_ok by (simp add: present_def)
    then show ?thesis
      using Cons.IH [of "p @ [i]" "pte_addr X (m t i)"] Cons.prems True by (simp add: tbl_snoc)
  next
    case False
    then have "tbl X m r (p @ [i]) = None"
      using Cons.prems(2) by (simp add: tbl_snoc)
    then have "tbl X m r (p @ i # is) = None"
      by (induction "is" rule: rev_induct) (simp_all add: tbl_snoc flip: append_assoc append_Cons)
    then show ?thesis
      using False frame_not_present by (simp add: present_def)
  qed
qed

lemma translate_walk:
  assumes "space_ok X av ok s r" and "user_va va"
  shows "translate_addr_inner X (pm s) r va =
    Ok (map_option (\<lambda>f. f + of_nat (page_offset va)) (tbl X (pm s) r (va_path va)))"
  using translate_levels_tbl [of "pm s" r "[]" "va_path va" r] assms upath_va [OF assms(2)]
  by (auto simp: translate_addr_inner_def space_ok_def va_path_def split: option.splits)

end

end
