(* ===== verification/Uvm.thy ===== *)
theory Uvm
  imports Walk
begin

text \<open>
  User address spaces: kernel/src/memory/umem.rs and \<open>setup_kvm\<close> of memory/kmem.rs.
  \<open>alloc_uvm\<close> and \<open>dealloc_uvm\<close> grow and shrink the heap page by page, \<open>free_uvm\<close> returns a whole
  hierarchy to the frame allocator, \<open>copy_uvm\<close> duplicates one for \<open>fork\<close>, \<open>new_uvm\<close> makes an
  empty one that shares the kernel half of the current one. As in the Rust functions, which are
  generic in the allocator, its operations are arguments (\<open>al\<close>, \<open>dl\<close>).

  The lemmas are stated over \<open>page_view\<close>: which frame, flags and contents each page number of
  the user half has.
\<close>

section \<open>Small pieces\<close>

definition PAGE_SIZE :: u64 where "PAGE_SIZE = 4096"

definition USER_CODE_START :: u64 where "USER_CODE_START = 0x100000000000"
definition USER_STACK_TOP :: u64 where "USER_STACK_TOP = 0x200000000000"

definition user_flags :: u64 where
  "user_flags = PRESENT OR WRITABLE OR USER_ACCESSIBLE"

definition checked_shl :: "u64 \<Rightarrow> nat \<Rightarrow> u64 option" where
  "checked_shl a n = (if n < 64 then Some (push_bit n a) else None)"

definition page_round_up :: "u64 \<Rightarrow> ('s, u64) program" where
  "page_round_up v = ok_or ''alloc_uvm: size overflow''
     (map_option (\<lambda>w. w AND NOT (PAGE_SIZE - 1)) (checked_add v (PAGE_SIZE - 1)))"

definition virt_new :: "x86 \<Rightarrow> u64 \<Rightarrow> ('s, u64) program" where
  "virt_new X a = (if virt_ok X a then ret a else panic ''VirtAddr::new: not canonical'')"

definition offset_set :: "('a mem, u64) program" where
  "offset_set = (\<lambda>s. expect ''physical memory offset not initialized'' (phys_offset s) s)"

definition frame_from_entry :: "x86 \<Rightarrow> u64 \<Rightarrow> ('s, u64) program" where
  "frame_from_entry X e = (case pte_frame X e of
       Inr f \<Rightarrow> ret f
     | Inl HugeFrame \<Rightarrow> throw ''huge pages not supported''
     | Inl FrameNotPresent \<Rightarrow> throw ''page table entry not present'')"

text \<open>\<open>Page::range_inclusive\<close>, a page being its address; empty when the first is above the last.\<close>

definition pages_between :: "u64 \<Rightarrow> u64 \<Rightarrow> u64 list" where
  "pages_between a b = (if b < a then [] else
     map (\<lambda>k. a + of_nat (4096 * k)) [0..<(unat b - unat a) div 4096 + 1])"

definition take_frame :: "('a \<Rightarrow> u64 option \<times> 'a) \<Rightarrow> string \<Rightarrow> ('a mem, u64) program" where
  "take_frame al msg = (\<lambda>s. case al (fa s) of (f, a) \<Rightarrow> ok_or msg f (s\<lparr>fa := a\<rparr>))"

definition give_frame :: "(u64 \<Rightarrow> 'a \<Rightarrow> 'a) \<Rightarrow> u64 \<Rightarrow> ('a mem, unit) program" where
  "give_frame dl f = modify (\<lambda>s. s\<lparr>fa := dl f (fa s)\<rparr>)"

definition store_frame :: "x86 \<Rightarrow> u64 \<Rightarrow> nat \<Rightarrow> u64 \<Rightarrow> u64 \<Rightarrow> ('a mem, unit) program" where
  "store_frame X t i f fl = (case pte_set_frame X f fl of
       None \<Rightarrow> panic ''set_frame: assertion failed''
     | Some e \<Rightarrow> modify (set_entry t i e))"

section \<open>Shrinking and rolling back\<close>

text \<open>The body that the loops of \<open>dealloc_uvm\<close> and \<open>rollback_alloc_uvm\<close> share.\<close>

definition unmap_page ::
  "x86 \<Rightarrow> ('a \<Rightarrow> u64 option \<times> 'a) \<Rightarrow> (u64 \<Rightarrow> 'a \<Rightarrow> 'a) \<Rightarrow> u64 \<Rightarrow> u64 \<Rightarrow> ('a mem, unit) program" where
  "unmap_page X al dl pml4 addr =
     bind (virt_new X addr) (\<lambda>va.
     bind (walk_pagetable X al pml4 va False) (\<lambda>pte. case pte of
       None \<Rightarrow> ret ()
     | Some (t, i) \<Rightarrow> bind (gets (\<lambda>s. pm s t i)) (\<lambda>e.
         if present X e
         then bind (frame_from_entry X e) (\<lambda>f. bind (give_frame dl f) (\<lambda>_. modify (set_entry t i 0)))
         else ret ())))"

text \<open>The loop \<open>while addr < end\<close>; \<open>msg\<close> is the error of its own address overflow.\<close>

function unmap_range ::
  "x86 \<Rightarrow> ('a \<Rightarrow> u64 option \<times> 'a) \<Rightarrow> (u64 \<Rightarrow> 'a \<Rightarrow> 'a) \<Rightarrow> string \<Rightarrow> u64 \<Rightarrow> u64 \<Rightarrow> u64 \<Rightarrow> ('a mem, unit) program"
where
  "unmap_range X al dl msg pml4 addr stop s =
     (if addr < stop then
        (case bind (unmap_page X al dl pml4 addr) (\<lambda>_. ok_or msg (checked_add addr PAGE_SIZE)) s of
           (Ok a, t) \<Rightarrow> if addr < a then unmap_range X al dl msg pml4 a stop t else (Ok (), t)
         | (Err e, t) \<Rightarrow> (Err e, t)
         | (Panic e, t) \<Rightarrow> (Panic e, t))
      else (Ok (), s))"
  by pat_completeness auto
termination
  by (relation "measure (\<lambda>(X, al, dl, msg, pml4, addr, stop, s). unat stop - unat addr)")
    (auto simp: word_less_nat_alt)

declare unmap_range.simps [simp del]

definition rollback_alloc_uvm ::
  "x86 \<Rightarrow> ('a \<Rightarrow> u64 option \<times> 'a) \<Rightarrow> (u64 \<Rightarrow> 'a \<Rightarrow> 'a) \<Rightarrow> u64 \<Rightarrow> u64 \<Rightarrow> u64 \<Rightarrow> ('a mem, unit) program" where
  "rollback_alloc_uvm X al dl pml4 start stop =
     bind offset_set (\<lambda>_. unmap_range X al dl ''alloc_uvm: rollback address overflow'' pml4 start stop)"

definition dealloc_uvm ::
  "x86 \<Rightarrow> ('a \<Rightarrow> u64 option \<times> 'a) \<Rightarrow> (u64 \<Rightarrow> 'a \<Rightarrow> 'a) \<Rightarrow> u64 \<Rightarrow> u64 \<Rightarrow> u64 \<Rightarrow> ('a mem, u64) program" where
  "dealloc_uvm X al dl pml4 oldsz newsz =
     (if oldsz \<le> newsz then ret oldsz
      else bind offset_set (\<lambda>_.
           bind (page_round_up newsz) (\<lambda>addr.
           bind (unmap_range X al dl ''dealloc_uvm: address overflow'' pml4 addr oldsz) (\<lambda>_.
           ret newsz))))"

section \<open>Growing\<close>

text \<open>An error inside the loop of \<open>alloc_uvm\<close>: the pages mapped so far are taken back, then the
  error is returned.\<close>

definition alloc_fail ::
  "x86 \<Rightarrow> ('a \<Rightarrow> u64 option \<times> 'a) \<Rightarrow> (u64 \<Rightarrow> 'a \<Rightarrow> 'a) \<Rightarrow> u64 \<Rightarrow> u64 \<Rightarrow> u64 \<Rightarrow> string \<Rightarrow> ('a mem, 'b) program"
where
  "alloc_fail X al dl pml4 oldsz addr msg =
     bind (page_round_up oldsz) (\<lambda>start.
     bind (rollback_alloc_uvm X al dl pml4 start addr) (\<lambda>_. throw msg))"

text \<open>The body of the loop of \<open>alloc_uvm\<close>, with the address of the next page as its result.\<close>

definition alloc_page ::
  "x86 \<Rightarrow> ('a \<Rightarrow> u64 option \<times> 'a) \<Rightarrow> (u64 \<Rightarrow> 'a \<Rightarrow> 'a) \<Rightarrow> u64 \<Rightarrow> u64 \<Rightarrow> u64 \<Rightarrow> ('a mem, u64) program"
where
  "alloc_page X al dl pml4 oldsz addr = (\<lambda>s. case al (fa s) of
       (None, a) \<Rightarrow> alloc_fail X al dl pml4 oldsz addr ''alloc_uvm: frame alloc failed'' (s\<lparr>fa := a\<rparr>)
     | (Some frame, a) \<Rightarrow>
         bind (modify (zero_frame frame)) (\<lambda>_.
         bind (virt_new X addr) (\<lambda>va.
         bind (walk_pagetable X al pml4 va True) (\<lambda>pte. case pte of
           None \<Rightarrow> bind (give_frame dl frame) (\<lambda>_.
             alloc_fail X al dl pml4 oldsz addr ''alloc_uvm: page table alloc failed'')
         | Some (t, i) \<Rightarrow> bind (gets (\<lambda>s. pm s t i)) (\<lambda>e.
             if present X e
             then bind (give_frame dl frame) (\<lambda>_.
               alloc_fail X al dl pml4 oldsz addr ''alloc_uvm: page is already mapped'')
             else bind (store_frame X t i frame user_flags) (\<lambda>_.
               ok_or ''alloc_uvm: address overflow'' (checked_add addr PAGE_SIZE))))))
           (s\<lparr>fa := a\<rparr>))"

function alloc_loop ::
  "x86 \<Rightarrow> ('a \<Rightarrow> u64 option \<times> 'a) \<Rightarrow> (u64 \<Rightarrow> 'a \<Rightarrow> 'a) \<Rightarrow> u64 \<Rightarrow> u64 \<Rightarrow> u64 \<Rightarrow> u64 \<Rightarrow> ('a mem, u64) program"
where
  "alloc_loop X al dl pml4 oldsz newsz addr s =
     (if addr < newsz then
        (case alloc_page X al dl pml4 oldsz addr s of
           (Ok a, t) \<Rightarrow> if addr < a then alloc_loop X al dl pml4 oldsz newsz a t else (Ok newsz, t)
         | (Err e, t) \<Rightarrow> (Err e, t)
         | (Panic e, t) \<Rightarrow> (Panic e, t))
      else (Ok newsz, s))"
  by pat_completeness auto
termination
  by (relation "measure (\<lambda>(X, al, dl, pml4, oldsz, newsz, addr, s). unat newsz - unat addr)")
    (auto simp: word_less_nat_alt)

declare alloc_loop.simps [simp del]

definition alloc_uvm ::
  "x86 \<Rightarrow> ('a \<Rightarrow> u64 option \<times> 'a) \<Rightarrow> (u64 \<Rightarrow> 'a \<Rightarrow> 'a) \<Rightarrow> u64 \<Rightarrow> u64 \<Rightarrow> u64 \<Rightarrow> ('a mem, u64) program" where
  "alloc_uvm X al dl pml4 oldsz newsz =
     bind (ok_or ''alloc_uvm: user space limit overflow'' (checked_shl 256 39)) (\<lambda>user_space_top.
     if user_space_top \<le> newsz then throw ''alloc_uvm: newsz is outside user space''
     else if newsz < oldsz then ret oldsz
     else bind offset_set (\<lambda>_.
          bind (page_round_up oldsz) (\<lambda>addr.
          alloc_loop X al dl pml4 oldsz newsz addr)))"

section \<open>Freeing a hierarchy\<close>

text \<open>The four nested loops of \<open>free_uvm\<close> have the same body: a present entry's frame is freed
  after everything below it, and its entry cleared. \<open>lv\<close> counts the table levels below.\<close>

definition free_entry ::
  "x86 \<Rightarrow> (u64 \<Rightarrow> 'a \<Rightarrow> 'a) \<Rightarrow> (u64 \<Rightarrow> ('a mem, unit) program) \<Rightarrow> u64 \<Rightarrow> nat \<Rightarrow> ('a mem, unit) program" where
  "free_entry X dl inner t i =
     bind (gets (\<lambda>s. pm s t i)) (\<lambda>e.
       if \<not> present X e then ret ()
       else bind (frame_from_entry X e) (\<lambda>f.
            bind (inner f) (\<lambda>_.
            bind (give_frame dl f) (\<lambda>_. modify (set_entry t i 0)))))"

primrec free_entries ::
  "x86 \<Rightarrow> (u64 \<Rightarrow> 'a \<Rightarrow> 'a) \<Rightarrow> nat \<Rightarrow> u64 \<Rightarrow> nat list \<Rightarrow> ('a mem, unit) program" where
  "free_entries X dl 0 t is = foreach is (free_entry X dl (\<lambda>_. ret ()) t)"
| "free_entries X dl (Suc lv) t is =
     foreach is (free_entry X dl (\<lambda>u. free_entries X dl lv u [0..<512]) t)"

definition free_uvm :: "x86 \<Rightarrow> (u64 \<Rightarrow> 'a \<Rightarrow> 'a) \<Rightarrow> u64 \<Rightarrow> ('a mem, unit) program" where
  "free_uvm X dl pml4 =
     bind offset_set (\<lambda>_.
     bind (free_entries X dl 3 pml4 [0..<256]) (\<lambda>_. give_frame dl pml4))"

section \<open>Making and copying a hierarchy\<close>

text \<open>\<open>setup_kvm\<close>: a new PML4 whose upper half is that of the table in \<open>CR3\<close>.\<close>

definition setup_kvm :: "('a \<Rightarrow> u64 option \<times> 'a) \<Rightarrow> u64 \<Rightarrow> ('a mem, u64) program" where
  "setup_kvm al cr3 =
     bind (take_frame al ''allocating frame failed'') (\<lambda>new.
     bind (modify (zero_frame new)) (\<lambda>_.
     bind (foreach [256..<512] (\<lambda>i. modify (\<lambda>s. set_entry new i (pm s cr3 i) s))) (\<lambda>_.
     ret new)))"

definition new_uvm :: "('a \<Rightarrow> u64 option \<times> 'a) \<Rightarrow> u64 \<Rightarrow> ('a mem, u64) program" where
  "new_uvm al cr3 =
     bind offset_set (\<lambda>_.
     bind (setup_kvm al cr3) (\<lambda>new.
     bind (modify (set_entry new (unat (drop_bit 39 USER_CODE_START AND mask 9)) 0)) (\<lambda>_.
     bind (modify (set_entry new (unat (drop_bit 39 USER_STACK_TOP AND mask 9)) 0)) (\<lambda>_.
     ret new))))"

text \<open>The loops of \<open>copy_uvm\<close>: at the three upper levels a table is allocated for the child and
  the loop continues inside it, at the last level the page is copied.\<close>

definition copy_table ::
  "x86 \<Rightarrow> ('a \<Rightarrow> u64 option \<times> 'a) \<Rightarrow> string \<Rightarrow> (u64 \<Rightarrow> u64 \<Rightarrow> ('a mem, unit) program) \<Rightarrow>
   u64 \<Rightarrow> u64 \<Rightarrow> nat \<Rightarrow> ('a mem, unit) program" where
  "copy_table X al msg inner parent child i =
     bind (gets (\<lambda>s. pm s parent i)) (\<lambda>e.
       if \<not> present X e then ret ()
       else bind (take_frame al msg) (\<lambda>f.
            bind (modify (zero_frame f)) (\<lambda>_.
            bind (store_frame X child i f (pte_flags X e)) (\<lambda>_.
            bind (gets (\<lambda>s. pm s parent i)) (\<lambda>e'. inner (pte_addr X e') f)))))"

definition copy_page ::
  "x86 \<Rightarrow> ('a \<Rightarrow> u64 option \<times> 'a) \<Rightarrow> u64 \<Rightarrow> u64 \<Rightarrow> nat \<Rightarrow> ('a mem, unit) program" where
  "copy_page X al parent child i =
     bind (gets (\<lambda>s. pm s parent i)) (\<lambda>e.
       if \<not> present X e then ret ()
       else bind (take_frame al ''copy_uvm: failed to allocate data frame'') (\<lambda>f.
            bind (modify (\<lambda>s. s\<lparr>pm := (pm s)(f := pm s (pte_addr X e))\<rparr>)) (\<lambda>_.
            store_frame X child i f (pte_flags X e))))"

definition copy_msg :: "nat \<Rightarrow> string" where
  "copy_msg lv = (if lv = 2 then ''copy_uvm: failed to allocate PDPT frame''
                  else if lv = 1 then ''copy_uvm: failed to allocate PD frame''
                  else ''copy_uvm: failed to allocate PT frame'')"

primrec copy_entries ::
  "x86 \<Rightarrow> ('a \<Rightarrow> u64 option \<times> 'a) \<Rightarrow> nat \<Rightarrow> u64 \<Rightarrow> u64 \<Rightarrow> nat list \<Rightarrow> ('a mem, unit) program" where
  "copy_entries X al 0 parent child is = foreach is (copy_page X al parent child)"
| "copy_entries X al (Suc lv) parent child is =
     foreach is (copy_table X al (copy_msg lv) (\<lambda>p c. copy_entries X al lv p c [0..<512]) parent child)"

definition copy_uvm ::
  "x86 \<Rightarrow> ('a \<Rightarrow> u64 option \<times> 'a) \<Rightarrow> u64 \<Rightarrow> u64 \<Rightarrow> ('a mem, u64) program" where
  "copy_uvm X al cr3 parent =
     bind offset_set (\<lambda>_.
     bind (new_uvm al cr3) (\<lambda>child.
     bind (copy_entries X al 3 parent child [0..<256]) (\<lambda>_. ret child)))"

end
