(* ===== verification/Kernel.thy ===== *)
theory Kernel
  imports Uvm
begin

text \<open>
  The kernel's state and the operations its parts share: kernel/src/thread/mod.rs,
  thread/trapframe.rs, thread/kthread.rs, scheduler/context.rs, cpu.rs, the structures of
  thread/uprocess/mod.rs, \<open>setup_kstack\<close> and the page-table switches of memory/kmem.rs and
  memory/umem.rs, abi/src/lib.rs.

  The statics of the kernel (\<open>THREAD_TABLE\<close>, \<open>PROCESS_TABLE\<close>, \<open>CPU\<close>, \<open>FRAME_ALLOCATOR\<close>,
  \<open>KERNEL_PAGE_TABLE_FRAME\<close>, \<open>TICKS\<close>, \<open>SCHEDULER_STARTED\<close>) and the machine state its code
  touches (registers, \<open>CR3\<close>, \<open>TSS.rsp0\<close>, the interrupt flag, which \<open>GS\<close> base is active, the words of the kernel stacks) are
  the record \<open>kernel\<close>. There is one CPU and the kernel takes its locks with interrupts off, so a
  lock is not part of the state. What is not in the repository is the record \<open>env\<close>, the
  argument \<open>E\<close>: the crate's page-table entries, the kernel-stack allocation of the global
  allocator, the processor's address translation, link-time addresses, the program images the
  build generates, and whether the build checks arithmetic overflow.
\<close>

section \<open>Constants\<close>

definition NTHREAD :: nat where "NTHREAD = 64"
definition NPROCESS :: nat where "NPROCESS = 16"
definition NTHREAD_PER_PROCESS :: nat where "NTHREAD_PER_PROCESS = 8"

definition STACK_SIZE :: u64 where "STACK_SIZE = 4096 * 8"

text \<open>\<open>size_of::<TrapFrame>()\<close>: fourteen 64-bit registers.\<close>

definition TRAPFRAME_SIZE :: u64 where "TRAPFRAME_SIZE = 112"

definition RET_SUCCESS :: i64 where "RET_SUCCESS = 0"
definition RET_ERROR :: i64 where "RET_ERROR = -1"
definition SYSRET_MAX :: i64 where "SYSRET_MAX = 0x7FFFFFFFFFFFFFFF"

section \<open>Contexts and trap frames\<close>

text \<open>The registers that \<open>switch_context\<close> saves and restores; a \<open>Context\<close> has six more fields.\<close>

record regs =
  r15 :: u64
  r14 :: u64
  r13 :: u64
  r12 :: u64
  rbx :: u64
  rbp :: u64
  rsp :: u64
  rip :: u64
  rflags :: u64

record Context = regs +
  cs :: u64
  ss :: u64
  rsp3 :: u64
  user_rip :: u64
  user_rdi :: u64
  user_rsi :: u64

definition new_context :: Context where
  "new_context = \<lparr>r15 = 0, r14 = 0, r13 = 0, r12 = 0, rbx = 0, rbp = 0, rsp = 0, rip = 0, rflags = 0,
     cs = 0, ss = 0, rsp3 = 0, user_rip = 0, user_rdi = 0, user_rsi = 0\<rparr>"

record trap_frame =
  tf_r15 :: u64
  tf_r14 :: u64
  tf_r13 :: u64
  tf_r12 :: u64
  tf_rbp :: u64
  tf_rbx :: u64
  tf_rdx :: u64
  tf_rsi :: u64
  tf_rdi :: u64
  tf_rax :: u64
  tf_r11 :: u64
  tf_rcx :: u64
  tf_rip :: u64
  tf_rsp :: u64

definition new_trap_frame :: trap_frame where
  "new_trap_frame = \<lparr>tf_r15 = 0, tf_r14 = 0, tf_r13 = 0, tf_r12 = 0, tf_rbp = 0, tf_rbx = 0,
     tf_rdx = 0, tf_rsi = 0, tf_rdi = 0, tf_rax = 0, tf_r11 = 0, tf_rcx = 0, tf_rip = 0, tf_rsp = 0\<rparr>"

text \<open>A trap frame lies in the kernel stack, fourteen words from its address upwards; two frames
  whose addresses are less than 112 apart share words. The memory is a function from the address
  of a word to the word.\<close>

type_synonym kmemory = "u64 \<Rightarrow> u64"

definition tf_load :: "kmemory \<Rightarrow> u64 \<Rightarrow> trap_frame" where
  "tf_load m p = \<lparr>tf_r15 = m p, tf_r14 = m (p + 8), tf_r13 = m (p + 16), tf_r12 = m (p + 24),
     tf_rbp = m (p + 32), tf_rbx = m (p + 40), tf_rdx = m (p + 48), tf_rsi = m (p + 56),
     tf_rdi = m (p + 64), tf_rax = m (p + 72), tf_r11 = m (p + 80), tf_rcx = m (p + 88),
     tf_rip = m (p + 96), tf_rsp = m (p + 104)\<rparr>"

definition tf_store :: "u64 \<Rightarrow> trap_frame \<Rightarrow> kmemory \<Rightarrow> kmemory" where
  "tf_store p f m = m(p := tf_r15 f, p + 8 := tf_r14 f, p + 16 := tf_r13 f, p + 24 := tf_r12 f,
     p + 32 := tf_rbp f, p + 40 := tf_rbx f, p + 48 := tf_rdx f, p + 56 := tf_rsi f,
     p + 64 := tf_rdi f, p + 72 := tf_rax f, p + 80 := tf_r11 f, p + 88 := tf_rcx f,
     p + 96 := tf_rip f, p + 104 := tf_rsp f)"

lemma tf_load_store: "tf_load (tf_store p f m) p = f"
  by (simp add: tf_load_def tf_store_def)

section \<open>Threads, processes, the CPU\<close>

datatype thread_state = Unused | Embryo | Sleeping | Runnable | Running | Zombie

text \<open>\<open>entry\<close> is the address of the function that a kernel thread runs.\<close>

record thread =
  tid :: nat
  t_pid :: "nat option"
  state :: thread_state
  ctx :: Context
  kstack :: u64
  tf :: "u64 option"
  entry :: "u64 option"

definition new_thread :: thread where
  "new_thread = \<lparr>tid = 0, t_pid = None, state = Unused, ctx = new_context, kstack = 0,
     tf = None, entry = None\<rparr>"

datatype process_state = PUnused | Alive | PZombie

record process =
  pid :: nat
  ppid :: "nat option"
  p_state :: process_state
  threads :: "nat option list"
  nthread :: nat
  page_table :: "u64 option"
  exit_status :: i64
  killed :: bool
  heap_size :: u64

definition new_process :: process where
  "new_process = \<lparr>pid = 0, ppid = None, p_state = PUnused, threads = replicate NTHREAD_PER_PROCESS None,
     nthread = 0, page_table = None, exit_status = RET_SUCCESS, killed = False, heap_size = 0\<rparr>"

record cpu =
  cpu_id :: nat
  scheduler :: Context
  current_tid :: "nat option"
  saved_user_rsp :: u64
  kernel_syscall_rsp :: u64

definition new_cpu :: "nat \<Rightarrow> cpu" where
  "new_cpu i = \<lparr>cpu_id = i, scheduler = new_context, current_tid = None, saved_user_rsp = 0,
     kernel_syscall_rsp = 0\<rparr>"

text \<open>What the kernel prints: a number, bytes of a user string, or a message of its own.\<close>

datatype line = LNum i64 | LBytes "u8 list" | LMsg string

record 'h kernel =
  k_threads :: "thread list"
  k_procs :: "process option list"
  k_cpu :: cpu
  k_mem :: "frame_alloc mem"
  k_frames_ready :: bool
  k_kernel_pt :: "u64 option"
  k_cr3 :: u64
  k_rsp0 :: u64
  k_regs :: regs
  k_stacks :: kmemory
  k_heap :: 'h
  k_ticks :: u64
  k_started :: bool
  k_if :: bool
  k_kernel_gs :: bool
  k_out :: "line list"

text \<open>
  \<open>kalloc\<close> and \<open>kfree\<close> are \<open>alloc\<close> and \<open>dealloc\<close> of the global allocator at the layout of a kernel
  stack, the null pointer being 0. \<open>mmu m cr3 va\<close> is the physical address the processor uses for
  \<open>va\<close>, \<open>None\<close> for a page fault. \<open>map_to\<close> is \<open>OffsetPageTable::map_to\<close>: the PML4, the page's
  address, the frame and the flags.
\<close>

record 'h env =
  crate :: x86
  kalloc :: "'h \<Rightarrow> u64 \<times> 'h"
  kfree :: "u64 \<Rightarrow> 'h \<Rightarrow> 'h"
  mmu :: "phys_mem \<Rightarrow> u64 \<Rightarrow> u64 \<Rightarrow> u64 option"
  map_to :: "u64 \<Rightarrow> u64 \<Rightarrow> u64 \<Rightarrow> u64 \<Rightarrow> (frame_alloc mem, unit) program"
  kthread_entry_addr :: u64
  ring3_entry_addr :: u64
  fork_return_addr :: u64
  user_cs :: u64
  user_ss :: u64
  programs :: "(u8 list \<times> u8 list) list"
  overflow_checks :: bool

type_synonym ('h, 'a) kprog = "('h kernel, 'a) program"

text \<open>The tables are Rust arrays.\<close>

definition tables_ok :: "'h kernel \<Rightarrow> bool" where
  "tables_ok s \<longleftrightarrow> length (k_threads s) = NTHREAD \<and> length (k_procs s) = NPROCESS"

section \<open>Access to the tables\<close>

text \<open>Indexing panics out of range.\<close>

definition index :: "'b list \<Rightarrow> nat \<Rightarrow> ('s, 'b) program" where
  "index xs i = (if i < length xs then ret (xs ! i) else panic ''index out of bounds'')"

definition get_thread :: "nat \<Rightarrow> ('h, thread) kprog" where
  "get_thread i = (\<lambda>s. index (k_threads s) i s)"

definition set_thread :: "nat \<Rightarrow> thread \<Rightarrow> ('h, unit) kprog" where
  "set_thread i t = bind (get_thread i) (\<lambda>_. modify (\<lambda>s. s\<lparr>k_threads := (k_threads s)[i := t]\<rparr>))"

definition update_thread :: "nat \<Rightarrow> (thread \<Rightarrow> thread) \<Rightarrow> ('h, unit) kprog" where
  "update_thread i f = bind (get_thread i) (\<lambda>t. set_thread i (f t))"

definition get_proc :: "nat \<Rightarrow> ('h, process option) kprog" where
  "get_proc i = (\<lambda>s. index (k_procs s) i s)"

definition set_proc :: "nat \<Rightarrow> process option \<Rightarrow> ('h, unit) kprog" where
  "set_proc i p = bind (get_proc i) (\<lambda>_. modify (\<lambda>s. s\<lparr>k_procs := (k_procs s)[i := p]\<rparr>))"

definition set_interrupts :: "bool \<Rightarrow> ('h, unit) kprog" where
  "set_interrupts b = modify (\<lambda>s. s\<lparr>k_if := b\<rparr>)"

definition println :: "line \<Rightarrow> ('h, unit) kprog" where
  "println l = modify (\<lambda>s. s\<lparr>k_out := k_out s @ [l]\<rparr>)"

text \<open>Arithmetic that panics on overflow when the build checks it and wraps when not.\<close>

definition arith_add :: "'h env \<Rightarrow> u64 \<Rightarrow> u64 \<Rightarrow> ('h, u64) kprog" where
  "arith_add E a b = (if overflow_checks E \<and> checked_add a b = None
     then panic ''attempt to add with overflow'' else ret (a + b))"

definition arith_sub :: "'h env \<Rightarrow> u64 \<Rightarrow> u64 \<Rightarrow> ('h, u64) kprog" where
  "arith_sub E a b = (if overflow_checks E \<and> a < b
     then panic ''attempt to subtract with overflow'' else ret (a - b))"

section \<open>cpu.rs\<close>

definition cpu_current_thread :: "('h, thread option) kprog" where
  "cpu_current_thread = bind (gets (\<lambda>s. current_tid (k_cpu s))) (\<lambda>i. case i of
     None \<Rightarrow> ret None
   | Some i \<Rightarrow> bind (get_thread i) (\<lambda>t. ret (Some t)))"

definition cpu_current_pid :: "('h, nat option) kprog" where
  "cpu_current_pid = bind cpu_current_thread (\<lambda>t. ret (case t of None \<Rightarrow> None | Some t \<Rightarrow> t_pid t))"

definition cpu_current_process :: "('h, process option) kprog" where
  "cpu_current_process = bind cpu_current_pid (\<lambda>p. case p of None \<Rightarrow> ret None | Some p \<Rightarrow> get_proc p)"

section \<open>Threads\<close>

text \<open>The scan \<open>for i in 0..NTHREAD-1\<close>.\<close>

definition next_tid :: "('h, nat option) kprog" where
  "next_tid = gets (\<lambda>s. first_index (NTHREAD - 1) (\<lambda>i. state (k_threads s ! i) = Unused))"

definition add_to_thread_table :: "thread \<Rightarrow> ('h, unit) kprog" where
  "add_to_thread_table t =
     (if NTHREAD \<le> tid t then throw ''Thread table is full'' else set_thread (tid t) t)"

definition setup_kstack :: "'h env \<Rightarrow> thread \<Rightarrow> ('h, thread) kprog" where
  "setup_kstack E t =
     bind (\<lambda>s. case kalloc E (k_heap s) of (p, h) \<Rightarrow> (Ok p, s\<lparr>k_heap := h\<rparr>)) (\<lambda>stk.
     bind (arith_add E stk STACK_SIZE) (\<lambda>top.
     bind (arith_sub E top TRAPFRAME_SIZE) (\<lambda>p.
     bind (modify (\<lambda>s. s\<lparr>k_stacks := tf_store p new_trap_frame (k_stacks s)\<rparr>)) (\<lambda>_.
     ret (t\<lparr>kstack := top, ctx := (ctx t)\<lparr>rsp := top\<rparr>, tf := Some p\<rparr>)))))"

definition create_kernel_thread :: "'h env \<Rightarrow> u64 \<Rightarrow> ('h, unit) kprog" where
  "create_kernel_thread E f =
     bind next_tid (\<lambda>i. bind (expect ''Thread table is full'' i) (\<lambda>i.
     bind (update_thread i (\<lambda>t. t\<lparr>tid := i, state := Runnable\<rparr>)) (\<lambda>_.
     bind (get_thread i) (\<lambda>t.
     bind (setup_kstack E t) (\<lambda>t.
     set_thread i (t\<lparr>ctx := (ctx t)\<lparr>rip := kthread_entry_addr E, rflags := 0x200\<rparr>,
                     entry := Some f\<rparr>))))))"

text \<open>\<open>kthread_entry\<close>: interrupts on, then the thread's function; its address is the result.\<close>

definition kthread_entry :: "('h, u64) kprog" where
  "kthread_entry =
     bind (set_interrupts True) (\<lambda>_.
     bind (gets (\<lambda>s. current_tid (k_cpu s))) (\<lambda>i.
     bind (expect ''called Option::unwrap() on a None value'' i) (\<lambda>i.
     bind (get_thread i) (\<lambda>t. expect ''entry not set'' (entry t)))))"

text \<open>\<open>set_trapframe\<close> of syscall/ksyscall.rs.\<close>

definition set_trapframe :: "u64 \<Rightarrow> ('h, unit) kprog" where
  "set_trapframe p =
     bind (gets (\<lambda>s. current_tid (k_cpu s))) (\<lambda>i.
     bind (expect ''no current thread'' i) (\<lambda>i.
     update_thread i (\<lambda>t. t\<lparr>tf := Some p\<rparr>)))"

section \<open>Page-table switches\<close>

definition switch_to_kernel_page_table :: "('h, unit) kprog" where
  "switch_to_kernel_page_table = modify (\<lambda>s. case k_kernel_pt s of
     None \<Rightarrow> s | Some f \<Rightarrow> s\<lparr>k_cr3 := f\<rparr>)"

definition switch_to_user_page_table :: "thread \<Rightarrow> ('h, unit) kprog" where
  "switch_to_user_page_table t = (case t_pid t of
     None \<Rightarrow> panic ''this process does not have pid''
   | Some p \<Rightarrow>
       bind (get_proc p) (\<lambda>pr.
       bind (expect ''process_table does not have the process'' pr) (\<lambda>pr.
       bind (expect ''this process does not have a page-table'' (page_table pr)) (\<lambda>f.
       modify (\<lambda>s. s\<lparr>k_cr3 := f\<rparr>)))))"

text \<open>A program on the memory part of the state.\<close>

definition on_mem :: "(frame_alloc mem, 'b) program \<Rightarrow> ('h, 'b) kprog" where
  "on_mem = zoom k_mem (\<lambda>m s. s\<lparr>k_mem := m\<rparr>)"

text \<open>\<open>FRAME_ALLOCATOR.lock().as_mut()\<close> is \<open>None\<close> before \<open>memory::init\<close>.\<close>

definition frame_allocator_expect :: "('h, unit) kprog" where
  "frame_allocator_expect = bind (gets k_frames_ready)
     (\<lambda>b. if b then ret () else panic ''FRAME_ALLOCATOR not initialized'')"

section \<open>Rules for the table operations\<close>

lemmas table_ops [prog] = get_thread_def set_thread_def update_thread_def get_proc_def set_proc_def
  index_def set_interrupts_def println_def

lemma get_thread_run: "i < length (k_threads s) \<Longrightarrow> get_thread i s = (Ok (k_threads s ! i), s)"
  by (simp add: prog)

lemma set_thread_run:
  "i < length (k_threads s) \<Longrightarrow> set_thread i t s = (Ok (), s\<lparr>k_threads := (k_threads s)[i := t]\<rparr>)"
  by (simp add: prog bind_def)

lemma update_thread_run:
  "i < length (k_threads s) \<Longrightarrow>
   update_thread i f s = (Ok (), s\<lparr>k_threads := (k_threads s)[i := f (k_threads s ! i)]\<rparr>)"
  by (simp add: prog bind_def)

lemma get_proc_run: "i < length (k_procs s) \<Longrightarrow> get_proc i s = (Ok (k_procs s ! i), s)"
  by (simp add: prog)

lemma set_proc_run:
  "i < length (k_procs s) \<Longrightarrow> set_proc i p s = (Ok (), s\<lparr>k_procs := (k_procs s)[i := p]\<rparr>)"
  by (simp add: prog bind_def)

lemmas table_runs = get_thread_run set_thread_run update_thread_run get_proc_run set_proc_run

lemma next_tid_run: "next_tid s =
  (Ok (first_index (NTHREAD - 1) (\<lambda>i. state (k_threads s ! i) = Unused)), s)"
  by (simp add: next_tid_def gets_def)

lemma cpu_current_pid_run:
  "current_tid (k_cpu s) = Some i \<Longrightarrow> i < length (k_threads s) \<Longrightarrow>
   cpu_current_pid s = (Ok (t_pid (k_threads s ! i)), s)"
  by (simp add: cpu_current_pid_def cpu_current_thread_def bind_def get_thread_run gets_def)

lemma cpu_current_process_run:
  "current_tid (k_cpu s) = Some i \<Longrightarrow> i < length (k_threads s) \<Longrightarrow>
   t_pid (k_threads s ! i) = Some p \<Longrightarrow> p < length (k_procs s) \<Longrightarrow>
   cpu_current_process s = (Ok (k_procs s ! p), s)"
  by (simp add: cpu_current_process_def bind_def cpu_current_pid_run get_proc_run)

end
