(* ===== verification/Machine.thy ===== *)
theory Machine
  imports Kernel
begin

text \<open>
  The kernel's assembly: \<open>switch_context\<close> (scheduler/context.rs), \<open>syscall_entry\<close>
  (syscall/mod.rs), and the two ways into user mode of thread/uprocess/uthread.rs,
  \<open>init_process_ring3_entry_trampoline\<close> and \<open>fork_return_trampoline\<close>. Each is the list of its
  instructions, run by a small interpreter for the instructions used.
\<close>

section \<open>Switching contexts\<close>

text \<open>\<open>pushfq; pop rax\<close> leaves the flags in the word below the old stack pointer, and the jump to
  the new thread goes through the word below the new one.\<close>

definition switch_context :: "Context \<Rightarrow> Context \<Rightarrow> regs \<Rightarrow> kmemory \<Rightarrow> Context \<times> regs \<times> kmemory" where
  "switch_context old new r m =
     (let old' = old\<lparr>r15 := r15 r, r14 := r14 r, r13 := r13 r, r12 := r12 r, rbx := rbx r, rbp := rbp r,
                     rsp := rsp r + 8, rip := m (rsp r), rflags := rflags r\<rparr>;
          m1 = m(rsp r - 8 := rflags r);
          m2 = m1(rsp new - 8 := rflags new);
          m3 = m2(rsp new - 8 := rip new)
      in (old', \<lparr>r15 = r15 new, r14 = r14 new, r13 = r13 new, r12 = r12 new, rbx = rbx new,
                 rbp = rbp new, rsp = rsp new, rip = rip new, rflags = rflags new\<rparr>, m3))"

text \<open>The registers of a caller of \<open>switch_context\<close> once the call has returned.\<close>

definition returned :: "regs \<Rightarrow> kmemory \<Rightarrow> regs" where
  "returned r m = r\<lparr>rsp := rsp r + 8, rip := m (rsp r)\<rparr>"

lemma switch_saves:
  assumes "switch_context old new r m = (old', r', m')"
  shows "regs.truncate old' = returned r m" and "r' = regs.truncate new"
    and "cs old' = cs old" and "ss old' = ss old" and "rsp3 old' = rsp3 old"
    and "user_rip old' = user_rip old" and "user_rdi old' = user_rdi old" and "user_rsi old' = user_rsi old"
    and "\<And>a. a \<noteq> rsp r - 8 \<Longrightarrow> a \<noteq> rsp new - 8 \<Longrightarrow> m' a = m a"
  using assms by (auto simp: switch_context_def Let_def regs.defs returned_def)

section \<open>Instructions\<close>

datatype reg = RAX | RBX | RCX | RDX | RSI | RDI | RBP | R8 | R9 | R10 | R11 | R12 | R13 | R14 | R15

text \<open>\<open>kernel_gs\<close> says which \<open>GS\<close> base is active: the kernel's, which points to \<open>CPU\<close>, or the
  user's. \<open>mode\<close> and \<open>ip\<close> are where the processor continues after \<open>sysretq\<close> or \<open>iretq\<close>.\<close>

record machine =
  gpr :: "reg \<Rightarrow> u64"
  sp :: u64
  flags :: u64
  ip :: u64
  user_mode :: bool
  kernel_gs :: bool
  stack :: kmemory
  m_saved_user_rsp :: u64
  m_kernel_syscall_rsp :: u64

datatype instr =
    Swapgs
  | SaveUserRsp          \<comment> \<open>mov gs:[saved_user_rsp], rsp\<close>
  | LoadKernelRsp        \<comment> \<open>mov rsp, gs:[kernel_syscall_rsp]\<close>
  | LoadUserRsp          \<comment> \<open>mov rsp, gs:[saved_user_rsp]\<close>
  | Push reg
  | PushImm u64
  | PushAt reg u64       \<comment> \<open>push qword ptr [reg + offset]\<close>
  | Pop reg
  | Mov reg reg
  | MovSp reg            \<comment> \<open>mov reg, rsp\<close>
  | MovImm reg u64
  | Load reg reg u64     \<comment> \<open>mov reg, qword ptr [reg + offset]\<close>
  | StoreSp u64 reg      \<comment> \<open>mov [rsp + offset], reg\<close>
  | Sysretq
  | Iretq

text \<open>An access through \<open>GS\<close> reaches \<open>CPU\<close> only while the kernel's base is active.\<close>

fun exec_instr :: "instr \<Rightarrow> machine \<Rightarrow> machine option" where
  "exec_instr Swapgs m = Some (m\<lparr>kernel_gs := \<not> kernel_gs m\<rparr>)"
| "exec_instr SaveUserRsp m = (if kernel_gs m then Some (m\<lparr>m_saved_user_rsp := sp m\<rparr>) else None)"
| "exec_instr LoadKernelRsp m = (if kernel_gs m then Some (m\<lparr>sp := m_kernel_syscall_rsp m\<rparr>) else None)"
| "exec_instr LoadUserRsp m = (if kernel_gs m then Some (m\<lparr>sp := m_saved_user_rsp m\<rparr>) else None)"
| "exec_instr (Push r) m = Some (m\<lparr>sp := sp m - 8, stack := (stack m)(sp m - 8 := gpr m r)\<rparr>)"
| "exec_instr (PushImm w) m = Some (m\<lparr>sp := sp m - 8, stack := (stack m)(sp m - 8 := w)\<rparr>)"
| "exec_instr (PushAt r k) m =
     Some (m\<lparr>sp := sp m - 8, stack := (stack m)(sp m - 8 := stack m (gpr m r + k))\<rparr>)"
| "exec_instr (Pop r) m = Some (m\<lparr>sp := sp m + 8, gpr := (gpr m)(r := stack m (sp m))\<rparr>)"
| "exec_instr (Mov d r) m = Some (m\<lparr>gpr := (gpr m)(d := gpr m r)\<rparr>)"
| "exec_instr (MovSp d) m = Some (m\<lparr>gpr := (gpr m)(d := sp m)\<rparr>)"
| "exec_instr (MovImm d w) m = Some (m\<lparr>gpr := (gpr m)(d := w)\<rparr>)"
| "exec_instr (Load d r k) m = Some (m\<lparr>gpr := (gpr m)(d := stack m (gpr m r + k))\<rparr>)"
| "exec_instr (StoreSp k r) m = Some (m\<lparr>stack := (stack m)(sp m + k := gpr m r)\<rparr>)"
| "exec_instr Sysretq m = Some (m\<lparr>ip := gpr m RCX, flags := gpr m R11, user_mode := True\<rparr>)"
| "exec_instr Iretq m = Some (m\<lparr>ip := stack m (sp m), flags := stack m (sp m + 16),
     user_mode := (stack m (sp m + 8) AND 3 = 3), sp := stack m (sp m + 24)\<rparr>)"

primrec exec_code :: "instr list \<Rightarrow> machine \<Rightarrow> machine option" where
  "exec_code [] m = Some m"
| "exec_code (i # is) m = (case exec_instr i m of None \<Rightarrow> None | Some m' \<Rightarrow> exec_code is m')"

lemma exec_code_append:
  "exec_code (xs @ ys) m = (case exec_code xs m of None \<Rightarrow> None | Some m' \<Rightarrow> exec_code ys m')"
  by (induction xs arbitrary: m) (auto split: option.splits)

lemma exec_end: "Some (a :: machine) = Some b \<Longrightarrow> (b = a \<Longrightarrow> P) \<Longrightarrow> P"
  by simp

section \<open>System call entry and return\<close>

definition syscall_prologue :: "instr list" where
  "syscall_prologue = [Swapgs, SaveUserRsp, LoadKernelRsp,
     Push RCX, Push R11, Push RAX, Push RDI, Push RSI, Push RDX, Push RBX, Push RBP,
     Push R12, Push R13, Push R14, Push R15,
     Mov R10 RAX, MovSp R8, Mov RCX RDX, Mov RDX RSI, Mov RSI RDI, Mov RDI R10]"

definition OFFSET_SAVED_RAX :: u64 where "OFFSET_SAVED_RAX = 72"

definition syscall_epilogue :: "instr list" where
  "syscall_epilogue = [StoreSp OFFSET_SAVED_RAX RAX,
     Pop R15, Pop R14, Pop R13, Pop R12, Pop RBP, Pop RBX, Pop RDX, Pop RSI, Pop RDI, Pop RAX,
     Pop R11, Pop RCX, LoadUserRsp, Swapgs, Sysretq]"

text \<open>\<open>call syscall_dispatch\<close> is the argument.\<close>

definition syscall_entry :: "(machine \<Rightarrow> machine) \<Rightarrow> machine \<Rightarrow> machine option" where
  "syscall_entry dispatch m = (case exec_code syscall_prologue m of
       None \<Rightarrow> None
     | Some k \<Rightarrow> exec_code syscall_epilogue (dispatch k))"

text \<open>What the prologue hands to the dispatcher: the arguments in the order of the C convention,
  and a trap frame at \<open>r8\<close> that holds the user's registers.\<close>

definition saved_frame :: "machine \<Rightarrow> trap_frame \<Rightarrow> bool" where
  "saved_frame m f \<longleftrightarrow> tf_r15 f = gpr m R15 \<and> tf_r14 f = gpr m R14 \<and> tf_r13 f = gpr m R13 \<and>
     tf_r12 f = gpr m R12 \<and> tf_rbp f = gpr m RBP \<and> tf_rbx f = gpr m RBX \<and> tf_rdx f = gpr m RDX \<and>
     tf_rsi f = gpr m RSI \<and> tf_rdi f = gpr m RDI \<and> tf_rax f = gpr m RAX \<and> tf_r11 f = gpr m R11 \<and>
     tf_rcx f = gpr m RCX"

lemma off_sub: "(p :: u64) + numeral a - numeral b = p + (numeral a - numeral b)" by simp
lemma off_add: "(p :: u64) + numeral a + numeral b = p + (numeral a + numeral b)" by simp

lemma prologue_exec:
  assumes "\<not> kernel_gs m" and "m_kernel_syscall_rsp m = p + 96"
  shows "exec_code syscall_prologue m = Some (m\<lparr>kernel_gs := True, m_saved_user_rsp := sp m, sp := p,
    stack := (stack m)(p + 88 := gpr m RCX, p + 80 := gpr m R11, p + 72 := gpr m RAX, p + 64 := gpr m RDI,
      p + 56 := gpr m RSI, p + 48 := gpr m RDX, p + 40 := gpr m RBX, p + 32 := gpr m RBP,
      p + 24 := gpr m R12, p + 16 := gpr m R13, p + 8 := gpr m R14, p := gpr m R15),
    gpr := (gpr m)(R10 := gpr m RAX, R8 := p, RCX := gpr m RDX, RDX := gpr m RSI, RSI := gpr m RDI,
      RDI := gpr m RAX)\<rparr>)"
  using assms by (simp add: syscall_prologue_def off_sub)

text \<open>The twelve words are the fields of a trap frame at the new stack pointer; the fields \<open>rip\<close> and
  \<open>rsp\<close> of that frame lie above the top of the kernel stack.\<close>

lemma tf_load_pushed: "tf_load ((w :: kmemory)(p + 88 := a, p + 80 := b, p + 72 := c, p + 64 := d,
      p + 56 := e, p + 48 := f, p + 40 := g, p + 32 := h,
      p + 24 := i, p + 16 := j, p + 8 := k, p := l)) p =
   \<lparr>tf_r15 = l, tf_r14 = k, tf_r13 = j, tf_r12 = i, tf_rbp = h, tf_rbx = g, tf_rdx = f, tf_rsi = e,
    tf_rdi = d, tf_rax = c, tf_r11 = b, tf_rcx = a, tf_rip = w (p + 96), tf_rsp = w (p + 104)\<rparr>"
  by (simp add: tf_load_def)

text \<open>The epilogue returns to user mode with the registers of the frame, the dispatcher's result in
  \<open>rax\<close> and the stack pointer of \<open>CPU.saved_user_rsp\<close>.\<close>

lemma epilogue_exec:
  assumes "kernel_gs k" and "sp k = p"
  shows "exec_code syscall_epilogue k = Some (k\<lparr>stack := (stack k)(p + 72 := gpr k RAX),
    gpr := (gpr k)(R15 := stack k p, R14 := stack k (p + 8), R13 := stack k (p + 16), R12 := stack k (p + 24),
      RBP := stack k (p + 32), RBX := stack k (p + 40), RDX := stack k (p + 48), RSI := stack k (p + 56),
      RDI := stack k (p + 64), RAX := gpr k RAX, R11 := stack k (p + 80), RCX := stack k (p + 88)),
    sp := m_saved_user_rsp k, kernel_gs := False, ip := stack k (p + 88), flags := stack k (p + 80),
    user_mode := True\<rparr>)"
  using assms by (simp add: syscall_epilogue_def off_add OFFSET_SAVED_RAX_def)

section \<open>First entries into user mode\<close>

text \<open>The registers that the compiler loads for the inline assembly are part of the code: \<open>ax\<close> holds
  the stack selector, the values pushed are the saved context's.\<close>

definition ring3_trampoline :: "Context \<Rightarrow> instr list" where
  "ring3_trampoline c = [MovImm RAX (ss c), Push RAX, PushImm (rsp3 c), PushImm 0x202,
     PushImm (cs c), PushImm (user_rip c),
     MovImm RAX 0, MovImm RBX 0, MovImm RCX 0, MovImm RDX 0, MovImm RDI 0, MovImm RSI 0,
     MovImm R8 0, MovImm R9 0, MovImm R10 0, MovImm R11 0, MovImm R12 0, MovImm R13 0,
     MovImm R14 0, MovImm R15 0,
     MovImm RDI (user_rdi c), MovImm RSI (user_rsi c), Iretq]"

definition fork_trampoline :: "Context \<Rightarrow> u64 \<Rightarrow> instr list" where
  "fork_trampoline c p = [MovImm R8 p, MovImm R9 (cs c), MovImm R10 (ss c), MovImm R11 (rsp3 c),
     Push R10, Push R11, PushAt R8 80, Push R9, PushAt R8 88,
     Load R15 R8 0, Load R14 R8 8, Load R13 R8 16, Load R12 R8 24, Load RBP R8 32, Load RBX R8 40,
     Load RDX R8 48, Load RSI R8 56, Load RDI R8 64, Load RAX R8 72, Iretq]"

lemma ring3_exec:
  "exec_code (ring3_trampoline c) m = Some (m\<lparr>sp := rsp3 c,
    stack := (stack m)(sp m - 8 := ss c, sp m - 16 := rsp3 c, sp m - 24 := 0x202, sp m - 32 := cs c,
      sp m - 40 := user_rip c),
    gpr := (\<lambda>r. if r = RDI then user_rdi c else if r = RSI then user_rsi c
                 else if r = RBP then gpr m RBP else 0),
    ip := user_rip c, flags := 0x202, user_mode := (cs c AND 3 = 3)\<rparr>)"
proof -
  have g: "(gpr m)(RAX := 0, RBX := 0, RCX := 0, RDX := 0, RDI := 0, RSI := 0, R8 := 0, R9 := 0,
      R10 := 0, R11 := 0, R12 := 0, R13 := 0, R14 := 0, R15 := 0, RDI := user_rdi c, RSI := user_rsi c) =
    (\<lambda>r. if r = RDI then user_rdi c else if r = RSI then user_rsi c
         else if r = RBP then gpr m RBP else 0)" (is "?l = ?r")
  proof
    fix r show "?l r = ?r r" by (cases r) simp_all
  qed
  show ?thesis
    by (simp add: ring3_trampoline_def flip: g)
qed

text \<open>The trampoline of a forked child starts with the stack pointer at the trap frame, so the words
  it pushes lie below the frame.\<close>

lemma fork_exec:
  assumes "sp m = p"
  shows "exec_code (fork_trampoline c p) m = Some (m\<lparr>sp := rsp3 c,
    stack := (stack m)(p - 8 := ss c, p - 16 := rsp3 c, p - 24 := stack m (p + 80), p - 32 := cs c,
      p - 40 := stack m (p + 88)),
    gpr := (gpr m)(R8 := p, R9 := cs c, R10 := ss c, R11 := rsp3 c, R15 := stack m p,
      R14 := stack m (p + 8), R13 := stack m (p + 16), R12 := stack m (p + 24),
      RBP := stack m (p + 32), RBX := stack m (p + 40), RDX := stack m (p + 48),
      RSI := stack m (p + 56), RDI := stack m (p + 64), RAX := stack m (p + 72)),
    ip := stack m (p + 88), flags := stack m (p + 80), user_mode := (cs c AND 3 = 3)\<rparr>)"
  using assms by (simp add: fork_trampoline_def)

end
