(* ===== verification/Scheduler.thy ===== *)
theory Scheduler
  imports Machine
begin

text \<open>
  The round-robin scheduler of kernel/src/scheduler/round_robin.rs. One turn of its loop is
  \<open>scheduler_round\<close>; \<open>on_yield\<close> and \<open>on_syscall_yield\<close> go back to it. Each ends where
  \<open>switch_context\<close> has switched, so what follows is the other side's code: the caller of a yield
  goes on (\<open>after_yield\<close>, \<open>after_syscall_yield\<close>) when a later round has picked its thread.

  The locale \<open>pick_policy\<close> states what the kernel needs from the choice of the next thread, and
  proves from it that a runnable thread is picked within \<open>NTHREAD\<close> rounds.
\<close>

section \<open>Choosing a thread\<close>

definition find_next_runnable_thread :: "thread list \<Rightarrow> nat option \<Rightarrow> nat option" where
  "find_next_runnable_thread table cur =
     (let c = (case cur of None \<Rightarrow> NTHREAD - 1 | Some c \<Rightarrow> c) in
      map_option (\<lambda>i. (c + i) mod NTHREAD)
        (List.find (\<lambda>i. state (table ! ((c + i) mod NTHREAD)) = Runnable) [1..<NTHREAD + 1]))"

text \<open>How far ahead of \<open>c\<close>, in the order of the scan, thread \<open>t\<close> comes: from 1 for the next thread to
  \<open>NTHREAD\<close> for \<open>c\<close> itself.\<close>

definition ahead :: "nat \<Rightarrow> nat \<Rightarrow> nat" where
  "ahead c t = (if c < t then t - c else t + NTHREAD - c)"

definition scan_start :: "nat option \<Rightarrow> nat" where
  "scan_start cur = (case cur of None \<Rightarrow> NTHREAD - 1 | Some c \<Rightarrow> c)"

lemma ahead_bounds: "c < NTHREAD \<Longrightarrow> t < NTHREAD \<Longrightarrow> 1 \<le> ahead c t \<and> ahead c t \<le> NTHREAD"
  by (auto simp: ahead_def)

lemma ahead_mod: "c < NTHREAD \<Longrightarrow> t < NTHREAD \<Longrightarrow> (c + ahead c t) mod NTHREAD = t"
  by (auto simp: ahead_def)

lemma ahead_unique:
  assumes "c < NTHREAD" and "1 \<le> i" and "i \<le> NTHREAD"
  shows "ahead c ((c + i) mod NTHREAD) = i"
proof (cases "c + i < NTHREAD")
  case True
  then show ?thesis using assms by (simp add: ahead_def)
next
  case False
  then have "(c + i) mod NTHREAD = c + i - NTHREAD"
    using assms by (simp add: mod_if)
  then show ?thesis using assms False by (auto simp: ahead_def)
qed

lemma ahead_self: "ahead c c = NTHREAD"
  by (simp add: ahead_def)

lemma ahead_less_trans:
  assumes "c < NTHREAD" "n < NTHREAD" "t < NTHREAD" and "ahead c n \<le> ahead c t" and "n \<noteq> t"
  shows "ahead n t < ahead c t"
  using assms by (auto simp: ahead_def split: if_splits)

lemma find_nth_upt:
  "List.find P [1..<n + 1] = Some i \<longleftrightarrow> 1 \<le> i \<and> i \<le> n \<and> P i \<and> (\<forall>j. 1 \<le> j \<and> j < i \<longrightarrow> \<not> P j)"
proof -
  have "List.find P [1..<n + 1] = Some i \<longleftrightarrow>
      (\<exists>k<n. P (1 + k) \<and> i = 1 + k \<and> (\<forall>j<k. \<not> P (1 + j)))"
    by (subst find_Some_iff) (auto simp del: upt_Suc upt_rec_numeral cong: conj_cong)
  also have "\<dots> \<longleftrightarrow> 1 \<le> i \<and> i \<le> n \<and> P i \<and> (\<forall>j. 1 \<le> j \<and> j < i \<longrightarrow> \<not> P j)"
    (is "?l \<longleftrightarrow> ?r")
  proof
    assume ?l
    then obtain k where k: "k < n" "P (1 + k)" "i = 1 + k" "\<forall>j<k. \<not> P (1 + j)" by blast
    have "\<not> P j" if "1 \<le> j" "j < i" for j
      using k(4) [rule_format, of "j - 1"] that k(3) by simp
    then show ?r using k by simp
  next
    assume r: ?r
    have "\<forall>j<i - 1. \<not> P (1 + j)" using r by simp
    then show ?l using r by (intro exI [of _ "i - 1"]) auto
  qed
  finally show ?thesis .
qed

lemma find_next_Some_iff:
  assumes "scan_start cur < NTHREAD"
  shows "find_next_runnable_thread table cur = Some n \<longleftrightarrow>
    n < NTHREAD \<and> state (table ! n) = Runnable \<and>
    (\<forall>t<NTHREAD. state (table ! t) = Runnable \<longrightarrow> ahead (scan_start cur) n \<le> ahead (scan_start cur) t)"
    (is "_ \<longleftrightarrow> ?r")
proof -
  let ?c = "scan_start cur"
  let ?P = "\<lambda>i. state (table ! ((?c + i) mod NTHREAD)) = Runnable"
  have def: "find_next_runnable_thread table cur =
      map_option (\<lambda>i. (?c + i) mod NTHREAD) (List.find ?P [1..<NTHREAD + 1])"
    by (simp add: find_next_runnable_thread_def scan_start_def Let_def)
  have N: "0 < NTHREAD" by (simp add: NTHREAD_def)
  show ?thesis
  proof
    assume "find_next_runnable_thread table cur = Some n"
    then obtain i where i: "List.find ?P [1..<NTHREAD + 1] = Some i" and n: "n = (?c + i) mod NTHREAD"
      unfolding def by auto
    note I = i [unfolded find_nth_upt]
    have ai: "ahead ?c n = i" using ahead_unique [OF assms] I n by simp
    have "i \<le> ahead ?c t" if "t < NTHREAD" "state (table ! t) = Runnable" for t
    proof (rule ccontr)
      assume "\<not> i \<le> ahead ?c t"
      then have "\<not> ?P (ahead ?c t)" using I ahead_bounds [OF assms that(1)] by simp
      then show False using that ahead_mod [OF assms that(1)] by simp
    qed
    then show ?r using I n ai N by simp
  next
    assume r: ?r
    have b: "1 \<le> ahead ?c n" "ahead ?c n \<le> NTHREAD" using ahead_bounds [OF assms] r by auto
    have "\<not> ?P j" if "1 \<le> j" "j < ahead ?c n" for j
    proof
      assume "?P j"
      moreover have "j \<le> NTHREAD" using that b by simp
      ultimately have "ahead ?c n \<le> ahead ?c ((?c + j) mod NTHREAD)" using r N by simp
      then show False using ahead_unique [OF assms that(1) \<open>j \<le> NTHREAD\<close>] that by simp
    qed
    then have "List.find ?P [1..<NTHREAD + 1] = Some (ahead ?c n)"
      unfolding find_nth_upt using b r ahead_mod [OF assms] by simp
    then show "find_next_runnable_thread table cur = Some n"
      unfolding def using ahead_mod [OF assms] r by simp
  qed
qed

lemma find_next_None_iff:
  assumes "scan_start cur < NTHREAD"
  shows "find_next_runnable_thread table cur = None \<longleftrightarrow> (\<forall>t<NTHREAD. state (table ! t) \<noteq> Runnable)"
proof -
  let ?c = "scan_start cur"
  have "find_next_runnable_thread table cur = None \<longleftrightarrow>
      (\<forall>i\<in>set [1..<NTHREAD + 1]. state (table ! ((?c + i) mod NTHREAD)) \<noteq> Runnable)"
    by (auto simp: find_next_runnable_thread_def scan_start_def Let_def find_None_iff simp del: upt_Suc)
  also have "\<dots> \<longleftrightarrow> (\<forall>t<NTHREAD. state (table ! t) \<noteq> Runnable)"
  proof (intro iffI ballI allI impI)
    fix t assume all: "\<forall>i\<in>set [1..<NTHREAD + 1]. state (table ! ((?c + i) mod NTHREAD)) \<noteq> Runnable"
      and t: "t < NTHREAD"
    have "ahead ?c t \<in> set [1..<NTHREAD + 1]" using ahead_bounds [OF assms t] by auto
    then show "state (table ! t) \<noteq> Runnable" using all ahead_mod [OF assms t] by metis
  qed (simp add: NTHREAD_def)
  finally show ?thesis .
qed

section \<open>What a policy must guarantee\<close>

text \<open>A policy picks a runnable thread when there is one, and the distance \<open>rank\<close> from the current
  thread to a runnable thread that is passed over strictly falls. Then no thread is passed over
  more than \<open>bound\<close> times.\<close>

locale pick_policy =
  fixes pick :: "thread list \<Rightarrow> nat option \<Rightarrow> nat option"
    and rank :: "nat option \<Rightarrow> nat \<Rightarrow> nat" and valid :: "nat option \<Rightarrow> bool" and bound :: nat
  assumes pick_runnable: "valid cur \<Longrightarrow> pick table cur = Some n \<Longrightarrow>
      n < NTHREAD \<and> state (table ! n) = Runnable \<and> valid (Some n)"
    and pick_total: "valid cur \<Longrightarrow> t < NTHREAD \<Longrightarrow> state (table ! t) = Runnable \<Longrightarrow> pick table cur \<noteq> None"
    and rank_falls: "valid cur \<Longrightarrow> t < NTHREAD \<Longrightarrow> state (table ! t) = Runnable \<Longrightarrow>
      pick table cur = Some n \<Longrightarrow> n \<noteq> t \<Longrightarrow> rank (Some n) t < rank cur t"
    and rank_bound: "valid cur \<Longrightarrow> t < NTHREAD \<Longrightarrow> rank cur t \<le> bound"
begin

lemma picked_within_rank:
  assumes "valid (run 0)" and t: "t < NTHREAD"
    and runnable: "\<And>k. state (tables k ! t) = Runnable"
    and step: "\<And>k. run (Suc k) = pick (tables k) (run k)"
  shows "\<exists>k\<le>rank (run 0) t. run (Suc k) = Some t"
  using assms(1,3,4)
proof (induction "rank (run 0) t" arbitrary: run tables rule: less_induct)
  case less
  obtain n where n: "run (Suc 0) = Some n"
    using pick_total [OF less.prems(1) t less.prems(2)] less.prems(3) [of 0] by auto
  show ?case
  proof (cases "n = t")
    case True
    then show ?thesis using n by blast
  next
    case False
    have fall: "rank (run (Suc 0)) t < rank (run 0) t"
      using rank_falls [OF less.prems(1) t less.prems(2) _ False] less.prems(3) [of 0] n by simp
    have "valid (run (Suc 0))"
      using pick_runnable [OF less.prems(1)] less.prems(3) [of 0] n by metis
    from less.hyps [of "\<lambda>k. run (Suc k)" "\<lambda>k. tables (Suc k)", OF fall this less.prems(2,3)]
    obtain k where "k \<le> rank (run (Suc 0)) t" "run (Suc (Suc k)) = Some t" by blast
    then show ?thesis using fall by (intro exI [of _ "Suc k"]) simp
  qed
qed

lemma picked_within_bound:
  assumes "valid (run 0)" and "t < NTHREAD"
    and "\<And>k. state (tables k ! t) = Runnable" and "\<And>k. run (Suc k) = pick (tables k) (run k)"
  shows "\<exists>k\<le>bound. run (Suc k) = Some t"
  using picked_within_rank [OF assms] rank_bound [OF assms(1,2)] order_trans by blast

end

definition cur_ok :: "nat option \<Rightarrow> bool" where
  "cur_ok cur \<longleftrightarrow> scan_start cur < NTHREAD"

text \<open>Counted from 0, so that the bound is \<open>NTHREAD - 1\<close> rounds before the one that picks the thread.\<close>

definition turns :: "nat option \<Rightarrow> nat \<Rightarrow> nat" where
  "turns cur t = ahead (scan_start cur) t - 1"

interpretation rr: pick_policy find_next_runnable_thread turns cur_ok "NTHREAD - 1"
proof
  show "n < NTHREAD \<and> state (table ! n) = Runnable \<and> cur_ok (Some n)"
    if "cur_ok cur" "find_next_runnable_thread table cur = Some n" for cur table n
    using that find_next_Some_iff [of cur table n] by (simp add: cur_ok_def scan_start_def)
  show "find_next_runnable_thread table cur \<noteq> None"
    if "cur_ok cur" "t < NTHREAD" "state (table ! t) = Runnable" for cur table t
    using that find_next_None_iff [of cur table] by (auto simp: cur_ok_def)
  show "turns (Some n) t < turns cur t"
    if "cur_ok cur" "t < NTHREAD" "state (table ! t) = Runnable"
      "find_next_runnable_thread table cur = Some n" "n \<noteq> t" for cur table t n
  proof -
    have c: "scan_start cur < NTHREAD" using that(1) by (simp add: cur_ok_def)
    have n: "n < NTHREAD" "ahead (scan_start cur) n \<le> ahead (scan_start cur) t"
      using that find_next_Some_iff [OF c] by auto
    from ahead_less_trans [OF c n(1) that(2) n(2) that(5)] show ?thesis
      using ahead_bounds [OF n(1) that(2)]
      by (auto simp: turns_def scan_start_def intro!: diff_less_mono)
  qed
  show "turns cur t \<le> NTHREAD - 1" if "cur_ok cur" "t < NTHREAD" for cur t
    using ahead_bounds [of "scan_start cur" t] that by (auto simp: turns_def cur_ok_def)
qed

section \<open>The scheduler\<close>

definition on_cpu :: "(cpu \<Rightarrow> cpu) \<Rightarrow> ('h, unit) kprog" where
  "on_cpu f = modify (\<lambda>s. s\<lparr>k_cpu := f (k_cpu s)\<rparr>)"

text \<open>The two calls of \<open>switch_context\<close>: from the scheduler to a thread and back.\<close>

definition switch_to_thread :: "nat \<Rightarrow> 'h kernel \<Rightarrow> 'h kernel" where
  "switch_to_thread n s =
     (case switch_context (scheduler (k_cpu s)) (ctx (k_threads s ! n)) (k_regs s) (k_stacks s) of
        (old, r, m) \<Rightarrow> s\<lparr>k_cpu := (k_cpu s)\<lparr>scheduler := old\<rparr>, k_regs := r, k_stacks := m\<rparr>)"

definition switch_to_scheduler :: "nat \<Rightarrow> 'h kernel \<Rightarrow> 'h kernel" where
  "switch_to_scheduler c s =
     (case switch_context (ctx (k_threads s ! c)) (scheduler (k_cpu s)) (k_regs s) (k_stacks s) of
        (old, r, m) \<Rightarrow> s\<lparr>k_threads := (k_threads s)[c := (k_threads s ! c)\<lparr>ctx := old\<rparr>],
                         k_regs := r, k_stacks := m\<rparr>)"

text \<open>\<open>scheduler\<close> before its loop.\<close>

definition scheduler_start :: "('h, unit) kprog" where
  "scheduler_start =
     bind (set_interrupts False) (\<lambda>_.
     bind (gets k_started) (\<lambda>b.
     if b then panic ''Scheduler already started''
     else modify (\<lambda>s. s\<lparr>k_started := True\<rparr>)))"

text \<open>\<open>gdt::set_privilege_stack_0\<close>.\<close>

definition set_privilege_stack_0 :: "'h env \<Rightarrow> u64 \<Rightarrow> ('h, unit) kprog" where
  "set_privilege_stack_0 E a =
     bind (virt_new (crate E) a) (\<lambda>a. modify (\<lambda>s. s\<lparr>k_rsp0 := a\<rparr>))"

definition make_current :: "nat \<Rightarrow> ('h, unit) kprog" where
  "make_current n =
     bind (update_thread n (\<lambda>t. t\<lparr>state := Running\<rparr>)) (\<lambda>_.
     bind (gets (\<lambda>s. current_tid (k_cpu s))) (\<lambda>cur.
     bind (case cur of
         None \<Rightarrow> ret ()
       | Some c \<Rightarrow> bind (get_thread c) (\<lambda>t.
           if state t = Running then set_thread c (t\<lparr>state := Runnable\<rparr>) else ret ())) (\<lambda>_.
     on_cpu (\<lambda>c. c\<lparr>current_tid := Some n\<rparr>))))"

definition enter_thread :: "'h env \<Rightarrow> nat \<Rightarrow> ('h, unit) kprog" where
  "enter_thread E n =
     bind (get_thread n) (\<lambda>t.
     bind (if t_pid t \<noteq> None then switch_to_user_page_table t else switch_to_kernel_page_table) (\<lambda>_.
     bind (on_cpu (\<lambda>c. c\<lparr>kernel_syscall_rsp := kstack t, saved_user_rsp := rsp3 (ctx t)\<rparr>)) (\<lambda>_.
     bind (arith_sub E (kstack t) TRAPFRAME_SIZE) (\<lambda>a.
     bind (set_privilege_stack_0 E a) (\<lambda>_.
     modify (switch_to_thread n))))))"

text \<open>One turn of the loop: the thread it switches to, or \<open>None\<close> when it waits for an interrupt.\<close>

definition scheduler_round :: "'h env \<Rightarrow> ('h, nat option) kprog" where
  "scheduler_round E =
     bind (gets (\<lambda>s. find_next_runnable_thread (k_threads s) (current_tid (k_cpu s)))) (\<lambda>n. case n of
       None \<Rightarrow> bind (set_interrupts True) (\<lambda>_. ret None)
     | Some n \<Rightarrow> bind (make_current n) (\<lambda>_. bind (enter_thread E n) (\<lambda>_. ret (Some n))))"

text \<open>The result says whether the scheduler was entered.\<close>

definition on_yield :: "('h, bool) kprog" where
  "on_yield =
     bind (set_interrupts False) (\<lambda>_.
     bind switch_to_kernel_page_table (\<lambda>_.
     bind (gets (\<lambda>s. current_tid (k_cpu s))) (\<lambda>cur. case cur of
       None \<Rightarrow> bind (set_interrupts True) (\<lambda>_. ret False)
     | Some c \<Rightarrow> bind (get_thread c) (\<lambda>t.
         if state t \<noteq> Running then panic ''CPU has current_tid but the thread is not Running''
         else bind (set_thread c (t\<lparr>state := Runnable\<rparr>)) (\<lambda>_.
              bind (modify (switch_to_scheduler c)) (\<lambda>_. ret True))))))"

definition after_yield :: "('h, unit) kprog" where
  "after_yield = set_interrupts True"

definition swapgs :: "('h, unit) kprog" where
  "swapgs = modify (\<lambda>s. s\<lparr>k_kernel_gs := \<not> k_kernel_gs s\<rparr>)"

definition on_syscall_yield :: "('h, bool) kprog" where
  "on_syscall_yield =
     bind (set_interrupts False) (\<lambda>_.
     bind switch_to_kernel_page_table (\<lambda>_.
     bind (gets (\<lambda>s. current_tid (k_cpu s))) (\<lambda>cur. case cur of
       None \<Rightarrow> bind (set_interrupts True) (\<lambda>_. ret False)
     | Some c \<Rightarrow>
         bind (gets (\<lambda>s. saved_user_rsp (k_cpu s))) (\<lambda>usp.
         bind (update_thread c (\<lambda>t. t\<lparr>ctx := (ctx t)\<lparr>rsp3 := usp\<rparr>\<rparr>)) (\<lambda>_.
         bind swapgs (\<lambda>_.
         bind (modify (switch_to_scheduler c)) (\<lambda>_. ret True)))))))"

definition after_syscall_yield :: "('h, unit) kprog" where
  "after_syscall_yield = swapgs"

section \<open>What a round does\<close>

text \<open>A thread that may be run: its kernel stack is one, and a user thread's process has a page
  table.\<close>

definition thread_ready :: "'h env \<Rightarrow> 'h kernel \<Rightarrow> thread \<Rightarrow> bool" where
  "thread_ready E s t \<longleftrightarrow> TRAPFRAME_SIZE \<le> kstack t \<and> virt_ok (crate E) (kstack t - TRAPFRAME_SIZE) \<and>
     (\<forall>p. t_pid t = Some p \<longrightarrow> p < NPROCESS \<and> (\<exists>pr. k_procs s ! p = Some pr \<and> page_table pr \<noteq> None))"

definition sched_ok :: "'h env \<Rightarrow> 'h kernel \<Rightarrow> bool" where
  "sched_ok E s \<longleftrightarrow> tables_ok s \<and> cur_ok (current_tid (k_cpu s)) \<and>
     (\<forall>i<NTHREAD. state (k_threads s ! i) = Running \<longrightarrow> current_tid (k_cpu s) = Some i) \<and>
     (\<forall>i<NTHREAD. state (k_threads s ! i) \<in> {Runnable, Running} \<longrightarrow> thread_ready E s (k_threads s ! i))"

lemma sched_okD:
  assumes "sched_ok E s"
  shows "length (k_threads s) = NTHREAD" and "length (k_procs s) = NPROCESS"
    and "cur_ok (current_tid (k_cpu s))"
    and "i < NTHREAD \<Longrightarrow> state (k_threads s ! i) = Running \<Longrightarrow> current_tid (k_cpu s) = Some i"
    and "i < NTHREAD \<Longrightarrow> state (k_threads s ! i) \<in> {Runnable, Running} \<Longrightarrow> thread_ready E s (k_threads s ! i)"
    and "current_tid (k_cpu s) = Some c \<Longrightarrow> c < NTHREAD"
  using assms by (auto simp: sched_ok_def tables_ok_def cur_ok_def scan_start_def)

definition thread_cr3 :: "'h kernel \<Rightarrow> thread \<Rightarrow> u64" where
  "thread_cr3 s t = (case t_pid t of
       None \<Rightarrow> (case k_kernel_pt s of None \<Rightarrow> k_cr3 s | Some f \<Rightarrow> f)
     | Some p \<Rightarrow> (case k_procs s ! p of None \<Rightarrow> k_cr3 s
         | Some pr \<Rightarrow> (case page_table pr of None \<Rightarrow> k_cr3 s | Some f \<Rightarrow> f)))"

definition demoted :: "nat option \<Rightarrow> thread list \<Rightarrow> thread list" where
  "demoted cur ts = (case cur of None \<Rightarrow> ts
     | Some c \<Rightarrow> if state (ts ! c) = Running then ts[c := (ts ! c)\<lparr>state := Runnable\<rparr>] else ts)"

lemma make_current_run:
  assumes "n < length (k_threads s)" and "\<And>c. current_tid (k_cpu s) = Some c \<Longrightarrow> c < length (k_threads s)"
  shows "make_current n s = (Ok (), s\<lparr>
      k_threads := demoted (current_tid (k_cpu s)) ((k_threads s)[n := (k_threads s ! n)\<lparr>state := Running\<rparr>]),
      k_cpu := (k_cpu s)\<lparr>current_tid := Some n\<rparr>\<rparr>)"
proof (cases "current_tid (k_cpu s)")
  case None
  then show ?thesis
    using assms by (simp add: make_current_def demoted_def bind_def table_runs on_cpu_def prog)
next
  case (Some c)
  then show ?thesis
    using assms by (simp add: make_current_def demoted_def bind_def table_runs on_cpu_def prog)
qed

lemma enter_thread_run:
  assumes n: "n < length (k_threads s)" and ready: "thread_ready E s (k_threads s ! n)"
    and tabs: "length (k_procs s) = NPROCESS"
  defines "t \<equiv> k_threads s ! n"
  shows "enter_thread E n s = (Ok (), switch_to_thread n (s\<lparr>k_cr3 := thread_cr3 s t,
     k_cpu := (k_cpu s)\<lparr>kernel_syscall_rsp := kstack t, saved_user_rsp := rsp3 (ctx t)\<rparr>,
     k_rsp0 := kstack t - TRAPFRAME_SIZE\<rparr>))"
proof -
  note R = ready [unfolded thread_ready_def, folded t_def]
  have sw: "(if t_pid t \<noteq> None then switch_to_user_page_table t else switch_to_kernel_page_table) s =
      (Ok (), s\<lparr>k_cr3 := thread_cr3 s t\<rparr>)"
  proof (cases "t_pid t")
    case None
    then show ?thesis
      by (simp add: switch_to_kernel_page_table_def thread_cr3_def prog split: option.splits)
  next
    case (Some p)
    then obtain pr f where "p < NPROCESS" "k_procs s ! p = Some pr" "page_table pr = Some f"
      using R by blast
    then show ?thesis
      using Some tabs by (simp add: switch_to_user_page_table_def thread_cr3_def bind_def get_proc_run prog)
  qed
  have "\<not> kstack t < TRAPFRAME_SIZE" using R by (simp add: not_less)
  then show ?thesis
    using R n sw by (simp add: enter_thread_def bind_def get_thread_run on_cpu_def
        arith_sub_def set_privilege_stack_0_def virt_new_def prog flip: t_def)
qed

lemma switch_to_thread_fields [simp]:
  "k_threads (switch_to_thread n s) = k_threads s" "k_procs (switch_to_thread n s) = k_procs s"
  "k_mem (switch_to_thread n s) = k_mem s" "k_cr3 (switch_to_thread n s) = k_cr3 s"
  "k_rsp0 (switch_to_thread n s) = k_rsp0 s" "k_kernel_pt (switch_to_thread n s) = k_kernel_pt s"
  "current_tid (k_cpu (switch_to_thread n s)) = current_tid (k_cpu s)"
  "saved_user_rsp (k_cpu (switch_to_thread n s)) = saved_user_rsp (k_cpu s)"
  "kernel_syscall_rsp (k_cpu (switch_to_thread n s)) = kernel_syscall_rsp (k_cpu s)"
  "k_regs (switch_to_thread n s) = regs.truncate (ctx (k_threads s ! n))"
  "regs.truncate (scheduler (k_cpu (switch_to_thread n s))) = returned (k_regs s) (k_stacks s)"
  by (simp_all add: switch_to_thread_def switch_context_def Let_def regs.defs returned_def)

lemma switch_to_scheduler_fields [simp]:
  "length (k_threads (switch_to_scheduler c s)) = length (k_threads s)"
  "k_procs (switch_to_scheduler c s) = k_procs s"
  "k_mem (switch_to_scheduler c s) = k_mem s" "k_cr3 (switch_to_scheduler c s) = k_cr3 s"
  "k_cpu (switch_to_scheduler c s) = k_cpu s" "k_kernel_pt (switch_to_scheduler c s) = k_kernel_pt s"
  "k_regs (switch_to_scheduler c s) = regs.truncate (scheduler (k_cpu s))"
  by (simp_all add: switch_to_scheduler_def switch_context_def Let_def regs.defs)

lemma switch_to_scheduler_thread:
  assumes "c < length (k_threads s)"
  shows "k_threads (switch_to_scheduler c s) ! j = (if j = c then (k_threads s ! c)
      \<lparr>ctx := ctx (k_threads (switch_to_scheduler c s) ! c)\<rparr> else k_threads s ! j)"
    and "regs.truncate (ctx (k_threads (switch_to_scheduler c s) ! c)) = returned (k_regs s) (k_stacks s)"
    and "rsp3 (ctx (k_threads (switch_to_scheduler c s) ! c)) = rsp3 (ctx (k_threads s ! c))"
  using assms by (simp_all add: switch_to_scheduler_def switch_context_def Let_def regs.defs returned_def)

lemma demoted_simps:
  "length (demoted cur ts) = length ts"
  "j < length ts \<Longrightarrow> demoted cur ts ! j = (if cur = Some j \<and> state (ts ! j) = Running
     then (ts ! j)\<lparr>state := Runnable\<rparr> else ts ! j)"
  by (cases cur; cases "the cur = j"; auto simp: demoted_def)+

lemma thread_ready_cong: "thread_ready E (s\<lparr>k_threads := a, k_cpu := b\<rparr>) (t\<lparr>state := c\<rparr>) = thread_ready E s t"
  by (simp add: thread_ready_def)

lemma thread_cr3_cong: "thread_cr3 (s\<lparr>k_threads := a, k_cpu := b\<rparr>) (t\<lparr>state := c\<rparr>) = thread_cr3 s t"
  by (simp add: thread_cr3_def split: option.splits)

text \<open>A round from a well-formed state never panics: it waits when nothing is runnable, and else
  switches to the thread that the policy picks.\<close>

definition dispatched :: "nat \<Rightarrow> 'h kernel \<Rightarrow> 'h kernel \<Rightarrow> bool" where
  "dispatched n s s' \<longleftrightarrow>
     current_tid (k_cpu s') = Some n \<and> k_cr3 s' = thread_cr3 s (k_threads s ! n) \<and>
     kernel_syscall_rsp (k_cpu s') = kstack (k_threads s ! n) \<and>
     saved_user_rsp (k_cpu s') = rsp3 (ctx (k_threads s ! n)) \<and>
     k_rsp0 s' = kstack (k_threads s ! n) - TRAPFRAME_SIZE \<and>
     k_regs s' = regs.truncate (ctx (k_threads s ! n)) \<and>
     k_procs s' = k_procs s \<and> k_mem s' = k_mem s \<and> length (k_threads s') = length (k_threads s) \<and>
     (\<forall>j<length (k_threads s). k_threads s' ! j = (k_threads s ! j)\<lparr>state :=
        (if current_tid (k_cpu s) = Some j \<and> (j = n \<or> state (k_threads s ! j) = Running) then Runnable
         else if j = n then Running else state (k_threads s ! j))\<rparr>)"

lemma scheduler_round_some:
  assumes ok: "sched_ok E s"
    and pick: "find_next_runnable_thread (k_threads s) (current_tid (k_cpu s)) = Some n"
  obtains s' where "scheduler_round E s = (Ok (Some n), s')" and "dispatched n s s'"
proof -
  note len = sched_okD(1,2) [OF ok] and cur = sched_okD(6) [OF ok]
  have n: "n < NTHREAD" "state (k_threads s ! n) = Runnable"
    using rr.pick_runnable [OF sched_okD(3) [OF ok] pick] by blast+
  let ?ts = "demoted (current_tid (k_cpu s)) ((k_threads s)[n := (k_threads s ! n)\<lparr>state := Running\<rparr>])"
  let ?s1 = "s\<lparr>k_threads := ?ts, k_cpu := (k_cpu s)\<lparr>current_tid := Some n\<rparr>\<rparr>"
  have mk: "make_current n s = (Ok (), ?s1)"
    using n cur by (intro make_current_run) (simp_all add: len)
  have tn: "?ts ! n = (k_threads s ! n)\<lparr>state := (if current_tid (k_cpu s) = Some n then Runnable else Running)\<rparr>"
    using n by (simp add: demoted_simps len)
  have ready: "thread_ready E ?s1 (k_threads ?s1 ! n)"
    using sched_okD(5) [OF ok n(1)] n by (simp add: tn thread_ready_cong)
  have "enter_thread E n ?s1 = (Ok (), switch_to_thread n (?s1\<lparr>k_cr3 := thread_cr3 ?s1 (?ts ! n),
     k_cpu := (k_cpu ?s1)\<lparr>kernel_syscall_rsp := kstack (?ts ! n), saved_user_rsp := rsp3 (ctx (?ts ! n))\<rparr>,
     k_rsp0 := kstack (?ts ! n) - TRAPFRAME_SIZE\<rparr>))" (is "_ = (Ok (), ?s')")
    using enter_thread_run [OF _ ready] n by (simp add: demoted_simps len)
  then have "scheduler_round E s = (Ok (Some n), ?s')"
    using mk pick by (simp add: scheduler_round_def)
  moreover have "dispatched n s ?s'"
    unfolding dispatched_def
  proof (intro conjI allI impI)
    show "k_cr3 ?s' = thread_cr3 s (k_threads s ! n)" by (simp add: tn thread_cr3_cong)
    fix j assume j: "j < length (k_threads s)"
    show "k_threads ?s' ! j = (k_threads s ! j)\<lparr>state :=
        (if current_tid (k_cpu s) = Some j \<and> (j = n \<or> state (k_threads s ! j) = Running) then Runnable
         else if j = n then Running else state (k_threads s ! j))\<rparr>"
      using j n by (cases "j = n") (auto simp: demoted_simps nth_list_update)
  qed (simp_all add: tn demoted_simps)
  ultimately show ?thesis using that by blast
qed

lemma scheduler_round_none:
  assumes "find_next_runnable_thread (k_threads s) (current_tid (k_cpu s)) = None"
  shows "scheduler_round E s = (Ok None, s\<lparr>k_if := True\<rparr>)"
  using assms by (simp add: scheduler_round_def set_interrupts_def)

text \<open>The invariant is kept, whatever the round does.\<close>

lemma dispatched_sched_ok:
  assumes ok: "sched_ok E s" and n: "n < NTHREAD" "state (k_threads s ! n) = Runnable" and d: "dispatched n s s'"
  shows "sched_ok E s'"
proof -
  note len = sched_okD(1,2) [OF ok] and D = d [unfolded dispatched_def len]
  have th: "k_threads s' ! j = (k_threads s ! j)\<lparr>state :=
        (if current_tid (k_cpu s) = Some j \<and> (j = n \<or> state (k_threads s ! j) = Running) then Runnable
         else if j = n then Running else state (k_threads s ! j))\<rparr>" if "j < NTHREAD" for j
    using D that by blast
  have procs: "k_procs s' = k_procs s" and cur': "current_tid (k_cpu s') = Some n"
    and len': "length (k_threads s') = NTHREAD"
    using D by blast+
  have rdy: "thread_ready E s' (t\<lparr>state := x\<rparr>) = thread_ready E s t" for t x
    by (simp add: thread_ready_def procs)
  have "current_tid (k_cpu s') = Some j" if "j < NTHREAD" "state (k_threads s' ! j) = Running" for j
  proof (cases "j = n")
    case False
    then have "state (k_threads s ! j) = Running \<and> current_tid (k_cpu s) \<noteq> Some j"
      using th [OF that(1)] that(2) by (auto split: if_splits)
    then show ?thesis using sched_okD(4) [OF ok that(1)] by blast
  qed (simp add: cur')
  moreover have "thread_ready E s' (k_threads s' ! j)"
    if "j < NTHREAD" "state (k_threads s' ! j) \<in> {Runnable, Running}" for j
  proof -
    have "state (k_threads s ! j) \<in> {Runnable, Running}"
      using th [OF that(1)] that(2) n by (auto split: if_splits)
    then show ?thesis using sched_okD(5) [OF ok that(1)] th [OF that(1)] rdy by simp
  qed
  moreover have "cur_ok (current_tid (k_cpu s'))"
    using n by (simp add: cur' cur_ok_def scan_start_def)
  ultimately show ?thesis
    by (auto simp: sched_ok_def tables_ok_def len' procs len)
qed

lemma scheduler_round_ok:
  assumes ok: "sched_ok E s"
  obtains r s' where "scheduler_round E s = (Ok r, s')" and "sched_ok E s'"
proof (cases "find_next_runnable_thread (k_threads s) (current_tid (k_cpu s))")
  case None
  moreover have "sched_ok E (s\<lparr>k_if := True\<rparr>)"
    using ok by (simp add: sched_ok_def tables_ok_def thread_ready_def)
  ultimately show ?thesis using that scheduler_round_none by blast
next
  case (Some n)
  obtain s' where s': "scheduler_round E s = (Ok (Some n), s')" and d: "dispatched n s s'"
    using scheduler_round_some [OF ok Some] .
  have "n < NTHREAD" "state (k_threads s ! n) = Runnable"
    using rr.pick_runnable [OF _ Some] ok by (auto simp: sched_ok_def)
  then show ?thesis using that s' dispatched_sched_ok [OF ok _ _ d] by blast
qed

section \<open>Yielding and coming back\<close>

definition kernel_cr3 :: "'h kernel \<Rightarrow> u64" where
  "kernel_cr3 s = (case k_kernel_pt s of None \<Rightarrow> k_cr3 s | Some f \<Rightarrow> f)"

lemma switch_kernel_run: "switch_to_kernel_page_table s = (Ok (), s\<lparr>k_cr3 := kernel_cr3 s\<rparr>)"
  by (simp add: switch_to_kernel_page_table_def kernel_cr3_def prog split: option.splits)

text \<open>Thread \<open>c\<close> has gone back to the scheduler: its registers are in its context, the scheduler's are
  in the processor, and the other threads are untouched.\<close>

definition suspended :: "nat \<Rightarrow> thread_state \<Rightarrow> u64 \<Rightarrow> 'h kernel \<Rightarrow> 'h kernel \<Rightarrow> bool" where
  "suspended c st usp s s' \<longleftrightarrow>
     current_tid (k_cpu s') = Some c \<and> k_cr3 s' = kernel_cr3 s \<and> k_procs s' = k_procs s \<and>
     k_regs s' = regs.truncate (scheduler (k_cpu s)) \<and> length (k_threads s') = length (k_threads s) \<and>
     (\<exists>x. k_threads s' ! c = (k_threads s ! c)\<lparr>state := st, ctx := x\<rparr> \<and>
       regs.truncate x = returned (k_regs s) (k_stacks s) \<and> rsp3 x = usp) \<and>
     (\<forall>j<length (k_threads s). j \<noteq> c \<longrightarrow> k_threads s' ! j = k_threads s ! j)"

lemma suspendedI:
  assumes c: "c < length (k_threads s)" and s1: "k_threads s1 = (k_threads s)[c := t]"
    and t: "t = (k_threads s ! c)\<lparr>state := st, ctx := (ctx (k_threads s ! c))\<lparr>rsp3 := usp\<rparr>\<rparr>"
    and cur: "current_tid (k_cpu s) = Some c" and cpu: "k_cpu s1 = k_cpu s"
    and cr3: "k_cr3 s1 = kernel_cr3 s" and procs: "k_procs s1 = k_procs s"
    and rs: "k_regs s1 = k_regs s" "k_stacks s1 = k_stacks s"
  shows "suspended c st usp s (switch_to_scheduler c s1)"
proof -
  let ?s' = "switch_to_scheduler c s1"
  have c1: "c < length (k_threads s1)" using c s1 by simp
  note T = switch_to_scheduler_thread [OF c1]
  have "k_threads ?s' ! c = t\<lparr>ctx := ctx (k_threads ?s' ! c)\<rparr>"
    using T(1) [of c] s1 c by simp
  moreover have "k_threads ?s' ! j = k_threads s ! j" if "j \<noteq> c" for j
    using T(1) [of j] s1 that by simp
  moreover have "rsp3 (ctx (k_threads ?s' ! c)) = usp" using T(3) s1 c t by simp
  moreover have "regs.truncate (ctx (k_threads ?s' ! c)) = returned (k_regs s) (k_stacks s)"
    using T(2) rs by simp
  ultimately show ?thesis
    unfolding suspended_def using cur cpu cr3 procs s1 t by auto
qed

lemma on_yield_run:
  assumes cur: "current_tid (k_cpu s) = Some c" and c: "c < length (k_threads s)"
    and run: "state (k_threads s ! c) = Running"
  obtains s' where "on_yield s = (Ok True, s')"
    and "suspended c Runnable (rsp3 (ctx (k_threads s ! c))) s s'"
proof -
  let ?s1 = "s\<lparr>k_if := False, k_cr3 := kernel_cr3 s,
      k_threads := (k_threads s)[c := (k_threads s ! c)\<lparr>state := Runnable\<rparr>]\<rparr>"
  have K: "kernel_cr3 (s\<lparr>k_if := b\<rparr>) = kernel_cr3 s" for b
    by (simp add: kernel_cr3_def split: option.splits)
  have "on_yield s = (Ok True, switch_to_scheduler c ?s1)"
    using cur c run by (simp add: on_yield_def set_interrupts_def switch_kernel_run bind_def
        get_thread_run set_thread_run gets_def modify_def K)
  moreover have "suspended c Runnable (rsp3 (ctx (k_threads s ! c))) s (switch_to_scheduler c ?s1)"
    by (rule suspendedI) (use c cur in simp_all)
  ultimately show ?thesis using that by blast
qed

lemma on_syscall_yield_run:
  assumes cur: "current_tid (k_cpu s) = Some c" and c: "c < length (k_threads s)"
  obtains s' where "on_syscall_yield s = (Ok True, s')"
    and "suspended c (state (k_threads s ! c)) (saved_user_rsp (k_cpu s)) s s'"
proof -
  let ?s1 = "s\<lparr>k_if := False, k_cr3 := kernel_cr3 s,
      k_threads := (k_threads s)[c := (k_threads s ! c)\<lparr>ctx := (ctx (k_threads s ! c))\<lparr>rsp3 := saved_user_rsp (k_cpu s)\<rparr>\<rparr>],
      k_kernel_gs := \<not> k_kernel_gs s\<rparr>"
  have K: "kernel_cr3 (s\<lparr>k_if := b\<rparr>) = kernel_cr3 s" for b
    by (simp add: kernel_cr3_def split: option.splits)
  have "on_syscall_yield s = (Ok True, switch_to_scheduler c ?s1)"
    using cur c by (simp add: on_syscall_yield_def set_interrupts_def switch_kernel_run bind_def
        update_thread_run gets_def modify_def swapgs_def K)
  moreover have "suspended c (state (k_threads s ! c)) (saved_user_rsp (k_cpu s)) s (switch_to_scheduler c ?s1)"
    by (rule suspendedI) (use c cur in simp_all)
  ultimately show ?thesis using that by blast
qed

lemma syscall_yield_swaps:
  assumes "on_syscall_yield s = (Ok True, s')"
  shows "k_kernel_gs s' = (\<not> k_kernel_gs s)"
proof -
  obtain c where c: "current_tid (k_cpu s) = Some c"
    using assms by (cases "current_tid (k_cpu s)")
      (auto simp: on_syscall_yield_def set_interrupts_def switch_kernel_run bind_def gets_def modify_def)
  have "c < length (k_threads s)"
    using assms c by (auto simp: on_syscall_yield_def set_interrupts_def switch_kernel_run bind_def update_thread_def
        get_thread_def index_def panic_def gets_def modify_def split: if_splits)
  then show ?thesis
    using assms c by (auto simp: on_syscall_yield_def set_interrupts_def switch_kernel_run bind_def
        update_thread_run gets_def modify_def swapgs_def switch_to_scheduler_def split: prod.splits)
qed

lemma suspended_sched_ok:
  assumes ok: "sched_ok E s" and cur: "current_tid (k_cpu s) = Some c" and d: "suspended c st usp s s'"
    and st: "st = Runnable \<Longrightarrow> state (k_threads s ! c) \<in> {Runnable, Running}"
      "st = Running \<Longrightarrow> state (k_threads s ! c) = Running"
  shows "sched_ok E s'"
proof -
  note len = sched_okD(1,2) [OF ok] and D = d [unfolded suspended_def]
  have c: "c < NTHREAD" using sched_okD(6) [OF ok cur] .
  obtain x where x: "k_threads s' ! c = (k_threads s ! c)\<lparr>state := st, ctx := x\<rparr>" using D by blast
  have other: "k_threads s' ! j = k_threads s ! j" if "j < NTHREAD" "j \<noteq> c" for j
    using D that len by simp
  have procs: "k_procs s' = k_procs s" and cur': "current_tid (k_cpu s') = Some c"
    and len': "length (k_threads s') = NTHREAD"
    using D len by auto
  have rdy: "thread_ready E s' t = thread_ready E s t" for t
    by (simp add: thread_ready_def procs)
  have rdyc: "thread_ready E s (t\<lparr>state := st, ctx := x\<rparr>) = thread_ready E s t" for t
    by (simp add: thread_ready_def)
  have "current_tid (k_cpu s') = Some j" if "j < NTHREAD" "state (k_threads s' ! j) = Running" for j
  proof (cases "j = c")
    case False
    then show ?thesis
      using sched_okD(4) [OF ok that(1)] other [OF that(1)] that(2) cur by simp
  qed (simp add: cur')
  moreover have "thread_ready E s' (k_threads s' ! j)"
    if "j < NTHREAD" "state (k_threads s' ! j) \<in> {Runnable, Running}" for j
  proof (cases "j = c")
    case True
    then have "state (k_threads s ! c) \<in> {Runnable, Running}" using x st that(2) by auto
    then show ?thesis using True sched_okD(5) [OF ok c] x by (simp add: rdy rdyc)
  next
    case False
    then show ?thesis using sched_okD(5) [OF ok that(1)] other [OF that(1)] that(2) by (simp add: rdy)
  qed
  ultimately show ?thesis
    using c by (auto simp: sched_ok_def tables_ok_def len' procs len cur' cur_ok_def scan_start_def)
qed

text \<open>One turn of another thread \<open>n\<close>: the scheduler picks it, it works, and it goes back. While it works,
  the saved context of the suspended thread \<open>c\<close> is not its own to change.\<close>

definition leaves :: "nat \<Rightarrow> 'h kernel \<Rightarrow> 'h kernel \<Rightarrow> bool" where
  "leaves c a b \<longleftrightarrow> current_tid (k_cpu b) = current_tid (k_cpu a) \<and> length (k_threads b) = length (k_threads a) \<and>
     ctx (k_threads b ! c) = ctx (k_threads a ! c)"

inductive turn :: "'h env \<Rightarrow> nat \<Rightarrow> 'h kernel \<Rightarrow> 'h kernel \<Rightarrow> bool" for E c where
  by_yield: "scheduler_round E s = (Ok (Some n), a) \<Longrightarrow> n \<noteq> c \<Longrightarrow> leaves c a b \<Longrightarrow> sched_ok E b \<Longrightarrow>
    state (k_threads b ! n) = Running \<Longrightarrow> on_yield b = (Ok True, s') \<Longrightarrow> turn E c s s'"
| by_syscall: "scheduler_round E s = (Ok (Some n), a) \<Longrightarrow> n \<noteq> c \<Longrightarrow> leaves c a b \<Longrightarrow> sched_ok E b \<Longrightarrow>
    on_syscall_yield b = (Ok True, s') \<Longrightarrow> turn E c s s'"

inductive turns_of_others :: "'h env \<Rightarrow> nat \<Rightarrow> 'h kernel \<Rightarrow> 'h kernel \<Rightarrow> bool" for E c where
  none: "turns_of_others E c s s"
| more: "turn E c s t \<Longrightarrow> turns_of_others E c t u \<Longrightarrow> turns_of_others E c s u"

inductive_cases turnE: "turn E c s s'"

lemma round_pick:
  assumes ok: "sched_ok E s" and run: "scheduler_round E s = (Ok (Some n), s')"
  shows "n < NTHREAD" and "dispatched n s s'"
proof -
  let ?pick = "find_next_runnable_thread (k_threads s) (current_tid (k_cpu s))"
  have "?pick \<noteq> None" using scheduler_round_none [of s E] run by auto
  then obtain k where k: "?pick = Some k" by blast
  obtain t where "scheduler_round E s = (Ok (Some k), t)" and d: "dispatched k s t"
    using scheduler_round_some [OF ok k] .
  then have [simp]: "k = n" "t = s'" using run by simp_all
  show "n < NTHREAD" using rr.pick_runnable [OF sched_okD(3) [OF ok] k] by simp
  show "dispatched n s s'" using d by simp
qed

lemma turn_keeps:
  assumes "turn E c s s'" and ok: "sched_ok E s" and c: "c < NTHREAD"
  shows "sched_ok E s' \<and> ctx (k_threads s' ! c) = ctx (k_threads s ! c)"
  using assms(1)
proof cases
  case (by_yield n a b)
  note d = round_pick [OF ok by_yield(1)]
  have cur: "current_tid (k_cpu b) = Some n" and lb: "length (k_threads b) = NTHREAD"
    using d by_yield sched_okD(1) [OF ok] by (simp_all add: leaves_def dispatched_def)
  obtain s1 where "on_yield b = (Ok True, s1)" and S: "suspended n Runnable (rsp3 (ctx (k_threads b ! n))) b s1"
    using on_yield_run [OF cur] d(1) lb by_yield(5) by auto
  then have [simp]: "s1 = s'" using by_yield(6) by simp
  have "ctx (k_threads s' ! c) = ctx (k_threads s ! c)"
    using S d by_yield(2,3) c lb sched_okD(1) [OF ok] by (simp add: suspended_def leaves_def dispatched_def)
  then show ?thesis
    using suspended_sched_ok [OF by_yield(4) cur S] by_yield(5) by simp
next
  case (by_syscall n a b)
  note d = round_pick [OF ok by_syscall(1)]
  have cur: "current_tid (k_cpu b) = Some n" and lb: "length (k_threads b) = NTHREAD"
    using d by_syscall sched_okD(1) [OF ok] by (simp_all add: leaves_def dispatched_def)
  obtain s1 where "on_syscall_yield b = (Ok True, s1)"
    and S: "suspended n (state (k_threads b ! n)) (saved_user_rsp (k_cpu b)) b s1"
    using on_syscall_yield_run [OF cur] d(1) lb by auto
  then have [simp]: "s1 = s'" using by_syscall(5) by simp
  have "ctx (k_threads s' ! c) = ctx (k_threads s ! c)"
    using S d by_syscall(2,3) c lb sched_okD(1) [OF ok] by (simp add: suspended_def leaves_def dispatched_def)
  then show ?thesis
    using suspended_sched_ok [OF by_syscall(4) cur S] by simp
qed

lemma turns_keep:
  "turns_of_others E c s s' \<Longrightarrow> sched_ok E s \<Longrightarrow> c < NTHREAD \<Longrightarrow>
   sched_ok E s' \<and> ctx (k_threads s' ! c) = ctx (k_threads s ! c)"
proof (induction rule: turns_of_others.induct)
  case (more s t u)
  then show ?case using turn_keeps [OF more.hyps(1)] by simp
qed simp

text \<open>A suspended thread comes back to where it was, with its stack and its callee-saved registers.\<close>

lemma suspended_resumes:
  assumes S: "suspended c st usp s s1" and ok: "sched_ok E s1" and c: "c < NTHREAD"
    and others: "turns_of_others E c s1 s2" and run: "scheduler_round E s2 = (Ok (Some c), s3)"
  shows "k_regs s3 = returned (k_regs s) (k_stacks s)" and "saved_user_rsp (k_cpu s3) = usp"
    and "sched_ok E s3"
proof -
  note K = turns_keep [OF others ok c]
  note d = round_pick(2) [OF conjunct1 [OF K] run]
  obtain x where x: "k_threads s1 ! c = (k_threads s ! c)\<lparr>state := st, ctx := x\<rparr>"
    and rx: "regs.truncate x = returned (k_regs s) (k_stacks s)" "rsp3 x = usp"
    using S by (auto simp: suspended_def)
  have "ctx (k_threads s2 ! c) = x" using K x by simp
  then show "k_regs s3 = returned (k_regs s) (k_stacks s)" "saved_user_rsp (k_cpu s3) = usp"
    using d rx by (simp_all add: dispatched_def)
  show "sched_ok E s3"
    using scheduler_round_ok [of E s2] K run by fastforce
qed

end
