(* ===== verification/Process.thy ===== *)
theory Process
  imports Scheduler
begin

text \<open>
  User processes: kernel/src/thread/uprocess/mod.rs and the thread creation of
  thread/uprocess/uthread.rs. A process is allocated with its first thread and a kernel stack for
  it, entered into the process table, and its threads are made runnable; \<open>free_process\<close> takes a
  zombie apart. \<open>create_user_process_from_path\<close> is in the theory Exec.
\<close>

section \<open>Allocating a process\<close>

definition of_res :: "'b res \<Rightarrow> ('s, 'b) program" where
  "of_res r = (\<lambda>s. (r, s))"

definition add_thread :: "nat \<Rightarrow> process \<Rightarrow> process res" where
  "add_thread i p =
     (if NTHREAD_PER_PROCESS \<le> nthread p then Err ''too many threads in process''
      else Ok (p\<lparr>threads := (threads p)[nthread p := Some i], nthread := nthread p + 1\<rparr>))"

definition create_user_thread :: "'h env \<Rightarrow> ('h, thread) kprog" where
  "create_user_thread E =
     bind next_tid (\<lambda>i. bind (ok_or ''Thread table is full'' i) (\<lambda>i.
     bind (setup_kstack E (new_thread\<lparr>tid := i, state := Embryo\<rparr>)) (\<lambda>t.
     ret (t\<lparr>ctx := (ctx t)\<lparr>rip := ring3_entry_addr E, rflags := 0x200, cs := user_cs E, ss := user_ss E,
                          rsp3 := USER_STACK_TOP, user_rip := USER_CODE_START\<rparr>\<rparr>))))"

definition next_pid :: "('h, nat) kprog" where
  "next_pid = bind (gets (\<lambda>s. first_index (NPROCESS - 1) (\<lambda>i. k_procs s ! i = None)))
     (ok_or ''Process table is full'')"

definition alloc_proc :: "'h env \<Rightarrow> ('h, process) kprog" where
  "alloc_proc E =
     bind next_pid (\<lambda>i.
     bind (create_user_thread E) (\<lambda>t0. let t = t0\<lparr>t_pid := Some i\<rparr> in
     bind (of_res (add_thread (tid t) (new_process\<lparr>pid := i, p_state := Alive\<rparr>))) (\<lambda>p.
     bind (set_thread (tid t) t) (\<lambda>_. ret p))))"

definition add_to_process_table :: "process \<Rightarrow> ('h, unit) kprog" where
  "add_to_process_table p =
     (if NPROCESS \<le> pid p then throw ''Process table is full'' else set_proc (pid p) (Some p))"

definition mark_threads_as_runnable :: "process \<Rightarrow> ('h, unit) kprog" where
  "mark_threads_as_runnable p = foreach (threads p) (\<lambda>x. case x of
       None \<Rightarrow> ret ()
     | Some i \<Rightarrow> if NTHREAD < i then throw ''tid > NTHREAD''
                 else update_thread i (\<lambda>t. t\<lparr>state := Runnable\<rparr>))"

section \<open>Freeing a process\<close>

text \<open>\<open>process.threads.into_iter().flatten()\<close>.\<close>

definition flatten :: "'b option list \<Rightarrow> 'b list" where
  "flatten xs = concat (map (\<lambda>x. case x of None \<Rightarrow> [] | Some a \<Rightarrow> [a]) xs)"

definition free_thread :: "'h env \<Rightarrow> nat \<Rightarrow> nat \<Rightarrow> ('h, unit) kprog" where
  "free_thread E p i =
     (if NTHREAD \<le> i then throw ''tid >= NTHREAD''
      else bind (get_thread i) (\<lambda>t.
           if t_pid t \<noteq> Some p then throw ''thread does not belong to process''
           else bind (if kstack t \<noteq> 0
                  then bind (arith_sub E (kstack t) STACK_SIZE) (\<lambda>base.
                       modify (\<lambda>s. s\<lparr>k_heap := kfree E base (k_heap s)\<rparr>))
                  else ret ()) (\<lambda>_.
           set_thread i new_thread)))"

definition free_process :: "'h env \<Rightarrow> process \<Rightarrow> ('h, unit) kprog" where
  "free_process E p =
     bind (foreach (flatten (threads p)) (free_thread E (pid p))) (\<lambda>_.
     bind (case page_table p of
         None \<Rightarrow> ret ()
       | Some f \<Rightarrow>
           bind (gets k_cr3) (\<lambda>cr3.
           if cr3 = f then throw ''cannot free cr3 active page table''
           else bind (gets k_frames_ready) (\<lambda>b.
                if \<not> b then throw ''FRAME_ALLOCATOR not initialized''
                else on_mem (free_uvm (crate E) deallocate_frame f)))) (\<lambda>_.
     set_proc (pid p) (Some new_process)))"

section \<open>Runs of these operations\<close>

lemma next_pid_run: "next_pid s = (case first_index (NPROCESS - 1) (\<lambda>i. k_procs s ! i = None) of
     None \<Rightarrow> (Err ''Process table is full'', s) | Some i \<Rightarrow> (Ok i, s))"
  by (simp add: next_pid_def split: option.splits)

lemma next_pid_free:
  assumes "next_pid s = (Ok i, s')"
  shows "i < NPROCESS - 1 \<and> k_procs s ! i = None \<and> s' = s"
  using assms by (simp add: next_pid_run first_index_Some_iff split: option.splits)

text \<open>A PID slot that holds a process structure, freed or not, is never given out again.\<close>

lemma next_pid_skips: "k_procs s ! i \<noteq> None \<Longrightarrow> next_pid s \<noteq> (Ok i, s')"
  using next_pid_free by fastforce

text \<open>What a new kernel stack looks like: its block, and the trap frame at its top.\<close>

definition stack_top :: "u64 \<Rightarrow> u64" where
  "stack_top b = b + STACK_SIZE"

definition block_ok :: "u64 \<Rightarrow> bool" where
  "block_ok b \<longleftrightarrow> unat b + unat STACK_SIZE < 2 ^ 64"

lemma STACK_SIZE_nat: "unat STACK_SIZE = 32768"
  by (simp add: STACK_SIZE_def)

lemma TRAPFRAME_SIZE_nat: "unat TRAPFRAME_SIZE = 112"
  by (simp add: TRAPFRAME_SIZE_def)

lemma stack_top_nat: "block_ok b \<Longrightarrow> unat (stack_top b) = unat b + 32768"
  using checked_add_SomeD [of b STACK_SIZE "stack_top b"]
  by (simp add: block_ok_def stack_top_def checked_add_def STACK_SIZE_nat)

lemma setup_kstack_run:
  assumes "kalloc E (k_heap s) = (b, h)" and "block_ok b"
  shows "setup_kstack E t s =
    (Ok (t\<lparr>kstack := stack_top b, ctx := (ctx t)\<lparr>rsp := stack_top b\<rparr>, tf := Some (stack_top b - TRAPFRAME_SIZE)\<rparr>),
     s\<lparr>k_heap := h, k_stacks := tf_store (stack_top b - TRAPFRAME_SIZE) new_trap_frame (k_stacks s)\<rparr>)"
proof -
  have "checked_add b STACK_SIZE \<noteq> None"
    using assms(2) by (simp add: checked_add_def block_ok_def)
  moreover have "\<not> b + STACK_SIZE < TRAPFRAME_SIZE"
    using stack_top_nat [OF assms(2)] by (simp add: word_less_nat_alt stack_top_def TRAPFRAME_SIZE_nat)
  ultimately show ?thesis
    using assms(1) by (simp add: setup_kstack_def bind_def arith_add_def arith_sub_def modify_def stack_top_def)
qed

definition fresh_thread :: "'h env \<Rightarrow> nat \<Rightarrow> nat \<Rightarrow> u64 \<Rightarrow> thread" where
  "fresh_thread E i p b = new_thread\<lparr>tid := i, t_pid := Some p, state := Embryo, kstack := stack_top b,
     tf := Some (stack_top b - TRAPFRAME_SIZE),
     ctx := new_context\<lparr>rsp := stack_top b, rip := ring3_entry_addr E, rflags := 0x200, cs := user_cs E,
       ss := user_ss E, rsp3 := USER_STACK_TOP, user_rip := USER_CODE_START\<rparr>\<rparr>"

definition fresh_process :: "nat \<Rightarrow> nat \<Rightarrow> process" where
  "fresh_process p i = new_process\<lparr>pid := p, p_state := Alive,
     threads := Some i # replicate (NTHREAD_PER_PROCESS - 1) None, nthread := 1\<rparr>"

text \<open>\<open>alloc_proc\<close> reserves the first free PID and the first unused thread, and nothing else changes.\<close>

lemma alloc_proc_run:
  assumes "tables_ok s"
    and p: "first_index (NPROCESS - 1) (\<lambda>i. k_procs s ! i = None) = Some p"
    and i: "first_index (NTHREAD - 1) (\<lambda>i. state (k_threads s ! i) = Unused) = Some i"
    and b: "kalloc E (k_heap s) = (b, h)" "block_ok b"
  shows "alloc_proc E s = (Ok (fresh_process p i), s\<lparr>k_heap := h,
     k_stacks := tf_store (stack_top b - TRAPFRAME_SIZE) new_trap_frame (k_stacks s),
     k_threads := (k_threads s)[i := fresh_thread E i p b]\<rparr>)"
proof -
  have i63: "i < length (k_threads s)"
    using i assms(1) by (auto simp: first_index_Some_iff tables_ok_def)
  have first: "(replicate NTHREAD_PER_PROCESS None)[0 := x] = x # replicate (NTHREAD_PER_PROCESS - 1) None"
      and pos: "\<not> NTHREAD_PER_PROCESS \<le> 0" for x :: "nat option"
    by (simp_all add: NTHREAD_PER_PROCESS_def numeral_eq_Suc)
  show ?thesis
    using p i i63 setup_kstack_run [OF b] pos
    by (simp add: alloc_proc_def next_pid_run create_user_thread_def next_tid_run bind_def of_res_def
        add_thread_def new_process_def set_thread_run fresh_process_def first Let_def
        fresh_thread_def new_thread_def new_context_def)
qed

lemma alloc_proc_full:
  "first_index (NPROCESS - 1) (\<lambda>i. k_procs s ! i = None) = None \<Longrightarrow>
     alloc_proc E s = (Err ''Process table is full'', s)"
  "first_index (NPROCESS - 1) (\<lambda>i. k_procs s ! i = None) = Some p \<Longrightarrow>
   first_index (NTHREAD - 1) (\<lambda>i. state (k_threads s ! i) = Unused) = None \<Longrightarrow>
     alloc_proc E s = (Err ''Thread table is full'', s)"
  by (simp_all add: alloc_proc_def next_pid_run create_user_thread_def next_tid_run bind_def)

lemma foreach_none: "foreach (replicate n None) (\<lambda>x. case x of None \<Rightarrow> ret () | Some i \<Rightarrow> f i) s = (Ok (), s)"
  by (induction n) simp_all

lemma mark_fresh_run:
  assumes "i < length (k_threads s)" and "i \<le> NTHREAD" and "threads p = Some i # replicate n None"
  shows "mark_threads_as_runnable p s =
    (Ok (), s\<lparr>k_threads := (k_threads s)[i := (k_threads s ! i)\<lparr>state := Runnable\<rparr>]\<rparr>)"
  using assms foreach_none by (simp add: mark_threads_as_runnable_def bind_def update_thread_run)

end
