(* ===== verification/Subtree.thy ===== *)
theory Subtree
  imports Uvm
begin

text \<open>
  The frames below a table, listed in the order in which the nested loops of \<open>free_uvm\<close> and
  \<open>copy_uvm\<close> visit the entries, and what \<open>free_uvm\<close> does to them: every table and every data
  frame of the user half, each once, and the top table, go back to the allocator.
\<close>

section \<open>The frames below a table\<close>

definition below_at ::
  "x86 \<Rightarrow> (phys_mem \<Rightarrow> u64 \<Rightarrow> u64 list) \<Rightarrow> phys_mem \<Rightarrow> u64 \<Rightarrow> nat \<Rightarrow> u64 list" where
  "below_at X sub m t i =
     (if present X (m t i) then pte_addr X (m t i) # sub m (pte_addr X (m t i)) else [])"

primrec below :: "x86 \<Rightarrow> nat \<Rightarrow> nat list \<Rightarrow> phys_mem \<Rightarrow> u64 \<Rightarrow> u64 list" where
  "below X 0 is = (\<lambda>m t. concat (map (below_at X (\<lambda>_ _. []) m t) is))"
| "below X (Suc lv) is = (\<lambda>m t. concat (map (below_at X (below X lv [0..<512]) m t) is))"

definition plain_at ::
  "x86 \<Rightarrow> (phys_mem \<Rightarrow> u64 \<Rightarrow> bool) \<Rightarrow> phys_mem \<Rightarrow> u64 \<Rightarrow> nat \<Rightarrow> bool" where
  "plain_at X sub m t i \<longleftrightarrow> (present X (m t i) \<longrightarrow>
     \<not> contains (pte_flags X (m t i)) HUGE_PAGE \<and> sub m (pte_addr X (m t i)))"

primrec plain :: "x86 \<Rightarrow> nat \<Rightarrow> nat list \<Rightarrow> phys_mem \<Rightarrow> u64 \<Rightarrow> bool" where
  "plain X 0 is = (\<lambda>m t. \<forall>i\<in>set is. plain_at X (\<lambda>_ _. True) m t i)"
| "plain X (Suc lv) is = (\<lambda>m t. \<forall>i\<in>set is. plain_at X (plain X lv [0..<512]) m t i)"

text \<open>Both only depend on the table's entries and on the frames below it.\<close>

definition local_to :: "(phys_mem \<Rightarrow> u64 \<Rightarrow> u64 list) \<Rightarrow> (phys_mem \<Rightarrow> u64 \<Rightarrow> 'b) \<Rightarrow> bool" where
  "local_to sub h \<longleftrightarrow>
     (\<forall>m m' u. m' u = m u \<and> (\<forall>g\<in>set (sub m u). m' g = m g) \<longrightarrow> h m' u = h m u)"

lemma local_toD:
  "local_to sub h \<Longrightarrow> m' u = m u \<Longrightarrow> (\<And>g. g \<in> set (sub m u) \<Longrightarrow> m' g = m g) \<Longrightarrow> h m' u = h m u"
  by (auto simp: local_to_def)

lemma below_at_cong:
  assumes "local_to sub sub" and "m' t i = m t i"
    and "\<And>g. g \<in> set (below_at X sub m t i) \<Longrightarrow> m' g = m g"
  shows "below_at X sub m' t i = below_at X sub m t i"
proof (cases "present X (m t i)")
  case True
  then have "sub m' (pte_addr X (m t i)) = sub m (pte_addr X (m t i))"
    using assms(3) by (intro local_toD [OF assms(1)]) (auto simp: below_at_def)
  then show ?thesis by (simp add: below_at_def assms(2))
qed (simp add: below_at_def assms(2))

lemma plain_at_cong:
  assumes "local_to sub pl" and "m' t i = m t i"
    and "\<And>g. g \<in> set (below_at X sub m t i) \<Longrightarrow> m' g = m g"
  shows "plain_at X pl m' t i = plain_at X pl m t i"
proof (cases "present X (m t i)")
  case True
  then have "pl m' (pte_addr X (m t i)) = pl m (pte_addr X (m t i))"
    using assms(3) by (intro local_toD [OF assms(1)]) (auto simp: below_at_def)
  then show ?thesis by (simp add: plain_at_def assms(2))
qed (simp add: plain_at_def assms(2))

lemma local_map:
  assumes "local_to sub sub"
  shows "local_to (\<lambda>m t. concat (map (below_at X sub m t) is))
    (\<lambda>m t. concat (map (below_at X sub m t) is))"
  unfolding local_to_def
proof (intro allI impI, elim conjE)
  fix m m' :: phys_mem and t
  assume t: "m' t = m t" and all: "\<forall>g\<in>set (concat (map (below_at X sub m t) is)). m' g = m g"
  have "map (below_at X sub m' t) is = map (below_at X sub m t) is"
    by (rule map_cong [OF refl], rule below_at_cong [OF assms]) (use t all in auto)
  then show "concat (map (below_at X sub m' t) is) = concat (map (below_at X sub m t) is)"
    by (rule arg_cong)
qed

lemma local_all:
  assumes "local_to sub pl"
  shows "local_to (\<lambda>m t. concat (map (below_at X sub m t) is))
    (\<lambda>m t. \<forall>i\<in>set is. plain_at X pl m t i)"
  unfolding local_to_def
proof (intro allI impI, elim conjE)
  fix m m' :: phys_mem and t
  assume t: "m' t = m t" and all: "\<forall>g\<in>set (concat (map (below_at X sub m t) is)). m' g = m g"
  have "plain_at X pl m' t i = plain_at X pl m t i" if "i \<in> set is" for i
    by (rule plain_at_cong [OF assms]) (use t all that in auto)
  then show "(\<forall>i\<in>set is. plain_at X pl m' t i) = (\<forall>i\<in>set is. plain_at X pl m t i)"
    by simp
qed

lemma local_const: "local_to sub (\<lambda>_ _. c)"
  by (simp add: local_to_def)

lemma local_below: "local_to (below X lv is) (below X lv is)"
  by (induction lv arbitrary: "is") (simp_all add: local_map local_const)

lemma local_plain: "local_to (below X lv is) (plain X lv is)"
  by (induction lv arbitrary: "is") (simp_all add: local_all local_const)

section \<open>Paths and frames\<close>

text \<open>The frames below a table are the ends of the paths that start at it.\<close>

primrec paths_below :: "x86 \<Rightarrow> nat \<Rightarrow> nat list \<Rightarrow> phys_mem \<Rightarrow> u64 \<Rightarrow> nat list list" where
  "paths_below X 0 is m t = map (\<lambda>i. [i]) (filter (\<lambda>i. present X (m t i)) is)"
| "paths_below X (Suc lv) is m t = concat (map (\<lambda>i. if present X (m t i)
     then [i] # map (Cons i) (paths_below X lv [0..<512] m (pte_addr X (m t i))) else []) is)"

lemma below_paths:
  "below X lv is m t = map (\<lambda>p. the (tbl X m t p)) (paths_below X lv is m t)"
proof (induction lv arbitrary: "is" t)
  case 0
  show ?case by (induction "is") (simp_all add: below_at_def)
next
  case (Suc lv)
  show ?case by (induction "is") (simp_all add: below_at_def Suc)
qed

lemma paths_below_Cons:
  "i # q \<in> set (paths_below X (Suc lv) is m t) \<longleftrightarrow> i \<in> set is \<and> present X (m t i) \<and>
     (q = [] \<or> q \<in> set (paths_below X lv [0..<512] m (pte_addr X (m t i))))"
  by (auto split: if_splits)

lemma paths_below_iff:
  "p \<in> set (paths_below X lv is m t) \<longleftrightarrow>
   p \<noteq> [] \<and> length p \<le> Suc lv \<and> hd p \<in> set is \<and> (\<forall>i\<in>set (tl p). i < 512) \<and> tbl X m t p \<noteq> None"
proof (induction lv arbitrary: "is" t p)
  case 0
  show ?case by (cases p) auto
next
  case (Suc lv)
  show ?case
  proof (cases p)
    case (Cons i q)
    show ?thesis
      unfolding Cons paths_below_Cons Suc.IH by (cases q) auto
  qed auto
qed

lemma distinct_paths_below: "distinct is \<Longrightarrow> distinct (paths_below X lv is m t)"
proof (induction lv arbitrary: "is" t)
  case 0
  then show ?case by (simp add: distinct_map inj_on_def)
next
  case (Suc lv)
  from Suc.prems show ?case
  proof (induction "is")
    case (Cons i "is")
    then show ?case
      using Suc.IH [of "[0..<512]"] by (auto simp: distinct_map paths_below_iff split: if_splits)
  qed simp
qed

definition user_paths :: "x86 \<Rightarrow> phys_mem \<Rightarrow> u64 \<Rightarrow> nat list list" where
  "user_paths X m r = paths_below X 3 [0..<256] m r"

lemma user_paths_iff:
  "p \<in> set (user_paths X m r) \<longleftrightarrow> p \<noteq> [] \<and> upath p \<and> tbl X m r p \<noteq> None"
  by (cases p) (auto simp: user_paths_def paths_below_iff upath_def)

lemma user_pathsE:
  assumes "p \<in> set (user_paths X m r)"
  obtains f where "upath p" and "p \<noteq> []" and "tbl X m r p = Some f"
  using assms unfolding user_paths_iff by blast

lemma space_frames_below: "space_frames X m r = set (r # below X 3 [0..<256] m r)"
proof -
  have "f \<in> space_frames X m r \<longleftrightarrow> f = r \<or> f \<in> (\<lambda>p. the (tbl X m r p)) ` set (user_paths X m r)" for f
  proof
    assume "f \<in> space_frames X m r"
    then obtain p where p: "upath p" "tbl X m r p = Some f" by (auto simp: space_frames_def)
    then have "p = [] \<and> f = r \<or> p \<in> set (user_paths X m r) \<and> f = the (tbl X m r p)"
      by (cases p) (auto simp: user_paths_iff)
    then show "f = r \<or> f \<in> (\<lambda>p. the (tbl X m r p)) ` set (user_paths X m r)" by blast
  next
    assume "f = r \<or> f \<in> (\<lambda>p. the (tbl X m r p)) ` set (user_paths X m r)"
    then show "f \<in> space_frames X m r"
    proof
      assume "f \<in> (\<lambda>p. the (tbl X m r p)) ` set (user_paths X m r)"
      then obtain p where "p \<in> set (user_paths X m r)" "f = the (tbl X m r p)" by blast
      then show ?thesis by (elim user_pathsE) (simp add: space_framesI)
    qed simp
  qed
  then show ?thesis
    unfolding below_paths user_paths_def by (intro set_eqI) simp
qed

lemma distinct_below:
  assumes tree: "user_tree X m r"
  shows "distinct (r # below X 3 [0..<256] m r)"
proof -
  have "inj_on (\<lambda>p. the (tbl X m r p)) (set (user_paths X m r))"
  proof (rule inj_onI)
    fix p q assume p: "p \<in> set (user_paths X m r)" and q: "q \<in> set (user_paths X m r)"
      and eq: "the (tbl X m r p) = the (tbl X m r q)"
    obtain f where f: "upath p" "tbl X m r p = Some f" using p by (elim user_pathsE)
    obtain g where g: "upath q" "tbl X m r q = Some g" using q by (elim user_pathsE)
    show "p = q" using user_treeD [OF tree f(2) _ f(1) g(1)] f(2) g(2) eq by simp
  qed
  moreover have "r \<noteq> the (tbl X m r p)" if p: "p \<in> set (user_paths X m r)" for p
  proof -
    obtain f where f: "upath p" "p \<noteq> []" "tbl X m r p = Some f" using p by (elim user_pathsE)
    show ?thesis using user_treeD [OF tree f(3), of "[]"] f by auto
  qed
  ultimately show ?thesis
    using distinct_paths_below [of "[0..<256]" X 3 m r]
    by (auto simp: below_paths distinct_map user_paths_def)
qed

text \<open>No huge pages in the user half.\<close>

lemma plain_below:
  assumes "no_huge X m r" and "upath p" and "tbl X m r p = Some t" and "length p + lv = 3"
    and "\<And>i. i \<in> set is \<Longrightarrow> upath (p @ [i])"
  shows "plain X lv is m t"
  using assms(2-5)
proof (induction lv arbitrary: p t "is")
  case 0
  then show ?case using assms(1) by (auto simp: plain_at_def no_huge_def)
next
  case (Suc lv)
  have "plain_at X (plain X lv [0..<512]) m t i" if i: "i \<in> set is" for i
    unfolding plain_at_def
  proof (intro impI conjI)
    assume pr: "present X (m t i)"
    show "\<not> contains (pte_flags X (m t i)) HUGE_PAGE"
      using assms(1) Suc.prems(2,4) i pr unfolding no_huge_def by blast
    have up: "upath (p @ [i])" using Suc.prems(4) i by blast
    have "upath ((p @ [i]) @ [j])" if "j < 512" for j
      using up that Suc.prems(3) by (cases p) (auto simp: upath_def)
    then show "plain X lv [0..<512] m (pte_addr X (m t i))"
      using Suc.prems(2,3) pr by (intro Suc.IH [OF up]) (simp_all add: tbl_snoc)
  qed
  then show ?case by simp
qed

lemma plain_user: "no_huge X m r \<Longrightarrow> plain X 3 [0..<256] m r"
  by (rule plain_below [of X m r "[]"]) (auto simp: upath_def)

lemma plain_path:
  "plain X lv is m t \<Longrightarrow> length p \<le> lv \<Longrightarrow> hd (p @ [i]) \<in> set is \<Longrightarrow> (\<forall>j\<in>set (tl (p @ [i])). j < 512) \<Longrightarrow>
   tbl X m t p = Some u \<Longrightarrow> present X (m u i) \<Longrightarrow> \<not> contains (pte_flags X (m u i)) HUGE_PAGE"
proof (induction p arbitrary: lv "is" t)
  case Nil
  then show ?case by (cases lv) (auto simp: plain_at_def)
next
  case (Cons a p)
  then obtain lv' where lv: "lv = Suc lv'" by (cases lv) auto
  have "present X (m t a)" and sub: "tbl X m (pte_addr X (m t a)) p = Some u"
    using Cons.prems(5) by (auto split: if_splits)
  then have "plain X lv' [0..<512] m (pte_addr X (m t a))"
    using Cons.prems(1,3) lv by (auto simp: plain_at_def)
  then show ?case
    using Cons.IH [OF _ _ _ _ sub] Cons.prems lv by (cases p) auto
qed

lemma plain_no_huge: "plain X 3 [0..<256] m r \<Longrightarrow> no_huge X m r"
  unfolding no_huge_def
proof (intro allI impI, elim conjE)
  fix p i t
  assume pl: "plain X 3 [0..<256] m r" and up: "upath (p @ [i])" and t: "tbl X m r p = Some t"
    and pr: "present X (m t i)"
  have "length p \<le> 3" "hd (p @ [i]) < 256" "\<forall>j\<in>set (tl (p @ [i])). j < 512"
    using up by (cases p; auto simp: upath_def)+
  then show "\<not> contains (pte_flags X (m t i)) HUGE_PAGE"
    using plain_path [OF pl _ _ _ t pr] by simp
qed

lemma user_tree_below:
  assumes d: "distinct (r # below X 3 [0..<256] m r)"
  shows "user_tree X m r"
  unfolding user_tree_def
proof (intro allI impI, elim conjE)
  fix p q t assume p: "upath p" "tbl X m r p = Some t" and q: "upath q" "tbl X m r q = Some t"
  have inj: "inj_on (\<lambda>p. the (tbl X m r p)) (set (user_paths X m r))"
    and r: "r \<notin> (\<lambda>p. the (tbl X m r p)) ` set (user_paths X m r)"
    using d by (simp_all add: below_paths user_paths_def distinct_map)
  have mem: "p = [] \<or> p \<in> set (user_paths X m r)" "q = [] \<or> q \<in> set (user_paths X m r)"
    using p q by (auto simp: user_paths_iff)
  show "p = q"
  proof (cases "t = r")
    case True
    then have "x \<notin> set (user_paths X m r)" if "tbl X m r x = Some t" for x
      using that r by force
    then show ?thesis using mem p q by auto
  next
    case False
    then have "p \<in> set (user_paths X m r)" "q \<in> set (user_paths X m r)"
      using mem p q by auto
    then show ?thesis using inj_onD [OF inj, of p q] p q by simp
  qed
qed

section \<open>Freeing\<close>

context paging
begin

definition freed ::
  "(phys_mem \<Rightarrow> u64 \<Rightarrow> u64 list) \<Rightarrow> u64 \<Rightarrow> 'a mem \<Rightarrow> 'a mem \<Rightarrow> bool" where
  "freed sub t s s' \<longleftrightarrow> ok (fa s') \<and> av (fa s') = av (fa s) \<union> set (sub (pm s) t) \<and>
     phys_offset s' = phys_offset s \<and> (\<forall>g. g \<noteq> t \<and> g \<notin> set (sub (pm s) t) \<longrightarrow> pm s' g = pm s g)"

definition can_free ::
  "(phys_mem \<Rightarrow> u64 \<Rightarrow> u64 list) \<Rightarrow> (phys_mem \<Rightarrow> u64 \<Rightarrow> bool) \<Rightarrow> u64 \<Rightarrow> 'a mem \<Rightarrow> bool" where
  "can_free sub pl t s \<longleftrightarrow> ok (fa s) \<and> distinct (t # sub (pm s) t) \<and>
     set (sub (pm s) t) \<inter> av (fa s) = {} \<and> pl (pm s) t"

text \<open>One entry, for a body that frees what is below it.\<close>

lemma free_entry_ok:
  assumes inner: "\<And>u s. can_free sub pl u s \<Longrightarrow> \<exists>s'. inner u s = (Ok (), s') \<and> freed sub u s s'"
    and ok: "ok (fa s)" and dist: "distinct (t # below_at X sub (pm s) t i)"
    and disj: "set (below_at X sub (pm s) t i) \<inter> av (fa s) = {}" and pl: "plain_at X pl (pm s) t i"
  shows "\<exists>s'. free_entry X dl inner t i s = (Ok (), s') \<and>
    freed (\<lambda>m t. below_at X sub m t i) t s s' \<and> (\<forall>j. j \<noteq> i \<longrightarrow> pm s' t j = pm s t j)"
proof (cases "present X (pm s t i)")
  case False
  then show ?thesis
    using ok by (auto simp: free_entry_def prog bind_def freed_def below_at_def)
next
  case True
  define f where "f = pte_addr X (pm s t i)"
  have b: "below_at X sub (pm s) t i = f # sub (pm s) f"
    using True by (simp add: below_at_def f_def)
  have fr: "pte_frame X (pm s t i) = Inr f" and plf: "pl (pm s) f"
    using pl True frame_ok by (simp_all add: plain_at_def present_def f_def)
  have "can_free sub pl f s" using ok dist disj plf by (auto simp: b can_free_def)
  from inner [OF this] obtain s1 where run: "inner f s = (Ok (), s1)" and F: "freed sub f s s1" by blast
  note F' = F [unfolded freed_def]
  let ?s' = "set_entry t i 0 (s1\<lparr>fa := dl f (fa s1)\<rparr>)"
  have go: "free_entry X dl inner t i s = (Ok (), ?s')"
    using True fr run
    by (simp add: free_entry_def frame_from_entry_def give_frame_def modify_def f_def)
  have "f \<notin> av (fa s1)" using F' dist disj by (auto simp: b)
  moreover have "phys_frame f" by (simp add: f_def addr_phys)
  ultimately have "ok (fa ?s') \<and> av (fa ?s') = insert f (av (fa s1))"
    using dealloc_ok F' by (simp add: set_entry_def)
  moreover have "pm s1 t = pm s t" using F' dist by (simp add: b)
  ultimately show ?thesis
    using go F' by (auto simp: freed_def b set_entry_def)
qed

lemma free_loop_ok:
  assumes inner: "\<And>u s. can_free sub pl u s \<Longrightarrow> \<exists>s'. inner u s = (Ok (), s') \<and> freed sub u s s'"
    and loc: "local_to sub sub" "local_to sub pl" and "distinct is"
    and "can_free (\<lambda>m t. concat (map (below_at X sub m t) is))
           (\<lambda>m t. \<forall>i\<in>set is. plain_at X pl m t i) t s"
  shows "\<exists>s'. foreach is (free_entry X dl inner t) s = (Ok (), s') \<and>
    freed (\<lambda>m t. concat (map (below_at X sub m t) is)) t s s'"
  using assms(4,5)
proof (induction "is" arbitrary: s)
  case Nil
  then show ?case by (simp add: freed_def can_free_def)
next
  case (Cons i "is")
  let ?sub = "\<lambda>is m t. concat (map (below_at X sub m t) is)"
  note C = Cons.prems(2) [unfolded can_free_def]
  have "distinct (t # below_at X sub (pm s) t i)" "set (below_at X sub (pm s) t i) \<inter> av (fa s) = {}"
      "plain_at X pl (pm s) t i" "ok (fa s)"
    using C by auto
  from free_entry_ok [OF inner this(4,1,2,3)] obtain s1 where
    run: "free_entry X dl inner t i s = (Ok (), s1)"
    and F: "freed (\<lambda>m t. below_at X sub m t i) t s s1"
    and other: "\<And>j. j \<noteq> i \<Longrightarrow> pm s1 t j = pm s t j" by auto
  note F' = F [unfolded freed_def]
  have untouched: "pm s1 g = pm s g" if "g \<in> set (?sub is (pm s) t)" for g
  proof -
    have "g \<noteq> t \<and> g \<notin> set (below_at X sub (pm s) t i)"
      using that C by (auto simp: disjoint_iff)
    then show ?thesis using F' by blast
  qed
  have entry: "pm s1 t j = pm s t j" if "j \<in> set is" for j
    using other [of j] that Cons.prems(1) by auto
  have map_eq: "map (below_at X sub (pm s1) t) is = map (below_at X sub (pm s) t) is"
    by (rule map_cong [OF refl], rule below_at_cong [OF loc(1)]) (use entry untouched in auto)
  have pl_eq: "plain_at X pl (pm s1) t j = plain_at X pl (pm s) t j" if "j \<in> set is" for j
    by (rule plain_at_cong [OF loc(2)]) (use entry untouched that in auto)
  have "can_free (?sub is) (\<lambda>m t. \<forall>i\<in>set is. plain_at X pl m t i) t s1"
    using F' C pl_eq unfolding can_free_def map_eq by auto
  from Cons.IH [OF _ this] Cons.prems(1) obtain s2 where
    "foreach is (free_entry X dl inner t) s1 = (Ok (), s2)" and R: "freed (?sub is) t s1 s2" by auto
  moreover have "freed (?sub (i # is)) t s s2"
    using R F' unfolding freed_def map_eq by auto
  ultimately show ?case using run by auto
qed

lemma free_entries_ok:
  "distinct is \<Longrightarrow> can_free (below X lv is) (plain X lv is) t s \<Longrightarrow>
   \<exists>s'. free_entries X dl lv t is s = (Ok (), s') \<and> freed (below X lv is) t s s'"
proof (induction lv arbitrary: "is" t s)
  case 0
  have "\<exists>s'. ret () s = (Ok (), s') \<and> freed (\<lambda>_ _. []) u s s'"
    if "can_free (\<lambda>_ _. []) (\<lambda>_ _. True) u s" for u and s :: "'a mem"
    using that by (auto simp: freed_def can_free_def)
  note loop = free_loop_ok [where pl = "\<lambda>_ _. True" and inner = "\<lambda>_. ret ()", OF this local_const local_const 0(1)]
  show ?case using loop [of t s] 0(2) by simp
next
  case (Suc lv)
  have "\<exists>s'. free_entries X dl lv u [0..<512] s = (Ok (), s') \<and> freed (below X lv [0..<512]) u s s'"
    if "can_free (below X lv [0..<512]) (plain X lv [0..<512]) u s" for u s
    using Suc.IH [OF _ that] by simp
  from free_loop_ok [OF this local_below local_plain Suc.prems(1)] Suc.prems(2) show ?case by simp
qed

text \<open>\<open>free_uvm\<close> gives back every frame of the space, the top table included.\<close>

lemma free_uvm_ok:
  assumes sp: "space_ok X av ok s r"
  obtains s' where "free_uvm X dl r s = (Ok (), s')" and "ok (fa s')"
    and "av (fa s') = av (fa s) \<union> space_frames X (pm s) r"
    and "\<And>g. g \<notin> space_frames X (pm s) r \<Longrightarrow> pm s' g = pm s g"
    and "phys_offset s' = phys_offset s"
proof -
  note S = sp [unfolded space_ok_def]
  have "can_free (below X 3 [0..<256]) (plain X 3 [0..<256]) r s"
    using S distinct_below [of X "pm s" r] plain_user [of X "pm s" r]
    by (auto simp: can_free_def space_frames_below)
  from free_entries_ok [OF _ this] obtain s1 where
    run: "free_entries X dl 3 r [0..<256] s = (Ok (), s1)" and F: "freed (below X 3 [0..<256]) r s s1"
    by auto
  note F' = F [unfolded freed_def]
  have "r \<notin> av (fa s1)"
    using F' S distinct_below [of X "pm s" r] by (auto simp: space_frames_below)
  then have d: "ok (dl r (fa s1))" "av (dl r (fa s1)) = insert r (av (fa s1))"
    using dealloc_ok F' S by auto
  obtain po where "phys_offset s = Some po" using S by auto
  then have "free_uvm X dl r s = (Ok (), s1\<lparr>fa := dl r (fa s1)\<rparr>)"
    using run by (simp add: free_uvm_def offset_set_def bind_def give_frame_def modify_def)
  then show ?thesis
    by (rule that) (use d F' in \<open>auto simp: space_frames_below\<close>)
qed

end

end
