(* ===== verification/Growth.thy ===== *)
theory Growth
  imports Uvm
begin

text \<open>
  What \<open>alloc_uvm\<close> and \<open>dealloc_uvm\<close> do, page by page: the pages of the half-open range between
  the two sizes, rounded up, appear with fresh zeroed frames or disappear, every other page keeps
  its frame, flags and contents, and an error of \<open>alloc_uvm\<close> leaves the pages as they were.
\<close>

section \<open>Page addresses\<close>

definition page_addr :: "nat \<Rightarrow> u64" where
  "page_addr k = of_nat (4096 * k)"

definition page_ceil :: "u64 \<Rightarrow> nat" where
  "page_ceil v = (unat v + 4095) div 4096"

lemma unat_page_addr: "k \<le> 2 ^ 35 \<Longrightarrow> unat (page_addr k) = 4096 * k"
  unfolding page_addr_def by (simp only: unat_of_nat) simp

lemma user_va_page_addr: "k < 2 ^ 35 \<Longrightarrow> user_va (page_addr k)"
  by (simp add: user_va_def unat_page_addr)

lemma va_path_page_addr: "k < 2 ^ 35 \<Longrightarrow> va_path (page_addr k) = page_path k"
  by (simp add: va_path_page page_no_def unat_page_addr)

lemma page_addr_less: "k \<le> 2 ^ 35 \<Longrightarrow> page_addr k < w \<longleftrightarrow> 4096 * k < unat w"
  by (simp add: word_less_nat_alt unat_page_addr)

lemma page_addr_Suc:
  assumes "k < 2 ^ 35"
  shows "checked_add (page_addr k) PAGE_SIZE = Some (page_addr (Suc k))"
    and "page_addr k < page_addr (Suc k)"
proof -
  have u: "unat PAGE_SIZE = 4096" by (simp add: PAGE_SIZE_def)
  show "checked_add (page_addr k) PAGE_SIZE = Some (page_addr (Suc k))"
    using assms by (simp add: checked_add_def unat_page_addr u) (simp add: page_addr_def PAGE_SIZE_def)
  show "page_addr k < page_addr (Suc k)"
    using assms by (simp add: page_addr_less unat_page_addr)
qed

lemma less_page_ceil: "4096 * j < unat v \<longleftrightarrow> j < page_ceil v"
  using less_eq_div_iff_mult_less_eq [of 4096 "Suc j" "unat v + 4095"]
  by (simp add: page_ceil_def Suc_le_eq mult.commute)

lemma page_ceil_bound: "unat v \<le> 2 ^ 47 \<Longrightarrow> page_ceil v \<le> 2 ^ 35"
  by (simp add: page_ceil_def)

lemma and_not_mask_nat: "unat (w AND NOT (mask k) :: u64) = unat w - unat w mod 2 ^ k"
proof -
  have "w - (w AND mask k) = w AND NOT (w AND mask k)"
    by (rule disjunctive_diff_eq_and_not) (simp flip: and.assoc)
  also have "\<dots> = w AND NOT (mask k)"
    by (rule bit_word_eqI) (auto simp: bit_simps)
  finally have "w AND NOT (mask k) = w - take_bit k w"
    by (simp add: take_bit_eq_mask)
  moreover have "take_bit k w \<le> w"
    by (metis word_le_nat_alt unsigned_take_bit_eq take_bit_nat_less_eq_self)
  moreover have "unat (take_bit k w) = unat w mod 2 ^ k"
    by (metis unsigned_take_bit_eq take_bit_eq_mod)
  ultimately show ?thesis
    by (metis unat_sub)
qed

lemma page_round_up_ok:
  assumes "unat v \<le> 2 ^ 47"
  shows "page_round_up v s = (Ok (page_addr (page_ceil v)), s)"
proof -
  have m: "PAGE_SIZE - 1 = mask 12" by (simp add: PAGE_SIZE_def mask_eq_exp_minus_1)
  have u: "unat (mask 12 :: u64) = 4095" by (simp add: mask_eq_exp_minus_1)
  have c: "checked_add v (mask 12) = Some (v + mask 12)"
    using assms by (simp add: checked_add_def u)
  have n: "unat (v + mask 12) = unat v + 4095"
    using checked_add_SomeD [OF c] u by simp
  have "(v + mask 12) AND NOT (mask 12) = page_addr (page_ceil v)"
  proof (rule word_unat_eq_iff [THEN iffD2])
    have "unat ((v + mask 12) AND NOT (mask 12)) = unat v + 4095 - (unat v + 4095) mod 4096"
      by (simp add: and_not_mask_nat n)
    also have "\<dots> = 4096 * page_ceil v"
      unfolding page_ceil_def by (simp add: minus_mod_eq_mult_div)
    also have "\<dots> = unat (page_addr (page_ceil v))"
      using page_ceil_bound [OF assms] by (simp add: unat_page_addr)
    finally show "unat ((v + mask 12) AND NOT (mask 12)) = unat (page_addr (page_ceil v))" .
  qed
  then show ?thesis
    by (simp add: page_round_up_def m c)
qed

lemma page_round_up_overflow:
  "2 ^ 64 \<le> unat v + 4095 \<Longrightarrow> page_round_up v s = (Err ''alloc_uvm: size overflow'', s)"
  by (simp add: page_round_up_def checked_add_def PAGE_SIZE_def)

section \<open>One page\<close>

text \<open>The frames of the pages \<open>a\<close> to \<open>b - 1\<close>.\<close>

definition page_frames :: "x86 \<Rightarrow> phys_mem \<Rightarrow> u64 \<Rightarrow> nat \<Rightarrow> nat \<Rightarrow> u64 set" where
  "page_frames X m r a b = {f. \<exists>j fl d. a \<le> j \<and> j < b \<and> page_view X m r j = Some (f, fl, d)}"

lemma page_frames_Suc:
  "page_frames X m r k (Suc k) = (case page_view X m r k of None \<Rightarrow> {} | Some v \<Rightarrow> {fst v})"
proof -
  have "page_frames X m r k (Suc k) = {f. \<exists>fl d. page_view X m r k = Some (f, fl, d)}"
    unfolding page_frames_def by (auto simp: less_Suc_eq_le dest: le_antisym)
  then show ?thesis by (auto split: option.splits)
qed

lemma page_frames_append:
  assumes "a \<le> b" and "b \<le> c"
  shows "page_frames X m r a c = page_frames X m r a b \<union> page_frames X m r b c"
proof -
  have "a \<le> j \<and> j < c \<longleftrightarrow> (a \<le> j \<and> j < b) \<or> (b \<le> j \<and> j < c)" for j using assms by auto
  then show ?thesis unfolding page_frames_def by blast
qed

lemma page_frames_cong:
  "(\<And>j. a \<le> j \<Longrightarrow> j < b \<Longrightarrow> page_view X m' r j = page_view X m r j) \<Longrightarrow>
   page_frames X m' r a b = page_frames X m r a b"
  unfolding page_frames_def by (rule Collect_cong) metis

context paging
begin

lemma space_ok_held:
  assumes ok: "space_ok X av ok s r" and f: "f \<notin> space_frames X (pm s) r" "f \<notin> av (fa s)"
    and s': "fa s' = fa s" "phys_offset s' = phys_offset s"
    and L: "linked X (pm s) (pm s') r p t i e" and e: "pte_addr X e = f"
    and nh: "\<not> contains (pte_flags X e) HUGE_PAGE" and leaf: "length p = 3"
  shows "space_ok X av ok s' r" and "space_frames X (pm s') r = insert f (space_frames X (pm s) r)"
proof -
  note o' = ok [unfolded space_ok_def]
  show sf: "space_frames X (pm s') r = insert f (space_frames X (pm s) r)"
    using linked_tree(2) [OF L] e by simp
  show "space_ok X av ok s' r"
    unfolding space_ok_def
    using o' s' f sf linked_tree(1) [OF L] linked_no_huge [OF L _ nh] leaf by auto
qed

text \<open>Taking pages away: the pages \<open>a\<close> to \<open>b - 1\<close> are gone and their frames are free.\<close>

definition cleared :: "u64 \<Rightarrow> nat \<Rightarrow> nat \<Rightarrow> 'a mem \<Rightarrow> 'a mem \<Rightarrow> bool" where
  "cleared r a b s s' \<longleftrightarrow> evolves X av ok r s s' \<and>
     (\<forall>j<2 ^ 35. page_view X (pm s') r j = (if a \<le> j \<and> j < b then None else page_view X (pm s) r j)) \<and>
     av (fa s') = av (fa s) \<union> page_frames X (pm s) r a b"

lemma cleared_empty: "space_ok X av ok s r \<Longrightarrow> b \<le> a \<Longrightarrow> cleared r a b s s"
  using evolves_refl by (auto simp: cleared_def page_frames_def)

lemma cleared_trans:
  assumes 1: "cleared r a b s t" and 2: "cleared r b c t u" and le: "a \<le> b" "b \<le> c" "c \<le> 2 ^ 35"
  shows "cleared r a c s u"
proof -
  note A = 1 [unfolded cleared_def] and B = 2 [unfolded cleared_def]
  have "page_view X (pm u) r j = (if a \<le> j \<and> j < c then None else page_view X (pm s) r j)"
    if "j < 2 ^ 35" for j
    using A B that le by auto
  moreover have "page_frames X (pm t) r b c = page_frames X (pm s) r b c"
    by (rule page_frames_cong) (use A le in auto)
  then have "av (fa u) = av (fa s) \<union> page_frames X (pm s) r a c"
    using A B page_frames_append [OF le(1,2), of X "pm s" r] by (simp add: Un_assoc)
  moreover have "evolves X av ok r s u" using A B evolves_trans by blast
  ultimately show ?thesis by (simp add: cleared_def)
qed

text \<open>Taking a page away: \<open>unmap_page\<close> on the address of page \<open>k\<close>.\<close>

lemma unmap_page_ok:
  assumes ok: "space_ok X av ok s r" and k: "k < 2 ^ 35"
  obtains s' where "unmap_page X al dl r (page_addr k) s = (Ok (), s')"
    and "cleared r k (Suc k) s s'"
proof -
  let ?va = "page_addr k"
  note o' = ok [unfolded space_ok_def]
  have user: "user_va ?va" and path: "table_path ?va @ [pt_index ?va] = page_path k"
    using user_va_page_addr [OF k] va_path_page_addr [OF k] va_path_table by simp_all
  have new: "virt_new X ?va s = (Ok ?va, s)"
    using virt_lower_half user user_va_less by (simp add: virt_new_def)
  have up: "upath (page_path k)" using upath_page k by blast
  have view: "page_view X (pm s) r k = (case tbl X (pm s) r (table_path ?va) of None \<Rightarrow> None
     | Some t \<Rightarrow> let e = pm s t (pt_index ?va) in if present X e
        then Some (pte_addr X e, pte_flags X e, pm s (pte_addr X e)) else None)"
    unfolding page_view_def path [symmetric] path_view_snoc
    by (auto simp: Let_def split: option.splits)
  show ?thesis
  proof (cases "page_view X (pm s) r k")
    case None
    have "unmap_page X al dl r ?va s = (Ok (), s)"
      using None new view
      by (auto simp: unmap_page_def bind_def walk_find prog Let_def split: option.splits if_splits)
    moreover have "cleared r k (Suc k) s s"
      using evolves_refl [OF ok] None by (auto simp: cleared_def page_frames_Suc less_Suc_eq)
    ultimately show ?thesis using that by blast
  next
    case (Some v)
    then obtain t where t: "tbl X (pm s) r (table_path ?va) = Some t"
      and p: "present X (pm s t (pt_index ?va))"
      using view by (auto simp: Let_def split: option.splits if_splits)
    let ?i = "pt_index ?va" let ?e = "pm s t ?i" let ?f = "pte_addr X ?e"
    have lp: "length (table_path ?va) = 3" by (simp add: table_path_def)
    have nh: "\<not> contains (pte_flags X ?e) HUGE_PAGE"
      using o' up path t p unfolding no_huge_def by metis
    define s' where "s' = set_entry t ?i 0 (s\<lparr>fa := dl ?f (fa s)\<rparr>)"
    have run: "unmap_page X al dl r ?va s = (Ok (), s')"
      using new t p nh frame_ok
      by (simp add: unmap_page_def bind_def walk_find prog s'_def give_frame_def frame_from_entry_def
          present_def)
    have U: "unlinked X (pm s) (pm s') r (table_path ?va) t ?i"
      using o' up path lp t by (auto simp: unlinked_def s'_def set_entry_def)
    have f: "tbl X (pm s) r (table_path ?va @ [?i]) = Some ?f"
      using t p by (simp add: tbl_snoc)
    have fs: "?f \<in> space_frames X (pm s) r"
      using space_framesI [OF up] f path by simp
    then have fav: "?f \<notin> av (fa s)" using o' by blast
    have fa: "fa s' = dl ?f (fa s)" "phys_offset s' = phys_offset s"
      by (simp_all add: s'_def set_entry_def)
    note d = dealloc_ok [OF _ fav addr_phys]
    note T = unlink_tree [OF U f]
    have ev: "evolves X av ok r s s'"
      unfolding evolves_def space_ok_def
    proof (intro conjI allI impI)
      fix g assume "g \<notin> space_frames X (pm s) r \<union> av (fa s)"
      then have "g \<noteq> t" using space_framesI [OF _ t] upath_snocD up path by (metis UnI1)
      then show "pm s' g = pm s g" by (simp add: s'_def set_entry_def)
    next
      fix j :: nat assume "256 \<le> j"
      then have "(r, j) \<noteq> (t, ?i)" using upper_entry [OF _ _ t, of ?i j] o' up path by auto
      then show "pm s' r j = pm s r j" by (auto simp: s'_def set_entry_def)
    qed (use T d fa fs o' fav unlink_no_huge [OF U] in auto)
    have views: "page_view X (pm s') r j = (if j = k then None else page_view X (pm s) r j)"
      if "j < 2 ^ 35" for j
      using view_unlink [OF U upath_page [OF that]] path page_path_inj [OF that k]
      by (auto simp: page_view_def page_path_def)
    have "av (fa s') = av (fa s) \<union> page_frames X (pm s) r k (Suc k)"
      using view t p fa d o' by (simp add: Let_def page_frames_Suc)
    then have "cleared r k (Suc k) s s'"
      using ev views by (auto simp: cleared_def)
    then show ?thesis using that run by blast
  qed
qed

lemma unmap_range_ok:
  assumes "space_ok X av ok s r" and "k \<le> 2 ^ 35" and "unat stop \<le> 2 ^ 47"
  obtains s' where "unmap_range X al dl msg r (page_addr k) stop s = (Ok (), s')"
    and "cleared r k (page_ceil stop) s s'"
proof -
  have "\<exists>s'. unmap_range X al dl msg r (page_addr k) stop s = (Ok (), s') \<and>
      cleared r k (page_ceil stop) s s'"
    using assms(1,2)
  proof (induction "page_ceil stop - k" arbitrary: k s)
    case 0
    then have "page_ceil stop \<le> k" by simp
    then have "\<not> page_addr k < stop"
      using 0 by (simp add: page_addr_less less_page_ceil)
    then have "unmap_range X al dl msg r (page_addr k) stop s = (Ok (), s)"
      by (simp add: unmap_range.simps)
    moreover have "cleared r k (page_ceil stop) s s"
      by (rule cleared_empty) (use 0 in simp_all)
    ultimately show ?case by blast
  next
    case (Suc n)
    have kc: "k < page_ceil stop" and bound: "page_ceil stop \<le> 2 ^ 35"
      using Suc.hyps(2) page_ceil_bound [OF assms(3)] by simp_all
    then have k: "k < 2 ^ 35" and go: "page_addr k < stop"
      by (simp_all add: page_addr_less less_page_ceil)
    obtain t where run: "unmap_page X al dl r (page_addr k) s = (Ok (), t)"
      and c1: "cleared r k (Suc k) s t"
      using unmap_page_ok [OF Suc.prems(1) k] .
    have ok: "space_ok X av ok t r" and n: "n = page_ceil stop - Suc k" "Suc k \<le> 2 ^ 35"
      using c1 evolvesD(1) Suc.hyps(2) k by (auto simp: cleared_def)
    from Suc.hyps(1) [OF n(1) ok n(2)] obtain u where
      rest: "unmap_range X al dl msg r (page_addr (Suc k)) stop t = (Ok (), u)"
      and c2: "cleared r (Suc k) (page_ceil stop) t u" by blast
    have "unmap_range X al dl msg r (page_addr k) stop s = (Ok (), u)"
      using go run rest page_addr_Suc [OF k] by (subst unmap_range.simps) simp
    moreover have "cleared r k (page_ceil stop) s u"
      using cleared_trans [OF c1 c2] kc bound by simp
    ultimately show ?case by blast
  qed
  then show ?thesis using that by blast
qed

lemma dealloc_uvm_ok:
  assumes ok: "space_ok X av ok s r" and "unat oldsz \<le> 2 ^ 47" and "newsz < oldsz"
  obtains s' where "dealloc_uvm X al dl r oldsz newsz s = (Ok newsz, s')"
    and "cleared r (page_ceil newsz) (page_ceil oldsz) s s'"
proof -
  have new: "unat newsz \<le> 2 ^ 47" using assms(2,3) by (simp add: word_less_nat_alt)
  have shrink: "\<not> oldsz \<le> newsz" using assms(3) by simp
  from unmap_range_ok [OF ok page_ceil_bound [OF new] assms(2)] obtain s' where
    run: "unmap_range X al dl ''dealloc_uvm: address overflow'' r (page_addr (page_ceil newsz)) oldsz s = (Ok (), s')"
    and c: "cleared r (page_ceil newsz) (page_ceil oldsz) s s'" .
  obtain po where "phys_offset s = Some po" using ok by (auto simp: space_ok_def)
  then have "dealloc_uvm X al dl r oldsz newsz s = (Ok newsz, s')"
    using run page_round_up_ok [OF new, of s] shrink
    by (simp add: dealloc_uvm_def offset_set_def bind_def)
  then show ?thesis using that c by blast
qed

section \<open>Growing\<close>

text \<open>The pages \<open>a\<close> to \<open>k - 1\<close>, absent in \<open>s\<close>, are mapped to fresh zeroed frames in \<open>s'\<close>.\<close>

definition filled :: "u64 \<Rightarrow> nat \<Rightarrow> nat \<Rightarrow> 'a mem \<Rightarrow> 'a mem \<Rightarrow> bool" where
  "filled r a k s s' \<longleftrightarrow> evolves X av ok r s s' \<and> av (fa s') \<subseteq> av (fa s) \<and>
     (\<forall>j<2 ^ 35. if a \<le> j \<and> j < k
        then page_view X (pm s) r j = None \<and>
          (\<exists>f\<in>av (fa s). page_view X (pm s') r j = Some (f, user_flags, \<lambda>_. 0))
        else page_view X (pm s') r j = page_view X (pm s) r j)"

definition restored :: "u64 \<Rightarrow> 'a mem \<Rightarrow> 'a mem \<Rightarrow> bool" where
  "restored r s s' \<longleftrightarrow> evolves X av ok r s s' \<and>
     (\<forall>j<2 ^ 35. page_view X (pm s') r j = page_view X (pm s) r j)"

lemma filled_same:
  assumes "filled r a k s t" and "evolves X av ok r t u" and "av (fa u) \<subseteq> av (fa s)"
    and "\<And>j. j < 2 ^ 35 \<Longrightarrow> page_view X (pm u) r j = page_view X (pm t) r j"
  shows "filled r a k s u"
  using assms(1,3,4) evolves_trans [OF _ assms(2)] unfolding filled_def by auto

lemma filled_Suc:
  assumes F: "filled r a k s t" and e: "evolves X av ok r t u" and avs: "av (fa u) \<subseteq> av (fa t)"
    and f: "f \<in> av (fa t)" and none: "page_view X (pm t) r k = None" and a: "a \<le> k"
    and v: "\<And>j. j < 2 ^ 35 \<Longrightarrow> page_view X (pm u) r j =
      (if j = k then Some (f, user_flags, \<lambda>_. 0) else page_view X (pm t) r j)"
  shows "filled r a (Suc k) s u"
  unfolding filled_def
proof (intro conjI allI impI)
  note F' = F [unfolded filled_def]
  show "evolves X av ok r s u" using F' e evolves_trans by blast
  show "av (fa u) \<subseteq> av (fa s)" using F' avs by blast
  fix j :: nat assume j: "j < 2 ^ 35"
  show "if a \<le> j \<and> j < Suc k
        then page_view X (pm s) r j = None \<and>
          (\<exists>f\<in>av (fa s). page_view X (pm u) r j = Some (f, user_flags, \<lambda>_. 0))
        else page_view X (pm u) r j = page_view X (pm s) r j"
  proof (cases "j = k")
    case True
    then have "page_view X (pm s) r j = None" using F' j none by simp
    then show ?thesis using True v [OF j] f F' a by auto
  next
    case False
    then have "a \<le> j \<and> j < Suc k \<longleftrightarrow> a \<le> j \<and> j < k" by auto
    then show ?thesis using F' j v [OF j] False by simp
  qed
qed

lemma rollback_ok:
  assumes F: "filled r a k s t" and k: "a \<le> k" "k < 2 ^ 35"
    and old: "page_ceil oldsz = a" "unat oldsz \<le> 2 ^ 47"
  obtains u where "alloc_fail X al dl r oldsz (page_addr k) msg t = (Err msg, u)"
    and "restored r s u"
proof -
  have ok: "space_ok X av ok t r" using F evolvesD(1) by (auto simp: filled_def)
  have stop: "unat (page_addr k) \<le> 2 ^ 47" "page_ceil (page_addr k) = k"
    using k by (simp_all add: unat_page_addr page_ceil_def)
  have a: "a \<le> 2 ^ 35" using k by simp
  obtain u where
    run: "unmap_range X al dl ''alloc_uvm: rollback address overflow'' r (page_addr a) (page_addr k) t = (Ok (), u)"
    and c: "cleared r a k t u"
    using unmap_range_ok [OF ok a stop(1)] unfolding stop(2) .
  obtain po where "phys_offset t = Some po" using ok by (auto simp: space_ok_def)
  then have "alloc_fail X al dl r oldsz (page_addr k) msg t = (Err msg, u)"
    using run page_round_up_ok [OF old(2), of t] old(1)
    by (simp add: alloc_fail_def rollback_alloc_uvm_def offset_set_def bind_def)
  moreover have "restored r s u"
    unfolding restored_def
  proof (intro conjI allI impI)
    show "evolves X av ok r s u" using F c evolves_trans by (auto simp: filled_def cleared_def)
    fix j :: nat assume "j < 2 ^ 35"
    then show "page_view X (pm u) r j = page_view X (pm s) r j"
      using F c by (auto simp: filled_def cleared_def split: if_splits)
  qed
  ultimately show ?thesis using that by blast
qed

text \<open>A frame is taken and zeroed, the walk adds tables; then the frame is either given back or
  becomes page \<open>k\<close>.\<close>

definition taken :: "u64 \<Rightarrow> u64 \<Rightarrow> 'a mem \<Rightarrow> 'a mem \<Rightarrow> bool" where
  "taken r f s t \<longleftrightarrow> space_ok X av ok s r \<and> f \<in> av (fa s) \<and> phys_frame f \<and>
     (\<exists>s1. al (fa s) = (Some f, fa s1) \<and> s1 = zero_frame f (s\<lparr>fa := fa s1\<rparr>) \<and>
           grows X av ok r s1 t)"

lemma space_ok_fresh:
  assumes ok: "space_ok X av ok s r" and al: "al (fa s) = (Some f, b)"
  shows "space_ok X av ok (zero_frame f (s\<lparr>fa := b\<rparr>)) r"
proof -
  let ?s1 = "zero_frame f (s\<lparr>fa := b\<rparr>)"
  note o' = ok [unfolded space_ok_def]
  have A: "f \<in> av (fa s)" "av b = av (fa s) - {f}" "ok b" using alloc_Some [OF _ al] o' by blast+
  then have "f \<notin> space_frames X (pm s) r" using o' by blast
  then have same: "pm ?s1 h = pm s h" if "h \<in> space_frames X (pm s) r" for h
    using that by (auto simp: zero_frame_def)
  note SS = same_space [of X "pm s" r "pm ?s1", OF same]
  show ?thesis using SS o' A by (auto simp: space_ok_def zero_frame_def)
qed

lemma takenI:
  assumes "space_ok X av ok s r" and "al (fa s) = (Some f, b)" and "grows X av ok r (zero_frame f (s\<lparr>fa := b\<rparr>)) t"
  shows "taken r f s t"
proof -
  have "f \<in> av (fa s)" "phys_frame f" using alloc_Some [OF _ assms(2)] avail_phys assms(1) by (auto simp: space_ok_def)
  moreover have "fa (zero_frame f (s\<lparr>fa := b\<rparr>)) = b" by (simp add: zero_frame_def)
  ultimately show ?thesis unfolding taken_def using assms by metis
qed

lemma takenD:
  assumes "taken r f s t"
  shows "space_ok X av ok t r" and "f \<notin> space_frames X (pm t) r" and "f \<notin> av (fa t)"
    and "insert f (space_frames X (pm t) r \<union> av (fa t)) = space_frames X (pm s) r \<union> av (fa s)"
    and "av (fa t) \<subseteq> av (fa s)" and "pm t f = (\<lambda>_. 0)"
    and "g \<notin> space_frames X (pm s) r \<Longrightarrow> g \<notin> av (fa s) \<Longrightarrow> pm t g = pm s g"
    and "j < 2 ^ 35 \<Longrightarrow> page_view X (pm t) r j = page_view X (pm s) r j"
    and "256 \<le> i \<Longrightarrow> pm t r i = pm s r i"
proof -
  obtain s1 where ok: "space_ok X av ok s r" and f: "f \<in> av (fa s)"
    and a1: "al (fa s) = (Some f, fa s1)" and s1: "s1 = zero_frame f (s\<lparr>fa := fa s1\<rparr>)"
    and g: "grows X av ok r s1 t"
    using assms by (auto simp: taken_def)
  note o' = ok [unfolded space_ok_def]
  have pm1: "pm s1 = (pm s)(f := (\<lambda>_. 0))"
    by (subst s1) (simp add: zero_frame_def)
  have fr: "f \<notin> space_frames X (pm s) r" using o' f by blast
  then have same: "pm s1 h = pm s h" if "h \<in> space_frames X (pm s) r" for h
    using that pm1 by auto
  note SS = same_space [of X "pm s" r "pm s1", OF same]
  note A = alloc_Some [OF _ a1] and G = growsD [OF g] and E = evolvesD [OF growsD(5) [OF g]]
  show "space_ok X av ok t r" by (rule G(1))
  have av1: "av (fa s1) = av (fa s) - {f}" using A o' by blast
  show cons: "insert f (space_frames X (pm t) r \<union> av (fa t)) = space_frames X (pm s) r \<union> av (fa s)"
    using E(2) SS(2) av1 f by auto
  have out: "f \<notin> space_frames X (pm t) r \<union> av (fa t)"
    using E(2) SS(2) av1 fr by auto
  then show "f \<notin> space_frames X (pm t) r" "f \<notin> av (fa t)" by auto
  show "av (fa t) \<subseteq> av (fa s)" using G(4) av1 by auto
  show "pm t f = (\<lambda>_. 0)" using E(3) [of f] SS(2) av1 fr pm1 by simp
  show "g \<notin> space_frames X (pm s) r \<Longrightarrow> g \<notin> av (fa s) \<Longrightarrow> pm t g = pm s g" for g
    using E(3) [of g] SS(2) av1 f pm1 by auto
  show "j < 2 ^ 35 \<Longrightarrow> page_view X (pm t) r j = page_view X (pm s) r j" for j
    using grows_page_view [OF g] SS(5) [OF _ upath_page]
    by (simp add: page_view_def page_path_def)
  have "r \<in> space_frames X (pm s) r" using space_framesI [of "[]"] by simp
  then show "256 \<le> i \<Longrightarrow> pm t r i = pm s r i" using E(4) same by simp
qed

lemma taken_back:
  assumes T: "taken r f s t"
  defines "u \<equiv> t\<lparr>fa := dl f (fa t)\<rparr>"
  shows "evolves X av ok r s u" and "av (fa u) \<subseteq> av (fa s)"
    and "j < 2 ^ 35 \<Longrightarrow> page_view X (pm u) r j = page_view X (pm s) r j"
proof -
  note D = takenD [OF T]
  have f: "f \<in> av (fa s)" "phys_frame f" using T by (auto simp: taken_def)
  note d = dealloc_ok [OF _ D(3) f(2)]
  have ok: "ok (fa t)" using D(1) by (simp add: space_ok_def)
  have "space_ok X av ok u r"
    using D(1,2) d [OF ok] by (simp add: space_ok_def u_def)
  moreover have "space_frames X (pm u) r \<union> av (fa u) = space_frames X (pm s) r \<union> av (fa s)"
    using D(4) d [OF ok] by (simp add: u_def)
  ultimately show "evolves X av ok r s u"
    using D(7,9) by (simp add: evolves_def u_def)
  show "av (fa u) \<subseteq> av (fa s)" using D(5) d [OF ok] f by (simp add: u_def)
  show "j < 2 ^ 35 \<Longrightarrow> page_view X (pm u) r j = page_view X (pm s) r j"
    using D(8) by (simp add: u_def)
qed

lemma user_flags_ok: "flag_word user_flags" "contains user_flags PRESENT"
  "\<not> contains user_flags HUGE_PAGE"
  by (simp_all add: flag_word_def addr_mask_def user_flags_def flag_defs contains_def mask_eq_exp_minus_1)

lemma taken_mapped:
  assumes T: "taken r f s t" and k: "k < 2 ^ 35" and fl: "flag_word fl" "contains fl PRESENT"
    and tab: "tbl X (pm t) r (table_path (page_addr k)) = Some tb"
    and np: "\<not> present X (pm t tb (pt_index (page_addr k)))"
  obtains u where "store_frame X tb (pt_index (page_addr k)) f fl t = (Ok (), u)"
    and "evolves X av ok r s u" and "av (fa u) = av (fa t)"
    and "\<forall>j<2 ^ 35. page_view X (pm u) r j =
      (if j = k then Some (f, fl, \<lambda>_. 0) else page_view X (pm s) r j)"
proof -
  let ?i = "pt_index (page_addr k)" and ?p = "table_path (page_addr k)"
  note D = takenD [OF T]
  have f: "phys_frame f" "f \<in> av (fa s)" using T by (auto simp: taken_def)
  obtain e where e: "pte_set_frame X f fl = Some e" "pte_flags X e = fl" "pte_addr X e = f"
    using set_frame_ok [OF f(1) fl(1)] by blast
  have pe: "present X e" "\<not> contains (pte_flags X e) HUGE_PAGE"
    using e(2) fl by (simp_all add: present_def flag_word_def)
  define u where "u = set_entry tb ?i e t"
  have run: "store_frame X tb ?i f fl t = (Ok (), u)"
    using e by (simp add: store_frame_def u_def modify_def)
  have path: "?p @ [?i] = page_path k" "length ?p = 3" and up: "upath (page_path k)"
    using va_path_page_addr [OF k] va_path_table upath_page [OF k] by (simp_all add: table_path_def)
  have tin: "tb \<in> space_frames X (pm t) r"
    using space_framesI [OF _ tab] upath_snocD up path by metis
  then have tf: "tb \<noteq> f" using D(2) by blast
  have L: "linked X (pm t) (pm u) r ?p tb ?i e"
    using D(1,2) up path tab np pe e tf
    by (auto simp: linked_def u_def set_entry_def space_ok_def)
  have same: "fa u = fa t" "phys_offset u = phys_offset t" by (simp_all add: u_def set_entry_def)
  note S = space_ok_held [OF D(1,2,3) same L e(3) pe(2) path(2)]
  have ev: "evolves X av ok r s u"
    unfolding evolves_def
  proof (intro conjI allI impI)
    show "space_ok X av ok u r" by (rule S(1))
    show "space_frames X (pm u) r \<union> av (fa u) = space_frames X (pm s) r \<union> av (fa s)"
      using S(2) same D(4) by simp
    fix g assume g: "g \<notin> space_frames X (pm s) r \<union> av (fa s)"
    then have "g \<noteq> tb" using D(4) tin by auto
    then show "pm u g = pm s g" using D(7) g by (simp add: u_def set_entry_def)
  next
    fix j :: nat assume "256 \<le> j"
    moreover from this have "(r, j) \<noteq> (tb, ?i)"
      using upper_entry [OF _ _ tab, of ?i j] D(1) up path by (auto simp: space_ok_def)
    ultimately show "pm u r j = pm s r j" using D(9) by (auto simp: u_def set_entry_def)
  qed
  have data: "pm u f = (\<lambda>_. 0)" using tf D(6) by (simp add: u_def set_entry_def)
  have views: "page_view X (pm u) r j =
      (if j = k then Some (f, fl, \<lambda>_. 0) else page_view X (pm s) r j)" if "j < 2 ^ 35" for j
    using linked_view [OF L upath_page [OF that]] path page_path_inj [OF that k] D(8) [OF that] e data
    by (auto simp: page_view_def page_path_def)
  show ?thesis
    by (rule that [OF run ev]) (use same views in auto)
qed

text \<open>A page costs at most four frames: its own and three tables.\<close>

lemma alloc_cost:
  assumes "ok (fa s)" and "al (fa s) = (x, b)"
  shows "ok b" and "card (av (fa s)) \<le> card (av b) + 1"
    and "x = None \<Longrightarrow> card (av (fa s)) = 0"
proof -
  show "ok b" using alloc_Some alloc_None assms by (cases x) blast+
  show "card (av (fa s)) \<le> card (av b) + 1"
  proof (cases x)
    case None
    then show ?thesis using alloc_None [of "fa s" b] assms by simp
  next
    case (Some f)
    then have "av b = av (fa s) - {f}" using alloc_Some [of "fa s" f b] assms by simp
    moreover have "card A \<le> card (A - {f}) + 1" for A
      using diff_card_le_card_Diff [of "{f}" A] by simp
    ultimately show ?thesis by simp
  qed
  show "x = None \<Longrightarrow> card (av (fa s)) = 0" using alloc_None assms by auto
qed

lemma next_table_cost:
  assumes ok: "ok (fa s)" and run: "next_table X al True t i s = (res, s')"
  shows "ok (fa s')" and "card (av (fa s)) \<le> card (av (fa s')) + 1"
    and "res = Ok None \<Longrightarrow> card (av (fa s)) = 0"
proof -
  obtain x b where al: "al (fa s) = (x, b)" by fastforce
  have "(res \<noteq> Ok None \<and> s' = s) \<or> (fa s' = b \<and> (res = Ok None \<longrightarrow> x = None))"
    using run al by (auto simp: next_table_def Let_def zero_frame_def set_entry_def
        split: option.splits if_splits)
  then show "ok (fa s')" and "card (av (fa s)) \<le> card (av (fa s')) + 1"
    and "res = Ok None \<Longrightarrow> card (av (fa s)) = 0"
    using alloc_cost [OF ok al] ok by auto
qed

lemma walk_cost:
  assumes ok: "ok (fa s)" and run: "walk_pagetable X al r va True s = (res, s')"
  shows "ok (fa s') \<and> card (av (fa s)) \<le> card (av (fa s')) + 3 \<and>
    (res = Ok None \<longrightarrow> card (av (fa s)) < 3)"
proof -
  obtain r1 s1 where 1: "next_table X al True r (pml4_index va) s = (r1, s1)" by fastforce
  note c1 = next_table_cost [OF ok 1]
  show ?thesis
  proof (cases "\<exists>t. r1 = Ok (Some t)")
    case False
    then show ?thesis using run 1 c1
      by (cases r1) (auto simp: walk_pagetable_def bind_def split: option.splits)
  next
    case True
    then obtain t1 where r1: "r1 = Ok (Some t1)" by blast
    obtain r2 s2 where 2: "next_table X al True t1 (pdpt_index va) s1 = (r2, s2)" by fastforce
    note c2 = next_table_cost [OF c1(1) 2]
    show ?thesis
    proof (cases "\<exists>t. r2 = Ok (Some t)")
      case False
      then show ?thesis using run 1 2 r1 c1 c2
        by (cases r2) (auto simp: walk_pagetable_def bind_def split: option.splits)
    next
      case True
      then obtain t2 where r2: "r2 = Ok (Some t2)" by blast
      obtain r3 s3 where 3: "next_table X al True t2 (pd_index va) s2 = (r3, s3)" by fastforce
      note c3 = next_table_cost [OF c2(1) 3]
      show ?thesis
        using run 1 2 3 r1 r2 c1 c2 c3
        by (cases r3) (auto simp: walk_pagetable_def bind_def split: option.splits)
    qed
  qed
qed

text \<open>One round of the loop of \<open>alloc_uvm\<close>.\<close>

lemma alloc_page_ok:
  assumes F: "filled r a k s0 s" and k: "a \<le> k" "k < 2 ^ 35"
    and old: "page_ceil oldsz = a" "unat oldsz \<le> 2 ^ 47"
    and run: "alloc_page X al dl r oldsz (page_addr k) s = (res, t)"
  shows "(res = Ok (page_addr (Suc k)) \<and> filled r a (Suc k) s0 t \<and>
      card (av (fa s)) \<le> card (av (fa t)) + 4) \<or>
    (restored r s0 t \<and>
      ((res = Err ''alloc_uvm: page is already mapped'' \<and> page_view X (pm s0) r k \<noteq> None) \<or>
       (res \<in> {Err ''alloc_uvm: frame alloc failed'', Err ''alloc_uvm: page table alloc failed''} \<and>
        card (av (fa s)) < 4)))"
proof -
  let ?va = "page_addr k"
  have ok: "space_ok X av ok s r" using F evolvesD(1) by (auto simp: filled_def)
  note o' = ok [unfolded space_ok_def]
  have user: "user_va ?va" and path: "table_path ?va @ [pt_index ?va] = page_path k"
    using user_va_page_addr [OF k(2)] va_path_page_addr [OF k(2)] va_path_table by simp_all
  have new: "virt_new X ?va x = (Ok ?va, x)" for x :: "'a mem"
    using virt_lower_half user user_va_less by (simp add: virt_new_def)
  have v0: "page_view X (pm s) r k = page_view X (pm s0) r k"
    using F k by (simp add: filled_def)
  obtain x b where al: "al (fa s) = (x, b)" by fastforce
  show ?thesis
  proof (cases x)
    case None
    let ?s1 = "s\<lparr>fa := b\<rparr>"
    have B: "av b = {}" "ok b" "av (fa s) = {}" using alloc_None al None o' by blast+
    have "evolves X av ok r s ?s1"
      using B o' by (simp add: evolves_def space_ok_def)
    then have "filled r a k s0 ?s1" using filled_same [OF F] B by simp
    from rollback_ok [OF this k old] obtain u where
      "alloc_fail X al dl r oldsz ?va ''alloc_uvm: frame alloc failed'' ?s1 =
        ((Err ''alloc_uvm: frame alloc failed'') :: u64 res, u)" "restored r s0 u" .
    then show ?thesis using run al None B by (simp add: alloc_page_def)
  next
    case (Some f)
    let ?s1 = "zero_frame f (s\<lparr>fa := b\<rparr>)"
    obtain w s2 where w: "walk_pagetable X al r ?va True ?s1 = (w, s2)" by fastforce
    have A: "f \<in> av (fa s)" "phys_frame f" using alloc_Some al Some o' avail_phys by blast+
    have fa1: "fa ?s1 = b" by (simp add: zero_frame_def)
    have "space_ok X av ok ?s1 r" using space_ok_fresh [OF ok] al Some by simp
    note W = walk_alloc [OF this user w]
    have cost: "card (av (fa s)) \<le> card (av (fa s2)) + 4"
        "w = Ok None \<Longrightarrow> card (av (fa s)) < 4"
      using alloc_cost [of s x b] walk_cost [OF _ w] al o' fa1 by auto
    have T: "taken r f s s2" using takenI [OF ok] al Some W by simp
    have returned: "filled r a k s0 (s2\<lparr>fa := dl f (fa s2)\<rparr>)"
      using filled_same [OF F] taken_back [OF T] F by (auto simp: filled_def)
    show ?thesis
    proof (cases "w = Ok None")
      case True
      from rollback_ok [OF returned k old] obtain u where
        "alloc_fail X al dl r oldsz ?va ''alloc_uvm: page table alloc failed''
           (s2\<lparr>fa := dl f (fa s2)\<rparr>) = ((Err ''alloc_uvm: page table alloc failed'') :: u64 res, u)"
        "restored r s0 u" .
      then show ?thesis
        using run al Some w new True cost
        by (simp add: alloc_page_def bind_def modify_def give_frame_def)
    next
      case False
      with W obtain tb where wt: "w = Ok (Some (tb, pt_index ?va))"
        and tab: "tbl X (pm s2) r (table_path ?va) = Some tb" by auto
      have view: "page_view X (pm s2) r k = (let e = pm s2 tb (pt_index ?va) in
          if present X e then Some (pte_addr X e, pte_flags X e, pm s2 (pte_addr X e)) else None)"
        unfolding page_view_def path [symmetric] path_view_snoc by (simp add: tab Let_def)
      have view2: "page_view X (pm s2) r k = page_view X (pm s0) r k"
        using takenD(8) [OF T k(2)] v0 by simp
      show ?thesis
      proof (cases "present X (pm s2 tb (pt_index ?va))")
        case True
        from rollback_ok [OF returned k old] obtain u where
          u: "alloc_fail X al dl r oldsz ?va ''alloc_uvm: page is already mapped''
             (s2\<lparr>fa := dl f (fa s2)\<rparr>) = ((Err ''alloc_uvm: page is already mapped'') :: u64 res, u)"
          "restored r s0 u" .
        then have "res = Err ''alloc_uvm: page is already mapped'' \<and> t = u"
          using run al Some w wt new True
          by (simp add: alloc_page_def bind_def prog give_frame_def)
        then show ?thesis using u view view2 True by (simp add: Let_def)
      next
        case np: False
        obtain u where st: "store_frame X tb (pt_index ?va) f user_flags s2 = (Ok (), u)"
          and ev: "evolves X av ok r s u" and fu: "av (fa u) = av (fa s2)"
          and vu: "\<forall>j<2 ^ 35. page_view X (pm u) r j =
            (if j = k then Some (f, user_flags, \<lambda>_. 0) else page_view X (pm s) r j)"
          using taken_mapped [OF T k(2) user_flags_ok(1,2) tab np] .
        have "res = Ok (page_addr (Suc k)) \<and> t = u"
          using run al Some w wt new np st page_addr_Suc [OF k(2)]
          by (simp add: alloc_page_def bind_def prog)
        moreover have "page_view X (pm s) r k = None"
          using np view takenD(8) [OF T k(2)] by (simp add: Let_def)
        then have "filled r a (Suc k) s0 u"
          using filled_Suc [OF F ev _ A(1) _ k(1)] fu takenD(5) [OF T] vu by simp
        ultimately show ?thesis using cost(1) fu by simp
      qed
    qed
  qed
qed

definition alloc_done :: "u64 \<Rightarrow> nat \<Rightarrow> nat \<Rightarrow> u64 \<Rightarrow> 'a mem \<Rightarrow> u64 res \<Rightarrow> 'a mem \<Rightarrow> bool" where
  "alloc_done r a b newsz s res t \<longleftrightarrow> (res = Ok newsz \<and> filled r a b s t) \<or>
    (restored r s t \<and>
      ((res = Err ''alloc_uvm: page is already mapped'' \<and>
          (\<exists>k. a \<le> k \<and> k < b \<and> page_view X (pm s) r k \<noteq> None)) \<or>
       (res \<in> {Err ''alloc_uvm: frame alloc failed'', Err ''alloc_uvm: page table alloc failed''} \<and>
        card (av (fa s)) < 4 * (b - a))))"

lemma alloc_loop_ok:
  assumes "filled r a k s0 s" and "a \<le> k" and "k \<le> page_ceil newsz \<or> k = a" and "k \<le> 2 ^ 35"
    and new: "unat newsz < 2 ^ 47" and old: "page_ceil oldsz = a" "unat oldsz \<le> 2 ^ 47"
    and "alloc_loop X al dl r oldsz newsz (page_addr k) s = (res, t)"
    and "card (av (fa s0)) \<le> card (av (fa s)) + 4 * (k - a)"
  shows "alloc_done r a (page_ceil newsz) newsz s0 res t"
  using assms(1-4,8,9)
proof (induction "page_ceil newsz - k" arbitrary: k s)
  case 0
  then have "\<not> page_addr k < newsz"
    by (simp add: page_addr_less less_page_ceil)
  then have res: "res = Ok newsz" "t = s"
    using 0 by (simp_all add: alloc_loop.simps)
  have "filled r a (page_ceil newsz) s0 s"
  proof (cases "k = page_ceil newsz")
    case False
    with 0 have "k = a" "page_ceil newsz \<le> a" by auto
    then have "a \<le> j \<and> j < k \<longleftrightarrow> a \<le> j \<and> j < page_ceil newsz" for j by auto
    then show ?thesis using 0 unfolding filled_def by simp
  qed (use 0 in simp)
  then show ?case using res by (simp add: alloc_done_def)
next
  case (Suc n)
  have kc: "k < page_ceil newsz" using Suc.hyps(2) by simp
  then have k: "k < 2 ^ 35" and go: "page_addr k < newsz"
    using page_ceil_bound [of newsz] new Suc.prems(4)
    by (simp_all add: page_addr_less less_page_ceil)
  obtain x u where p: "alloc_page X al dl r oldsz (page_addr k) s = (x, u)" by fastforce
  note P = alloc_page_ok [OF Suc.prems(1,2) k old p]
  show ?case
  proof (cases x)
    case (Ok w)
    with P have A: "w = page_addr (Suc k)" "filled r a (Suc k) s0 u"
        "card (av (fa s)) \<le> card (av (fa u)) + 4"
      by auto
    then have "alloc_loop X al dl r oldsz newsz (page_addr (Suc k)) u = (res, t)"
      using Suc.prems(5) go p Ok page_addr_Suc [OF k] by (subst (asm) alloc_loop.simps) simp
    moreover have "n = page_ceil newsz - Suc k" using Suc.hyps(2) by simp
    moreover have "card (av (fa s0)) \<le> card (av (fa u)) + 4 * (Suc k - a)"
      using Suc.prems(2,6) A(3) by simp
    ultimately show ?thesis
      using Suc.hyps(1) [of "Suc k" u] A Suc.prems(2) kc k by simp
  next
    case (Err e)
    then have same: "res = x \<and> t = u"
      using Suc.prems(5) go p by (subst (asm) alloc_loop.simps) simp
    have few: "card (av (fa s)) < 4 \<Longrightarrow> card (av (fa s0)) < 4 * (page_ceil newsz - a)"
      using Suc.prems(2,6) kc by simp
    have Q: "restored r s0 u" using P Err by simp
    consider (mapped) "x = Err ''alloc_uvm: page is already mapped''" "page_view X (pm s0) r k \<noteq> None"
      | (dry) "x \<in> {Err ''alloc_uvm: frame alloc failed'', Err ''alloc_uvm: page table alloc failed''}"
          "card (av (fa s)) < 4"
      using P Err by fastforce
    then show ?thesis
    proof cases
      case mapped
      have "\<exists>j. a \<le> j \<and> j < page_ceil newsz \<and> page_view X (pm s0) r j \<noteq> None"
        using kc Suc.prems(2) mapped(2) by blast
      then show ?thesis unfolding alloc_done_def using same Q mapped(1) by simp
    next
      case dry
      then show ?thesis unfolding alloc_done_def using same Q few by simp
    qed
  next
    case (Panic e)
    with P show ?thesis by simp
  qed
qed

lemma alloc_uvm_done:
  assumes ok: "space_ok X av ok s r" and le: "oldsz \<le> newsz" and new: "unat newsz < 2 ^ 47"
    and run: "alloc_uvm X al dl r oldsz newsz s = (res, t)"
  shows "alloc_done r (page_ceil oldsz) (page_ceil newsz) newsz s res t"
proof -
  have old: "unat oldsz < 2 ^ 47" using le new by (simp add: word_le_nat_alt)
  have top: "push_bit 39 (256 :: u64) = 2 ^ 47" by (simp add: push_bit_eq_mult)
  have in_user: "\<not> (2 ^ 47 :: u64) \<le> newsz"
    using new unat_exp [where ?'a = 64 and k = 47] by (simp add: word_le_nat_alt)
  obtain po where "phys_offset s = Some po" using ok by (auto simp: space_ok_def)
  then have loop: "alloc_loop X al dl r oldsz newsz (page_addr (page_ceil oldsz)) s = (res, t)"
    using run page_round_up_ok [of oldsz s] old le in_user
    by (simp add: alloc_uvm_def offset_set_def bind_def prog checked_shl_def top not_less split: if_splits)
  have "filled r (page_ceil oldsz) (page_ceil oldsz) s s"
    using evolves_refl [OF ok] by (auto simp: filled_def)
  from alloc_loop_ok [OF this _ _ _ new _ _ loop] show ?thesis
    using old page_ceil_bound [of oldsz] by simp
qed

end

end
