(* ===== verification/Duplicate.thy ===== *)
theory Duplicate
  imports Subtree Growth
begin

text \<open>
  \<open>new_uvm\<close> and \<open>copy_uvm\<close>: a new address space has an empty user half and the kernel half of the
  table in \<open>CR3\<close>; a copied one shows the parent's pages with the same flags and the same contents
  on frames that were free, and the parent keeps its own.
\<close>

section \<open>A new address space\<close>

lemma foreach_copy_entries:
  assumes "n \<noteq> c"
  shows "foreach is (\<lambda>i. modify (\<lambda>s. set_entry n i (pm s c i) s)) s =
    (Ok (), s\<lparr>pm := (pm s)(n := (\<lambda>j. if j \<in> set is then pm s c j else pm s n j))\<rparr>)"
proof (induction "is" arbitrary: s)
  case Nil
  show ?case by simp
next
  case (Cons i "is")
  let ?s1 = "set_entry n i (pm s c i) s"
  have "(pm ?s1)(n := (\<lambda>j. if j \<in> set is then pm ?s1 c j else pm ?s1 n j)) =
      (pm s)(n := (\<lambda>j. if j \<in> set (i # is) then pm s c j else pm s n j))"
    using assms by (auto simp: set_entry_def fun_eq_iff)
  moreover have "?s1\<lparr>pm := h\<rparr> = s\<lparr>pm := h\<rparr>" for h
    by (simp add: set_entry_def)
  ultimately show ?case
    by (simp add: Cons.IH del: fun_upd_apply)
qed

definition kernel_half :: "phys_mem \<Rightarrow> u64 \<Rightarrow> nat \<Rightarrow> u64" where
  "kernel_half m cr3 i = (if 256 \<le> i \<and> i < 512 then m cr3 i else 0)"

lemma user_l4_indices:
  "unat (drop_bit 39 USER_CODE_START AND mask 9) = 32"
  "unat (drop_bit 39 USER_STACK_TOP AND mask 9) = 64"
  by (simp_all add: unat_and_mask unat_drop_bit) (simp_all add: USER_CODE_START_def USER_STACK_TOP_def)

context frame_source
begin

lemma new_uvm_ok:
  assumes ok: "ok (fa s)" and cr3: "cr3 \<notin> avail (fa s)" and po: "phys_offset s \<noteq> None"
    and run: "new_uvm alloc cr3 s = (res, s')"
  shows "(\<exists>c. res = Ok c \<and> c \<in> avail (fa s) \<and> avail (fa s') = avail (fa s) - {c} \<and> ok (fa s') \<and>
      s' = s\<lparr>fa := fa s', pm := (pm s)(c := kernel_half (pm s) cr3)\<rparr>) \<or>
    (res = Err ''allocating frame failed'' \<and> avail (fa s) = {} \<and> avail (fa s') = {} \<and> ok (fa s') \<and>
      s' = s\<lparr>fa := fa s'\<rparr>)"
proof -
  obtain x a where al: "alloc (fa s) = (x, a)" by fastforce
  obtain o' where o': "phys_offset s = Some o'" using po by auto
  show ?thesis
  proof (cases x)
    case None
    then show ?thesis
      using run al o' alloc_None [OF ok, of a]
      by (auto simp: new_uvm_def setup_kvm_def take_frame_def offset_set_def bind_def throw_def)
  next
    case (Some c)
    have c: "c \<in> avail (fa s)" "avail a = avail (fa s) - {c}" "ok a"
      using alloc_Some [OF ok] al Some by auto
    then have ne: "c \<noteq> cr3" using cr3 by blast
    let ?s1 = "zero_frame c (s\<lparr>fa := a\<rparr>)"
    define ks where "ks = [256..<512::nat]"
    have ks: "j \<in> set ks \<longleftrightarrow> 256 \<le> j \<and> j < 512" for j
      unfolding ks_def set_upt by simp
    have h: "(\<lambda>j. if j \<in> set ks then pm ?s1 cr3 j else pm ?s1 c j) = kernel_half (pm s) cr3"
      using ne by (auto simp: kernel_half_def zero_frame_def ks)
    have "setup_kvm alloc cr3 s = (Ok c, ?s1\<lparr>pm := (pm ?s1)(c := kernel_half (pm s) cr3)\<rparr>)"
      using al Some foreach_copy_entries [OF ne, of ks ?s1]
      unfolding h setup_kvm_def ks_def [symmetric]
      by (simp add: take_frame_def bind_def prog)
    moreover have "(kernel_half (pm s) cr3)(32 := 0, 64 := 0) = kernel_half (pm s) cr3"
      by (auto simp: kernel_half_def)
    ultimately have "new_uvm alloc cr3 s = (Ok c, s\<lparr>fa := a, pm := (pm s)(c := kernel_half (pm s) cr3)\<rparr>)"
      using o' by (simp add: new_uvm_def offset_set_def bind_def prog user_l4_indices set_entry_def zero_frame_def)
    then show ?thesis using run c by simp
  qed
qed

end

section \<open>What a copy shows\<close>

definition copied_at ::
  "x86 \<Rightarrow> (phys_mem \<Rightarrow> u64 \<Rightarrow> phys_mem \<Rightarrow> u64 \<Rightarrow> bool) \<Rightarrow> phys_mem \<Rightarrow> u64 \<Rightarrow> phys_mem \<Rightarrow> u64 \<Rightarrow> nat \<Rightarrow> bool"
where
  "copied_at X rel m p m' c i \<longleftrightarrow> present X (m' c i) = present X (m p i) \<and>
     (present X (m p i) \<longrightarrow> pte_flags X (m' c i) = pte_flags X (m p i) \<and>
        rel m (pte_addr X (m p i)) m' (pte_addr X (m' c i)))"

definition same_data :: "phys_mem \<Rightarrow> u64 \<Rightarrow> phys_mem \<Rightarrow> u64 \<Rightarrow> bool" where
  "same_data m p m' c \<longleftrightarrow> m' c = m p"

primrec copied :: "x86 \<Rightarrow> nat \<Rightarrow> nat list \<Rightarrow> phys_mem \<Rightarrow> u64 \<Rightarrow> phys_mem \<Rightarrow> u64 \<Rightarrow> bool" where
  "copied X 0 is = (\<lambda>m p m' c. \<forall>i\<in>set is. copied_at X same_data m p m' c i)"
| "copied X (Suc lv) is = (\<lambda>m p m' c. \<forall>i\<in>set is. copied_at X (copied X lv [0..<512]) m p m' c i)"

lemma copied_at_cong:
  assumes "local_to sub (rel m (pte_addr X (m p i)))" and "m' c i = m1 c i"
    and "\<And>g. g \<in> set (below_at X sub m1 c i) \<Longrightarrow> m' g = m1 g"
  shows "copied_at X rel m p m' c i = copied_at X rel m p m1 c i"
proof (cases "present X (m1 c i)")
  case True
  then have "rel m (pte_addr X (m p i)) m' (pte_addr X (m1 c i)) =
      rel m (pte_addr X (m p i)) m1 (pte_addr X (m1 c i))"
    using assms(3) by (intro local_toD [OF assms(1)]) (auto simp: below_at_def)
  then show ?thesis by (simp add: copied_at_def assms(2))
qed (auto simp: copied_at_def assms(2))

lemma local_all_copied:
  assumes "\<And>u. local_to sub (rel m u)"
  shows "local_to (\<lambda>m t. concat (map (below_at X sub m t) is))
    (\<lambda>m' c. \<forall>i\<in>set is. copied_at X rel m p m' c i)"
  unfolding local_to_def
proof (intro allI impI, elim conjE)
  fix m1 m' :: phys_mem and t
  assume t: "m' t = m1 t" and all: "\<forall>g\<in>set (concat (map (below_at X sub m1 t) is)). m' g = m1 g"
  have "copied_at X rel m p m' t i = copied_at X rel m p m1 t i" if "i \<in> set is" for i
    by (rule copied_at_cong [where sub = sub]) (use assms t all that in auto)
  then show "(\<forall>i\<in>set is. copied_at X rel m p m' t i) = (\<forall>i\<in>set is. copied_at X rel m p m1 t i)"
    by simp
qed

lemma local_same_data: "local_to (\<lambda>_ _. []) (same_data m u)"
  by (simp add: local_to_def same_data_def)

lemma local_copied: "local_to (below X lv is) (copied X lv is m u)"
  by (induction lv arbitrary: "is" u) (simp_all add: local_all_copied local_same_data)

text \<open>In terms of paths: the same pages, with the same flags and contents.\<close>

lemma path_view_Cons:
  "path_view X m r (i # q) = (if present X (m r i) then
     (if q = [] then Some (pte_addr X (m r i), pte_flags X (m r i), m (pte_addr X (m r i)))
      else path_view X m (pte_addr X (m r i)) q) else None)"
  by (auto simp: path_view_def Let_def split: option.splits)

lemma copied_view:
  "copied X lv is m p m' c \<Longrightarrow> length q = Suc lv \<Longrightarrow> hd q \<in> set is \<Longrightarrow> \<forall>i\<in>set (tl q). i < 512 \<Longrightarrow>
   map_option snd (path_view X m' c q) = map_option snd (path_view X m p q)"
proof (induction lv arbitrary: "is" p c q)
  case 0
  then show ?case
    by (cases q) (auto simp: path_view_Cons copied_at_def same_data_def)
next
  case (Suc lv)
  obtain i q' where q: "q = i # q'" "q' \<noteq> []"
    using Suc.prems(2) by (metis length_Suc_conv list.size(3) nat.distinct(1))
  have at: "copied_at X (copied X lv [0..<512]) m p m' c i" using Suc.prems(1,3) q by simp
  show ?case
  proof (cases "present X (m p i)")
    case True
    then have "copied X lv [0..<512] m (pte_addr X (m p i)) m' (pte_addr X (m' c i))"
      using at by (simp add: copied_at_def)
    then have "map_option snd (path_view X m' (pte_addr X (m' c i)) q') =
        map_option snd (path_view X m (pte_addr X (m p i)) q')"
      using Suc.prems(2,4) q by (intro Suc.IH) (cases q'; auto)+
    then show ?thesis using at True q by (simp add: path_view_Cons copied_at_def)
  qed (use at q in \<open>simp add: path_view_Cons copied_at_def\<close>)
qed

lemma copied_plain:
  "copied X lv is m p m' c \<Longrightarrow> plain X lv is m p \<Longrightarrow> plain X lv is m' c"
proof (induction lv arbitrary: "is" p c)
  case 0
  then show ?case by (auto simp: copied_at_def plain_at_def)
next
  case (Suc lv)
  have "plain_at X (plain X lv [0..<512]) m' c i" if "i \<in> set is" for i
    using Suc.prems that Suc.IH [of "[0..<512]" "pte_addr X (m p i)" "pte_addr X (m' c i)"]
    by (auto simp: copied_at_def plain_at_def)
  then show ?case by simp
qed

lemma copied_pages:
  assumes "copied X 3 [0..<256] m r m' c" and "k < 2 ^ 35"
  shows "map_option snd (page_view X m' c k) = map_option snd (page_view X m r k)"
proof -
  note up = upath_page [OF assms(2)]
  have "hd (page_path k) < 256" "\<forall>i\<in>set (tl (page_path k)). i < 512" "length (page_path k) = Suc 3"
    using up by (auto simp: upath_def page_path_def)
  then show ?thesis
    unfolding page_view_def by (intro copied_view [OF assms(1)]) auto
qed

section \<open>Copying\<close>

context paging
begin

text \<open>\<open>m\<close> is the memory before the copy, \<open>par\<close> the parent's frames that are read, \<open>fr\<close> the frames
  of the child.\<close>

definition can_copy :: "phys_mem \<Rightarrow> u64 set \<Rightarrow> u64 \<Rightarrow> 'a mem \<Rightarrow> bool" where
  "can_copy m par c s \<longleftrightarrow> ok (fa s) \<and> c \<notin> av (fa s) \<and> c \<notin> par \<and> par \<inter> av (fa s) = {} \<and>
     (\<forall>g\<in>par. pm s g = m g)"

definition copy_post ::
  "(phys_mem \<Rightarrow> u64 list) \<Rightarrow> (phys_mem \<Rightarrow> bool) \<Rightarrow> u64 \<Rightarrow> 'a mem \<Rightarrow> unit res \<Rightarrow> 'a mem \<Rightarrow> bool" where
  "copy_post fr rel c s res s' \<longleftrightarrow> ok (fa s') \<and> phys_offset s' = phys_offset s \<and>
     av (fa s') \<subseteq> av (fa s) \<and> (\<forall>g. g \<noteq> c \<and> g \<notin> av (fa s) \<longrightarrow> pm s' g = pm s g) \<and>
     ((res = Ok () \<and> distinct (fr (pm s')) \<and> set (fr (pm s')) = av (fa s) - av (fa s') \<and> rel (pm s')) \<or>
      (\<exists>e. res = Err e \<and> av (fa s') = {}))"

lemma copy_post_ok:
  "copy_post fr rel c s (Ok ()) s' \<longleftrightarrow> ok (fa s') \<and> phys_offset s' = phys_offset s \<and>
     av (fa s') \<subseteq> av (fa s) \<and> (\<forall>g. g \<noteq> c \<and> g \<notin> av (fa s) \<longrightarrow> pm s' g = pm s g) \<and>
     distinct (fr (pm s')) \<and> set (fr (pm s')) = av (fa s) - av (fa s') \<and> rel (pm s')"
  by (auto simp: copy_post_def)

lemma can_copy_step:
  assumes "can_copy m par c s" and "copy_post fr rel c s res s'"
  shows "can_copy m par c s'"
  using assms unfolding can_copy_def copy_post_def by auto

text \<open>Taking a frame for the child's entry.\<close>

lemma child_entry:
  assumes f: "phys_frame f" and nh: "\<not> contains (pte_flags X e0) HUGE_PAGE" and pr: "present X e0"
  obtains e where "store_frame X c i f (pte_flags X e0) s = (Ok (), set_entry c i e s)"
    and "pte_flags X e = pte_flags X e0" and "pte_addr X e = f" and "present X e"
proof -
  have "flag_word (pte_flags X e0)" using nh flags_bits by (simp add: flag_word_def)
  from set_frame_ok [OF f this] obtain e where
    "pte_set_frame X f (pte_flags X e0) = Some e" "pte_flags X e = pte_flags X e0" "pte_addr X e = f"
    by blast
  then show ?thesis
    using that [of e] pr by (simp add: store_frame_def modify_def present_def)
qed

lemma take_frame_cases:
  assumes "ok (fa s)"
  obtains (none) a where "take_frame al msg s = (Err msg, s\<lparr>fa := a\<rparr>)" and "av (fa s) = {}"
      and "av a = {}" and "ok a"
  | (some) f a where "take_frame al msg s = (Ok f, s\<lparr>fa := a\<rparr>)" and "f \<in> av (fa s)"
      and "av a = av (fa s) - {f}" and "ok a" and "phys_frame f"
proof -
  obtain x a where al: "al (fa s) = (x, a)" by fastforce
  show ?thesis
  proof (cases x)
    case None
    then show ?thesis
      using none [of a] al alloc_None [OF assms, of a] by (simp add: take_frame_def throw_def)
  next
    case (Some f)
    then show ?thesis
      using some [of f a] al alloc_Some [OF assms, of f a] avail_phys [OF assms, of f]
      by (simp add: take_frame_def ret_def)
  qed
qed

lemma copy_page_ok:
  assumes pre: "can_copy m (set (p # below_at X (\<lambda>_ _. []) m p i)) c s"
    and np: "\<not> present X (pm s c i)" and pl: "plain_at X (\<lambda>_ _. True) m p i"
  shows "\<exists>res s'. copy_page X al p c i s = (res, s') \<and>
    copy_post (\<lambda>m'. below_at X (\<lambda>_ _. []) m' c i) (\<lambda>m'. copied_at X same_data m p m' c i) c s res s' \<and>
    (\<forall>j. j \<noteq> i \<longrightarrow> pm s' c j = pm s c j)"
proof -
  note P = pre [unfolded can_copy_def]
  have e0: "pm s p i = m p i" using P by auto
  show ?thesis
  proof (cases "present X (m p i)")
    case False
    then have "copy_page X al p c i s = (Ok (), s)" by (simp add: copy_page_def e0)
    then show ?thesis
      using P np False by (auto simp: copy_post_def below_at_def copied_at_def)
  next
    case True
    let ?u = "pte_addr X (m p i)"
    have u: "?u \<noteq> c" "?u \<notin> av (fa s)" "pm s ?u = m ?u"
      using P True by (auto simp: below_at_def)
    show ?thesis
    proof (rule take_frame_cases [of s "''copy_uvm: failed to allocate data frame''"], goal_cases)
      case 1
      then show ?case using P by simp
    next
      case (2 a)
      then show ?thesis
        using True by (auto simp: copy_page_def e0 copy_post_def)
    next
      case (3 f a)
      let ?s1 = "s\<lparr>fa := a, pm := (pm s)(f := m ?u)\<rparr>"
      have nh: "\<not> contains (pte_flags X (m p i)) HUGE_PAGE" using pl True by (simp add: plain_at_def)
      obtain e where st: "store_frame X c i f (pte_flags X (m p i)) ?s1 = (Ok (), set_entry c i e ?s1)"
        and e: "pte_flags X e = pte_flags X (m p i)" "pte_addr X e = f" "present X e"
        by (rule child_entry [OF 3(5) nh True])
      have run: "copy_page X al p c i s = (Ok (), set_entry c i e ?s1)"
        using True 3(1) st u by (simp add: copy_page_def e0)
      have "f \<noteq> c" using 3(2) P by auto
      then show ?thesis
        using run 3 e True P
        by (auto simp: copy_post_def below_at_def copied_at_def same_data_def set_entry_def)
    qed
  qed
qed

lemma copy_table_ok:
  assumes inner: "\<And>u v s. can_copy m (set (u # sub m u)) v s \<Longrightarrow> (\<And>j. \<not> present X (pm s v j)) \<Longrightarrow>
      pl m u \<Longrightarrow> \<exists>res s'. inner u v s = (res, s') \<and> copy_post (\<lambda>m'. sub m' v) (\<lambda>m'. rel m u m' v) v s res s'"
    and pre: "can_copy m (set (p # below_at X sub m p i)) c s"
    and np: "\<not> present X (pm s c i)" and pl: "plain_at X pl m p i"
  shows "\<exists>res s'. copy_table X al msg inner p c i s = (res, s') \<and>
    copy_post (\<lambda>m'. below_at X sub m' c i) (\<lambda>m'. copied_at X rel m p m' c i) c s res s' \<and>
    (\<forall>j. j \<noteq> i \<longrightarrow> pm s' c j = pm s c j)"
proof -
  note P = pre [unfolded can_copy_def]
  have e0: "pm s p i = m p i" using P by auto
  show ?thesis
  proof (cases "present X (m p i)")
    case False
    then have "copy_table X al msg inner p c i s = (Ok (), s)" by (simp add: copy_table_def e0)
    then show ?thesis
      using P np False by (auto simp: copy_post_def below_at_def copied_at_def)
  next
    case True
    let ?u = "pte_addr X (m p i)"
    show ?thesis
    proof (rule take_frame_cases [of s msg], goal_cases)
      case 1
      then show ?case using P by simp
    next
      case (2 a)
      then show ?thesis
        using True by (auto simp: copy_table_def e0 copy_post_def)
    next
      case (3 f a)
      let ?s1 = "zero_frame f (s\<lparr>fa := a\<rparr>)"
      have nh: "\<not> contains (pte_flags X (m p i)) HUGE_PAGE" using pl True by (simp add: plain_at_def)
      obtain e where st: "store_frame X c i f (pte_flags X (m p i)) ?s1 = (Ok (), set_entry c i e ?s1)"
        and e: "pte_flags X e = pte_flags X (m p i)" "pte_addr X e = f" "present X e"
        by (rule child_entry [OF 3(5) nh True])
      let ?s2 = "set_entry c i e ?s1"
      have fc: "f \<noteq> c" "f \<noteq> p" "p \<noteq> c" using 3(2) P by auto
      have s2: "fa ?s2 = a" "phys_offset ?s2 = phys_offset s" "pm ?s2 f = (\<lambda>_. 0)"
          "pm ?s2 c = (pm s c)(i := e)" "\<And>g. g \<noteq> f \<Longrightarrow> g \<noteq> c \<Longrightarrow> pm ?s2 g = pm s g"
        using fc by (simp_all add: set_entry_def zero_frame_def)
      have e1: "pm ?s2 p i = m p i" using s2(5) [of p] fc e0 by simp
      have sub: "set (?u # sub m ?u) \<subseteq> set (p # below_at X sub m p i)"
        using True by (auto simp: below_at_def)
      have "can_copy m (set (?u # sub m ?u)) f ?s2"
        unfolding can_copy_def s2(1)
      proof (intro conjI ballI)
        show "ok a" "f \<notin> av a" using 3 by auto
        show "f \<notin> set (?u # sub m ?u)" "set (?u # sub m ?u) \<inter> av a = {}"
          using P sub 3 by blast+
        fix g assume "g \<in> set (?u # sub m ?u)"
        then have "g \<in> set (p # below_at X sub m p i)" using sub by blast
        then have "g \<noteq> f" "g \<noteq> c" "pm s g = m g" using P 3(2) by auto
        then show "pm ?s2 g = m g" using s2(5) by simp
      qed
      moreover have "\<not> present X (pm ?s2 f j)" for j by (simp add: s2)
      moreover have "pl m ?u" using pl True by (simp add: plain_at_def)
      ultimately obtain res s3 where run: "inner ?u f ?s2 = (res, s3)"
        and post: "copy_post (\<lambda>m'. sub m' f) (\<lambda>m'. rel m ?u m' f) f ?s2 res s3"
        using inner by blast
      note Q = post [unfolded copy_post_def s2(1)]
      have c3: "pm s3 c = (pm s c)(i := e)" using Q s2(4) fc 3 P by auto
      have go: "copy_table X al msg inner p c i s = (res, s3)"
        using True 3(1) st run e1 by (simp add: copy_table_def e0)
      have frame: "pm s3 g = pm s g" if "g \<noteq> c" "g \<notin> av (fa s)" for g
      proof -
        have "g \<noteq> f" "g \<notin> av a" using that 3(2,3) by auto
        then have "pm s3 g = pm ?s2 g" using Q by blast
        also have "\<dots> = pm s g" using s2(5) that(1) \<open>g \<noteq> f\<close> by blast
        finally show ?thesis .
      qed
      have b: "below_at X sub (pm s3) c i = f # sub (pm s3) f"
        by (simp add: below_at_def c3 e)
      have ci: "copied_at X rel m p (pm s3) c i \<longleftrightarrow> rel m ?u (pm s3) f"
        by (simp add: copied_at_def c3 e True)
      have "copy_post (\<lambda>m'. below_at X sub m' c i) (\<lambda>m'. copied_at X rel m p m' c i) c s res s3"
        unfolding copy_post_def b ci using Q 3 s2(2) frame by auto
      then show ?thesis using go c3 by auto
    qed
  qed
qed

text \<open>The loop over the entries, for a body that copies one of them.\<close>

lemma copy_loop_ok:
  assumes body: "\<And>i s. i \<in> set is \<Longrightarrow> can_copy m par c s \<Longrightarrow> \<not> present X (pm s c i) \<Longrightarrow>
      \<exists>res s'. body i s = (res, s') \<and>
        copy_post (\<lambda>m'. below_at X sub m' c i) (\<lambda>m'. copied_at X rel m p m' c i) c s res s' \<and>
        (\<forall>j. j \<noteq> i \<longrightarrow> pm s' c j = pm s c j)"
    and loc: "local_to sub sub" "\<And>u. local_to sub (rel m u)" and "distinct is"
    and "can_copy m par c s" and "\<And>i. i \<in> set is \<Longrightarrow> \<not> present X (pm s c i)"
  shows "\<exists>res s'. foreach is body s = (res, s') \<and>
    copy_post (\<lambda>m'. concat (map (below_at X sub m' c) is))
      (\<lambda>m'. \<forall>i\<in>set is. copied_at X rel m p m' c i) c s res s' \<and>
    (\<forall>j. j \<notin> set is \<longrightarrow> pm s' c j = pm s c j)"
  using assms(1,4-6)
proof (induction "is" arbitrary: s)
  case Nil
  then show ?case by (auto simp: copy_post_def can_copy_def)
next
  case (Cons i "is")
  obtain res s1 where run: "body i s = (res, s1)"
    and post: "copy_post (\<lambda>m'. below_at X sub m' c i) (\<lambda>m'. copied_at X rel m p m' c i) c s res s1"
    and other: "\<And>j. j \<noteq> i \<Longrightarrow> pm s1 c j = pm s c j"
    using Cons.prems(1) [of i s] Cons.prems(3,4) by auto
  show ?case
  proof (cases "res = Ok ()")
    case False
    then have "\<exists>e. res = Err e \<and> av (fa s1) = {}" using post by (auto simp: copy_post_def)
    then have "foreach (i # is) body s = (res, s1)" using run by auto
    moreover have "copy_post (\<lambda>m'. concat (map (below_at X sub m' c) (i # is)))
        (\<lambda>m'. \<forall>i\<in>set (i # is). copied_at X rel m p m' c i) c s res s1"
      using post \<open>\<exists>e. _\<close> unfolding copy_post_def by blast
    ultimately show ?thesis using other by auto
  next
    case True
    note Q = post [unfolded True copy_post_ok]
    have "\<exists>res s'. foreach is body s1 = (res, s') \<and>
        copy_post (\<lambda>m'. concat (map (below_at X sub m' c) is))
          (\<lambda>m'. \<forall>i\<in>set is. copied_at X rel m p m' c i) c s1 res s' \<and>
        (\<forall>j. j \<notin> set is \<longrightarrow> pm s' c j = pm s1 c j)"
    proof (rule Cons.IH)
      show "can_copy m par c s1" using can_copy_step [OF Cons.prems(3) post] .
      show "\<not> present X (pm s1 c j)" if "j \<in> set is" for j
      proof -
        have "j \<noteq> i" using that Cons.prems(2) by auto
        then have "pm s1 c j = pm s c j" by (rule other)
        then show ?thesis using Cons.prems(4) [of j] that by simp
      qed
    qed (use Cons.prems in auto)
    then obtain res2 s2 where run2: "foreach is body s1 = (res2, s2)"
      and post2: "copy_post (\<lambda>m'. concat (map (below_at X sub m' c) is))
          (\<lambda>m'. \<forall>i\<in>set is. copied_at X rel m p m' c i) c s1 res2 s2"
      and other2: "\<And>j. j \<notin> set is \<Longrightarrow> pm s2 c j = pm s1 c j" by auto
    note R = post2 [unfolded copy_post_def]
    have go: "foreach (i # is) body s = (res2, s2)" using run run2 True by simp
    have keep: "pm s2 c i = pm s1 c i" using other2 Cons.prems(2) by simp
    have c: "c \<notin> av (fa s)" using Cons.prems(3) by (simp add: can_copy_def)
    have kept: "pm s2 g = pm s1 g" if "g \<in> set (below_at X sub (pm s1) c i)" for g
      using that Q R c by auto
    have b: "below_at X sub (pm s2) c i = below_at X sub (pm s1) c i"
      by (rule below_at_cong [where sub = sub, OF loc(1)]) (use keep kept in auto)
    have ci: "copied_at X rel m p (pm s2) c i = copied_at X rel m p (pm s1) c i"
      by (rule copied_at_cong [where sub = sub]) (use loc(2) keep kept in auto)
    have "copy_post (\<lambda>m'. concat (map (below_at X sub m' c) (i # is)))
        (\<lambda>m'. \<forall>i\<in>set (i # is). copied_at X rel m p m' c i) c s res2 s2"
      unfolding copy_post_def using Q R by (auto simp: b ci)
    then show ?thesis using go other other2 by auto
  qed
qed

lemma can_copy_mono: "can_copy m par c s \<Longrightarrow> par' \<subseteq> par \<Longrightarrow> can_copy m par' c s"
  unfolding can_copy_def by blast

lemma copy_entries_ok:
  assumes "distinct is" and "can_copy m (set (p # below X lv is m p)) c s"
    and "plain X lv is m p" and "\<And>i. i \<in> set is \<Longrightarrow> \<not> present X (pm s c i)"
  shows "\<exists>res s'. copy_entries X al lv p c is s = (res, s') \<and>
    copy_post (\<lambda>m'. below X lv is m' c) (\<lambda>m'. copied X lv is m p m' c) c s res s' \<and>
    (\<forall>j. j \<notin> set is \<longrightarrow> pm s' c j = pm s c j)"
  using assms
proof (induction lv arbitrary: "is" p c s)
  case 0
  have body: "\<exists>res s'. copy_page X al p c i t = (res, s') \<and>
        copy_post (\<lambda>m'. below_at X (\<lambda>_ _. []) m' c i) (\<lambda>m'. copied_at X same_data m p m' c i) c t res s' \<and>
        (\<forall>j. j \<noteq> i \<longrightarrow> pm s' c j = pm t c j)"
    if "i \<in> set is" "can_copy m (set (p # below X 0 is m p)) c t" "\<not> present X (pm t c i)" for i t
    using that(1) 0(3) by (intro copy_page_ok can_copy_mono [OF that(2)] that(3)) auto
  show ?case
    using copy_loop_ok [OF body local_const local_same_data 0(1,2,4)] by simp
next
  case (Suc lv)
  let ?inner = "\<lambda>p c. copy_entries X al lv p c [0..<512]"
  have inner: "\<exists>res s'. ?inner u v t = (res, s') \<and>
      copy_post (\<lambda>m'. below X lv [0..<512] m' v) (\<lambda>m'. copied X lv [0..<512] m u m' v) v t res s'"
    if "can_copy m (set (u # below X lv [0..<512] m u)) v t" "\<And>j. \<not> present X (pm t v j)"
      "plain X lv [0..<512] m u" for u v t
    using Suc.IH [OF distinct_upt that(1,3)] that(2) by blast
  have body: "\<exists>res s'. copy_table X al (copy_msg lv) ?inner p c i t = (res, s') \<and>
        copy_post (\<lambda>m'. below_at X (below X lv [0..<512]) m' c i)
          (\<lambda>m'. copied_at X (copied X lv [0..<512]) m p m' c i) c t res s' \<and>
        (\<forall>j. j \<noteq> i \<longrightarrow> pm s' c j = pm t c j)"
    if "i \<in> set is" "can_copy m (set (p # below X (Suc lv) is m p)) c t" "\<not> present X (pm t c i)" for i t
    using that(1) Suc.prems(3)
    by (intro copy_table_ok [where pl = "plain X lv [0..<512]" and sub = "below X lv [0..<512]"
        and rel = "copied X lv [0..<512]" and m = m and inner = ?inner, OF inner]
        can_copy_mono [OF that(2)] that(3)) auto
  show ?case
    using copy_loop_ok [OF body local_below local_copied Suc.prems(1,2,4)]
    unfolding copy_entries.simps below.simps copied.simps .
qed

text \<open>The whole of \<open>copy_uvm\<close>.\<close>

lemma copy_uvm_ok:
  assumes sp: "space_ok X av ok s r" and cr3: "cr3 \<notin> av (fa s)"
    and run: "copy_uvm X al cr3 r s = (res, s')"
  shows "(\<exists>c. res = Ok c \<and> space_ok X av ok s' c \<and> space_frames X (pm s') c = av (fa s) - av (fa s') \<and>
      (\<forall>k<2 ^ 35. map_option snd (page_view X (pm s') c k) = map_option snd (page_view X (pm s) r k)) \<and>
      (\<forall>i. 256 \<le> i \<and> i < 512 \<longrightarrow> pm s' c i = pm s cr3 i)) \<or>
    (\<exists>e. res = Err e \<and> av (fa s') = {})"
    and "\<forall>g. g \<notin> av (fa s) \<longrightarrow> pm s' g = pm s g"
    and "ok (fa s') \<and> av (fa s') \<subseteq> av (fa s) \<and> phys_offset s' = phys_offset s"
proof -
  note S = sp [unfolded space_ok_def]
  obtain x s1 where new: "new_uvm al cr3 s = (x, s1)" by fastforce
  obtain po where po: "phys_offset s = Some po" using S by auto
  have off: "offset_set s = (Ok po, s)" by (simp add: offset_set_def po)
  have N: "(\<exists>c. x = Ok c \<and> c \<in> av (fa s) \<and> av (fa s1) = av (fa s) - {c} \<and> ok (fa s1) \<and>
      s1 = s\<lparr>fa := fa s1, pm := (pm s)(c := kernel_half (pm s) cr3)\<rparr>) \<or>
    (x = Err ''allocating frame failed'' \<and> av (fa s) = {} \<and> av (fa s1) = {} \<and> ok (fa s1) \<and>
      s1 = s\<lparr>fa := fa s1\<rparr>)"
    using new_uvm_ok [OF _ cr3 _ new] S by blast
  let ?A = "(\<exists>c. res = Ok c \<and> space_ok X av ok s' c \<and> space_frames X (pm s') c = av (fa s) - av (fa s') \<and>
      (\<forall>k<2 ^ 35. map_option snd (page_view X (pm s') c k) = map_option snd (page_view X (pm s) r k)) \<and>
      (\<forall>i. 256 \<le> i \<and> i < 512 \<longrightarrow> pm s' c i = pm s cr3 i))"
  have "(?A \<or> (\<exists>e. res = Err e \<and> av (fa s') = {})) \<and> (\<forall>g. g \<notin> av (fa s) \<longrightarrow> pm s' g = pm s g) \<and>
      ok (fa s') \<and> av (fa s') \<subseteq> av (fa s) \<and> phys_offset s' = phys_offset s"
  proof (cases "\<exists>c. x = Ok c")
    case False
    then have x: "x = Err ''allocating frame failed''" and fa1: "av (fa s1) = {}" "ok (fa s1)"
      and s1: "s1 = s\<lparr>fa := fa s1\<rparr>" using N by auto
    have "res = Err ''allocating frame failed''" "s' = s1"
      using run new off x by (simp_all add: copy_uvm_def)
    moreover have "pm s1 = pm s" "phys_offset s1 = phys_offset s" by (subst s1, simp)+
    ultimately show ?thesis using fa1 by simp
  next
    case True
    then obtain c where x: "x = Ok c" and c: "c \<in> av (fa s)"
      and fa1: "av (fa s1) = av (fa s) - {c}" "ok (fa s1)"
      and s1: "s1 = s\<lparr>fa := fa s1, pm := (pm s)(c := kernel_half (pm s) cr3)\<rparr>" using N by auto
    have pm1: "pm s1 = (pm s)(c := kernel_half (pm s) cr3)" "phys_offset s1 = phys_offset s"
      by (subst s1, simp)+
    have user0: "\<not> present X (pm s1 c i)" if "i \<in> set [0..<256]" for i
      using that by (simp add: pm1 kernel_half_def del: upt_rec_numeral)
    have par: "space_frames X (pm s) r = set (r # below X 3 [0..<256] (pm s) r)"
      by (rule space_frames_below)
    have "can_copy (pm s) (set (r # below X 3 [0..<256] (pm s) r)) c s1"
      unfolding can_copy_def par [symmetric] using S c fa1 pm1 by auto
    from copy_entries_ok [OF distinct_upt this plain_user user0] S obtain y s2 where
      go: "copy_entries X al 3 r c [0..<256] s1 = (y, s2)"
      and post: "copy_post (\<lambda>m'. below X 3 [0..<256] m' c) (\<lambda>m'. copied X 3 [0..<256] (pm s) r m' c) c s1 y s2"
      and upper: "\<And>j. j \<notin> set [0..<256] \<Longrightarrow> pm s2 c j = pm s1 c j"
      by blast
    note Q = post [unfolded copy_post_def]
    have outside: "\<forall>g. g \<notin> av (fa s) \<longrightarrow> pm s2 g = pm s g"
    proof (intro allI impI)
      fix g assume "g \<notin> av (fa s)"
      then show "pm s2 g = pm s g" using Q fa1 c pm1 by auto
    qed
    have rest: "ok (fa s2) \<and> av (fa s2) \<subseteq> av (fa s) \<and> phys_offset s2 = phys_offset s"
      using Q fa1 pm1 by auto
    show ?thesis
    proof (cases "y = Ok ()")
      case False
      then obtain e where e: "y = Err e" "av (fa s2) = {}" using Q by blast
      then have "res = Err e" "s' = s2"
        using run new off x go by (simp_all add: copy_uvm_def del: upt_rec_numeral)
      then show ?thesis using e outside rest by auto
    next
      case True
      note D = post [unfolded True copy_post_ok]
      have res: "res = Ok c" "s' = s2"
        using run new off x go True by (simp_all add: copy_uvm_def del: upt_rec_numeral)
      have fr: "set (below X 3 [0..<256] (pm s2) c) = av (fa s1) - av (fa s2)"
        and dist: "distinct (below X 3 [0..<256] (pm s2) c)"
        and cop: "copied X 3 [0..<256] (pm s) r (pm s2) c"
        using D by blast+
      have "c \<notin> set (below X 3 [0..<256] (pm s2) c)" unfolding fr fa1 by blast
      then have tree: "user_tree X (pm s2) c" using dist by (intro user_tree_below) simp
      have nh: "no_huge X (pm s2) c"
        using copied_plain [OF cop] plain_user S by (intro plain_no_huge) blast
      have sf: "space_frames X (pm s2) c = av (fa s) - av (fa s2)"
        unfolding space_frames_below using fr fa1 c Q by auto
      have "space_ok X av ok s2 c"
        unfolding space_ok_def using tree nh sf rest S avail_phys c by auto
      moreover have "\<forall>i. 256 \<le> i \<and> i < 512 \<longrightarrow> pm s2 c i = pm s cr3 i"
        using upper pm1 by (simp add: kernel_half_def)
      ultimately show ?thesis using res sf copied_pages [OF cop] outside rest by blast
    qed
  qed
  then show "?A \<or> (\<exists>e. res = Err e \<and> av (fa s') = {})"
    and "\<forall>g. g \<notin> av (fa s) \<longrightarrow> pm s' g = pm s g"
    and "ok (fa s') \<and> av (fa s') \<subseteq> av (fa s) \<and> phys_offset s' = phys_offset s"
    by auto
qed

end

end
