(* ===== verification/Syscalls.thy ===== *)
theory Syscalls
  imports Process Duplicate
begin

text \<open>
  The process system calls: thread/uprocess/syscalls.rs (fork, getpid, exit, wait, kill),
  memory/syscalls.rs (sbrk) and the heap functions of memory/umem.rs that it calls. \<open>wait\<close> and
  \<open>exit\<close> give up the processor: \<open>exit\<close> ends in the scheduler, and \<open>wait\<close> is a loop whose rounds
  (\<open>wait_round\<close>) end with a result or with \<open>None\<close>, after which it yields and the rest of the system
  runs before the next round.
\<close>

section \<open>fork\<close>

definition INIT_PID :: nat where "INIT_PID = 0"

definition get_process_page_table :: "process \<Rightarrow> ('h, u64) kprog" where
  "get_process_page_table p =
     bind (expect ''no page table'' (page_table p)) (\<lambda>f.
     bind (on_mem offset_set) (\<lambda>_. ret f))"

definition load_tf :: "u64 \<Rightarrow> ('h, trap_frame) kprog" where
  "load_tf p = gets (\<lambda>s. tf_load (k_stacks s) p)"

definition store_tf :: "u64 \<Rightarrow> trap_frame \<Rightarrow> ('h, unit) kprog" where
  "store_tf p f = modify (\<lambda>s. s\<lparr>k_stacks := tf_store p f (k_stacks s)\<rparr>)"

text \<open>The child's trap frame and context, from the parent's frame and user stack pointer.\<close>

definition fork_child_thread :: "'h env \<Rightarrow> nat \<Rightarrow> trap_frame \<Rightarrow> u64 \<Rightarrow> ('h, unit) kprog" where
  "fork_child_thread E i f usp =
     bind (get_thread i) (\<lambda>child.
     bind (expect ''no trapframe'' (tf child)) (\<lambda>p.
     bind (store_tf p f) (\<lambda>_.
     bind (store_tf p (f\<lparr>tf_rax := 0, tf_rsp := usp\<rparr>)) (\<lambda>_.
     bind (arith_sub E (kstack child) TRAPFRAME_SIZE) (\<lambda>sp0.
     set_thread i (child\<lparr>ctx := (ctx child)\<lparr>rip := fork_return_addr E, rsp := sp0, rsp3 := usp,
       user_rip := tf_rcx f, user_rdi := tf_rdi f, user_rsi := tf_rsi f\<rparr>\<rparr>))))))"

definition fork :: "'h env \<Rightarrow> ('h, nat) kprog" where
  "fork E =
     bind cpu_current_process (\<lambda>cur. bind (expect ''process not found'' cur) (\<lambda>cur.
     bind (alloc_proc E) (\<lambda>child.
     bind frame_allocator_expect (\<lambda>_.
     bind (get_process_page_table cur) (\<lambda>pml4.
     bind (gets k_cr3) (\<lambda>cr3.
     bind (on_mem (copy_uvm (crate E) allocate_frame cr3 pml4)) (\<lambda>pt.
     bind (gets (\<lambda>s. current_tid (k_cpu s))) (\<lambda>i. bind (expect ''no current thread'' i) (\<lambda>i.
     bind (gets (\<lambda>s. saved_user_rsp (k_cpu s))) (\<lambda>usp.
     bind (get_thread i) (\<lambda>t. bind (expect ''no trapframe'' (tf t)) (\<lambda>p.
     bind (load_tf p) (\<lambda>f.
     bind (index (threads child) 0) (\<lambda>ct. bind (expect ''no child thread'' ct) (\<lambda>ct.
     bind (fork_child_thread E ct f usp) (\<lambda>_.
     let child' = child\<lparr>page_table := Some pt, ppid := Some (pid cur), heap_size := heap_size cur\<rparr> in
     bind (set_proc (pid child') (Some child')) (\<lambda>_.
     bind (mark_threads_as_runnable child') (\<lambda>_.
     ret (pid child')))))))))))))))))))"

section \<open>getpid, exit, kill\<close>

definition getpid :: "('h, nat) kprog" where
  "getpid = bind cpu_current_pid (ok_or ''no process'')"

text \<open>The threads that \<open>exit\<close> turns into zombies.\<close>

definition zombify_thread :: "nat \<Rightarrow> nat option \<Rightarrow> ('h, unit) kprog" where
  "zombify_thread p x = (case x of
       None \<Rightarrow> ret ()
     | Some i \<Rightarrow> bind (get_thread i) (\<lambda>t. case t_pid t of
         None \<Rightarrow> ret ()
       | Some q \<Rightarrow> if q = p then set_thread i (t\<lparr>state := Zombie\<rparr>) else ret ()))"

text \<open>\<open>exit\<close> ends with the switch to the scheduler, which never comes back to the zombie.\<close>

definition exit_process :: "i64 \<Rightarrow> ('h, bool) kprog" where
  "exit_process v =
     bind cpu_current_pid (\<lambda>p. bind (ok_or ''no process'' p) (\<lambda>p.
     if p = INIT_PID then throw ''init exiting''
     else
       bind (get_proc p) (\<lambda>pr. bind (ok_or ''no process'' pr) (\<lambda>pr.
       let pr' = pr\<lparr>p_state := PZombie, exit_status := v\<rparr> in
       bind (set_proc p (Some pr')) (\<lambda>_.
       bind (foreach (threads pr') (zombify_thread (pid pr'))) (\<lambda>_.
       on_syscall_yield))))))"

definition kill :: "nat \<Rightarrow> ('h, unit) kprog" where
  "kill p =
     bind (gets (\<lambda>s. first_index (NPROCESS - 1)
       (\<lambda>i. case k_procs s ! i of None \<Rightarrow> False | Some pr \<Rightarrow> pid pr = p))) (\<lambda>i. case i of
       None \<Rightarrow> throw ''no process''
     | Some i \<Rightarrow> bind (get_proc i) (\<lambda>pr.
         bind (expect ''called Option::unwrap() on a None value'' pr) (\<lambda>pr.
         set_proc i (Some (pr\<lparr>killed := True\<rparr>)))))"

section \<open>wait\<close>

definition child_of :: "nat \<Rightarrow> process option \<Rightarrow> bool" where
  "child_of p x = (case x of None \<Rightarrow> False | Some pr \<Rightarrow> ppid pr = Some p)"

definition zombie_of :: "nat \<Rightarrow> process option \<Rightarrow> bool" where
  "zombie_of p x = (case x of None \<Rightarrow> False | Some pr \<Rightarrow> ppid pr = Some p \<and> p_state pr = PZombie)"

text \<open>The scan stops at the first zombie child and takes it out of the table; \<open>havekids\<close> says whether
  a child was seen on the way.\<close>

definition find_zombie :: "nat \<Rightarrow> ('h, process option \<times> bool) kprog" where
  "find_zombie p =
     bind (gets k_procs) (\<lambda>ps. case first_index (NPROCESS - 1) (\<lambda>i. zombie_of p (ps ! i)) of
       None \<Rightarrow> ret (None, \<exists>i<NPROCESS - 1. child_of p (ps ! i))
     | Some i \<Rightarrow> bind (set_proc i None) (\<lambda>_. ret (ps ! i, True)))"

text \<open>One round of the loop for the process structure \<open>pr\<close> read before it; \<open>None\<close> is a yield.\<close>

definition wait_round :: "'h env \<Rightarrow> process \<Rightarrow> ('h, (nat \<times> i64) option) kprog" where
  "wait_round E pr =
     bind (find_zombie (pid pr)) (\<lambda>(z, havekids). case z of
       Some child \<Rightarrow> bind (free_process E child) (\<lambda>_. ret (Some (pid child, exit_status child)))
     | None \<Rightarrow>
         if \<not> havekids then throw ''no child process''
         else if killed pr then throw ''this process has killed''
         else bind on_syscall_yield (\<lambda>_. ret None))"

text \<open>The whole call, with \<open>others k\<close> for what the system does between the \<open>k\<close>-th yield and the return
  from it; \<open>None\<close> when it is still waiting after \<open>n\<close> rounds.\<close>

primrec wait_rounds :: "'h env \<Rightarrow> (nat \<Rightarrow> 'h kernel \<Rightarrow> 'h kernel) \<Rightarrow> process \<Rightarrow> nat \<Rightarrow> nat \<Rightarrow>
  'h kernel \<Rightarrow> ((nat \<times> i64) res \<times> 'h kernel) option" where
  "wait_rounds E others pr k 0 s = None"
| "wait_rounds E others pr k (Suc n) s = (case wait_round E pr s of
       (Ok (Some x), t) \<Rightarrow> Some (Ok x, t)
     | (Ok None, t) \<Rightarrow> (case after_syscall_yield (others k t) of (_, u) \<Rightarrow> wait_rounds E others pr (Suc k) n u)
     | (Err e, t) \<Rightarrow> Some (Err e, t)
     | (Panic e, t) \<Rightarrow> Some (Panic e, t))"

definition wait :: "'h env \<Rightarrow> (nat \<Rightarrow> 'h kernel \<Rightarrow> 'h kernel) \<Rightarrow> nat \<Rightarrow> 'h kernel \<Rightarrow>
  ((nat \<times> i64) res \<times> 'h kernel) option" where
  "wait E others n s = (case bind cpu_current_process (expect ''no pid'') s of
       (Ok pr, t) \<Rightarrow> wait_rounds E others pr 0 n t
     | (Err e, t) \<Rightarrow> Some (Err e, t)
     | (Panic e, t) \<Rightarrow> Some (Panic e, t))"

section \<open>sbrk\<close>

text \<open>\<open>isize\<close> and \<open>usize\<close> are the same 64 bits; the sign of \<open>n\<close> is that of \<open>sint n\<close>. The result is the
  process structure after the call.\<close>

definition grow_process_heap :: "'h env \<Rightarrow> i64 \<Rightarrow> process \<Rightarrow> ('h, process) kprog" where
  "grow_process_heap E n p =
     bind (get_process_page_table p) (\<lambda>pml4.
     bind frame_allocator_expect (\<lambda>_.
     if 0 < sint n then
       bind (arith_add E (heap_size p) n) (\<lambda>new.
       bind (on_mem (alloc_uvm (crate E) allocate_frame deallocate_frame pml4 (heap_size p) new)) (\<lambda>sz.
       ret (p\<lparr>heap_size := sz\<rparr>)))
     else if sint n < 0 then
       bind (arith_add E (heap_size p) n) (\<lambda>new.
       bind (on_mem (dealloc_uvm (crate E) allocate_frame deallocate_frame pml4 (heap_size p) new)) (\<lambda>sz.
       ret (p\<lparr>heap_size := sz\<rparr>)))
     else ret p))"

text \<open>\<open>process_table[pid].unwrap()\<close> copies the \<open>Option<Process>\<close>, so the structure that
  \<open>grow_process_heap\<close> changes is a temporary.\<close>

definition sbrk :: "'h env \<Rightarrow> i64 \<Rightarrow> ('h, u64) kprog" where
  "sbrk E n =
     bind cpu_current_pid (\<lambda>p. bind (expect ''no process'' p) (\<lambda>p.
     bind (get_proc p) (\<lambda>pr. case pr of
       None \<Rightarrow> throw ''no process''
     | Some pr \<Rightarrow>
         bind (grow_process_heap E n pr) (\<lambda>_. ret (heap_size pr)))))"

section \<open>The kernel's memory is an instance of the paging laws\<close>

lemma paging_boot:
  "paging_crate X \<Longrightarrow> paging X allocate_frame deallocate_frame avail_frames frame_alloc_ok"
  by (intro paging.intro boot.frame_source_axioms)

interpretation machine: paging x86_bits allocate_frame deallocate_frame avail_frames frame_alloc_ok
  by (intro paging_boot bits.paging_crate_axioms)

abbreviation user_space :: "'h env \<Rightarrow> 'h kernel \<Rightarrow> u64 \<Rightarrow> bool" where
  "user_space E s r \<equiv> space_ok (crate E) avail_frames frame_alloc_ok (k_mem s) r"

abbreviation user_page :: "'h env \<Rightarrow> 'h kernel \<Rightarrow> u64 \<Rightarrow> nat \<Rightarrow> (u64 \<times> u64 \<times> (nat \<Rightarrow> u64)) option" where
  "user_page E s r k \<equiv> page_view (crate E) (pm (k_mem s)) r k"

lemma on_mem_run: "f (k_mem s) = (r, m) \<Longrightarrow> on_mem f s = (r, s\<lparr>k_mem := m\<rparr>)"
  by (simp add: on_mem_def zoom_def)

lemma offset_run: "user_space E s r \<Longrightarrow> \<exists>po. on_mem offset_set s = (Ok po, s)"
  by (auto simp: on_mem_def zoom_def offset_set_def space_ok_def)

lemma frame_allocator_run: "k_frames_ready s \<Longrightarrow> frame_allocator_expect s = (Ok (), s)"
  by (simp add: frame_allocator_expect_def)

lemma page_table_run:
  "page_table p = Some r \<Longrightarrow> phys_offset (k_mem s) \<noteq> None \<Longrightarrow> get_process_page_table p s = (Ok r, s)"
  by (auto simp: get_process_page_table_def on_mem_def zoom_def offset_set_def bind_def)

text \<open>The process that the current thread belongs to.\<close>

definition running :: "'h kernel \<Rightarrow> nat \<Rightarrow> nat \<Rightarrow> process \<Rightarrow> bool" where
  "running s i p pr \<longleftrightarrow> tables_ok s \<and> current_tid (k_cpu s) = Some i \<and> i < NTHREAD \<and>
     t_pid (k_threads s ! i) = Some p \<and> p < NPROCESS \<and> k_procs s ! p = Some pr"

lemma running_pid: "running s i p pr \<Longrightarrow> cpu_current_pid s = (Ok (Some p), s)"
  by (simp add: running_def tables_ok_def cpu_current_pid_run)

lemma running_process: "running s i p pr \<Longrightarrow> cpu_current_process s = (Ok (Some pr), s)"
  by (simp add: running_def tables_ok_def cpu_current_process_run)

section \<open>fork\<close>

definition tf_words :: "u64 \<Rightarrow> u64 set" where
  "tf_words p = {p, p + 8, p + 16, p + 24, p + 32, p + 40, p + 48, p + 56, p + 64, p + 72, p + 80,
     p + 88, p + 96, p + 104}"

lemma tf_store_other: "x \<notin> tf_words q \<Longrightarrow> tf_store q f m x = m x"
  by (simp add: tf_store_def tf_words_def)

lemma tf_load_store_other:
  assumes "tf_words p \<inter> tf_words q = {}"
  shows "tf_load (tf_store q f m) p = tf_load m p"
proof -
  have "tf_store q f m x = m x" if "x \<in> tf_words p" for x
    using tf_store_other that assms by blast
  then show ?thesis
    by (simp add: tf_load_def tf_words_def)
qed

lemma tf_store_twice: "tf_store p g (tf_store p f m) = tf_store p g m"
  by (simp add: tf_store_def fun_eq_iff)

definition fork_thread :: "'h env \<Rightarrow> nat \<Rightarrow> nat \<Rightarrow> u64 \<Rightarrow> trap_frame \<Rightarrow> u64 \<Rightarrow> thread" where
  "fork_thread E ct cp b f usp = (fresh_thread E ct cp b)\<lparr>state := Runnable,
     ctx := (ctx (fresh_thread E ct cp b))\<lparr>rip := fork_return_addr E, rsp := stack_top b - TRAPFRAME_SIZE,
       rsp3 := usp, user_rip := tf_rcx f, user_rdi := tf_rdi f, user_rsi := tf_rsi f\<rparr>\<rparr>"

text \<open>Everything that \<open>fork\<close> does once a PID, a thread, a stack and the child's tables are there.\<close>

lemma fork_run:
  assumes run: "running s i p pr" and st: "state (k_threads s ! i) \<noteq> Unused"
    and pt: "page_table pr = Some r" and sp: "user_space E s r" and fr: "k_frames_ready s"
    and tf: "tf (k_threads s ! i) = Some q"
    and cp: "first_index (NPROCESS - 1) (\<lambda>i. k_procs s ! i = None) = Some cp"
    and ct: "first_index (NTHREAD - 1) (\<lambda>i. state (k_threads s ! i) = Unused) = Some ct"
    and b: "kalloc E (k_heap s) = (b, h)" "block_ok b"
    and apart: "tf_words q \<inter> tf_words (stack_top b - TRAPFRAME_SIZE) = {}"
    and copy: "copy_uvm (crate E) allocate_frame (k_cr3 s) r (k_mem s) = (Ok c, m)"
  defines "f \<equiv> tf_load (k_stacks s) q" and "usp \<equiv> saved_user_rsp (k_cpu s)"
  shows "\<exists>s'. fork E s = (Ok cp, s') \<and> k_mem s' = m \<and>
    k_threads s' = (k_threads s)[ct := fork_thread E ct cp b f usp] \<and>
    k_procs s' = (k_procs s)[cp := Some ((fresh_process cp ct)\<lparr>page_table := Some c, ppid := Some (pid pr),
       heap_size := heap_size pr\<rparr>)] \<and>
    k_stacks s' = tf_store (stack_top b - TRAPFRAME_SIZE) (f\<lparr>tf_rax := 0, tf_rsp := usp\<rparr>) (k_stacks s) \<and>
    k_heap s' = h \<and> k_cr3 s' = k_cr3 s \<and> k_cpu s' = k_cpu s"
proof -
  note R = run [unfolded running_def tables_ok_def]
  let ?q = "stack_top b - TRAPFRAME_SIZE"
  let ?s1 = "s\<lparr>k_heap := h, k_stacks := tf_store ?q new_trap_frame (k_stacks s),
     k_threads := (k_threads s)[ct := fresh_thread E ct cp b]\<rparr>"
  let ?s2 = "?s1\<lparr>k_mem := m\<rparr>"
  have ct': "ct < length (k_threads s)" "ct \<noteq> i" "ct \<le> NTHREAD" "\<not> NTHREAD < ct"
    using ct R st by (auto simp: first_index_Some_iff)
  have cp': "cp < length (k_procs s)" using cp R by (auto simp: first_index_Some_iff)
  have al: "alloc_proc E s = (Ok (fresh_process cp ct), ?s1)"
    using alloc_proc_run [OF _ cp ct b] R by (simp add: tables_ok_def)
  have po: "phys_offset (k_mem s) \<noteq> None" using sp by (simp add: space_ok_def)
  have ld: "tf_load (tf_store ?q new_trap_frame (k_stacks s)) q = f"
    using tf_load_store_other [OF apart] by (simp add: f_def)
  have top: "\<not> stack_top b < TRAPFRAME_SIZE"
    using stack_top_nat [OF b(2)] by (simp add: word_less_nat_alt TRAPFRAME_SIZE_nat)
  let ?s3 = "?s2\<lparr>k_stacks := tf_store ?q (f\<lparr>tf_rax := 0, tf_rsp := usp\<rparr>) (k_stacks ?s2)\<rparr>"
  let ?ts3 = "(k_threads s)[ct := (fork_thread E ct cp b f usp)\<lparr>state := Embryo\<rparr>]"
  have child: "fork_child_thread E ct f usp ?s2 = (Ok (), ?s3\<lparr>k_threads := ?ts3\<rparr>)"
    using ct' top
    by (simp add: fork_child_thread_def bind_def get_thread_run set_thread_run fresh_thread_def
        store_tf_def modify_def arith_sub_def tf_store_twice fork_thread_def new_thread_def new_context_def)
  let ?ch = "(fresh_process cp ct)\<lparr>page_table := Some c, ppid := Some (pid pr), heap_size := heap_size pr\<rparr>"
  let ?s4 = "?s3\<lparr>k_threads := ?ts3, k_procs := (k_procs s)[cp := Some ?ch]\<rparr>"
  have mark: "mark_threads_as_runnable ?ch ?s4 =
      (Ok (), ?s4\<lparr>k_threads := (k_threads s)[ct := fork_thread E ct cp b f usp]\<rparr>)"
    using ct' by (subst mark_fresh_run [where i = ct and n = "NTHREAD_PER_PROCESS - 1"])
      (simp_all add: fresh_process_def fork_thread_def fresh_thread_def new_thread_def new_context_def)
  have fa: "frame_allocator_expect ?s1 = (Ok (), ?s1)" using fr by (intro frame_allocator_run) simp
  have ptb: "get_process_page_table pr ?s1 = (Ok r, ?s1)" using pt po by (intro page_table_run) simp_all
  have cpy: "on_mem (copy_uvm (crate E) allocate_frame (k_cr3 s) r) ?s1 = (Ok c, ?s2)"
    using copy by (simp add: on_mem_def zoom_def)
  have gt: "get_thread i ?s2 = (Ok (k_threads s ! i), ?s2)" using R ct' by (simp add: get_thread_run)
  have setp: "set_proc cp (Some ?ch) (?s3\<lparr>k_threads := ?ts3\<rparr>) = (Ok (), ?s4)"
    using cp' by (simp add: set_proc_run)
  have ids: "threads (fresh_process cp ct) \<noteq> []" "threads (fresh_process cp ct) ! 0 = Some ct"
      "pid (fresh_process cp ct) = cp"
    by (simp_all add: fresh_process_def)
  have "fork E s = (Ok cp, ?s4\<lparr>k_threads := (k_threads s)[ct := fork_thread E ct cp b f usp]\<rparr>)"
    unfolding fork_def using setp mark
    by (simp add: running_process [OF run] al fa ptb cpy gt R tf load_tf_def ld index_def ids child
        Let_def flip: usp_def)
  then show ?thesis
    by (auto simp: tf_store_twice)
qed

end
