(* ===== verification/UserMem.thy ===== *)
theory UserMem
  imports Syscalls
begin

text \<open>
  How the kernel reads and writes user memory byte by byte: \<open>copy_bytes_from_user\<close>, \<open>copy_to_user\<close>,
  \<open>copy_cstr_from_user\<close> and \<open>copy_argv\<close> of syscall/mod.rs, \<open>copy_to_user_pagetable\<close>,
  \<open>copy_u64_slice_to_user\<close> and \<open>zero_user_range\<close> of exec/mod.rs. Four of them are the same loop: a
  piece that ends at the next page boundary, a walk of the process's page table, a copy. That loop
  is \<open>pieces\<close>, its body the argument. The lemmas show that a copy reads or writes exactly the
  addressed bytes of the user half.
\<close>

section \<open>Bytes of physical memory\<close>

definition frame_byte :: "(nat \<Rightarrow> u64) \<Rightarrow> nat \<Rightarrow> u8" where
  "frame_byte d off = get_byte (d (off div 8)) (off mod 8)"

definition put_byte :: "nat \<Rightarrow> u8 \<Rightarrow> (nat \<Rightarrow> u64) \<Rightarrow> nat \<Rightarrow> u64" where
  "put_byte off b d = d(off div 8 := set_byte (d (off div 8)) (off mod 8) b)"

primrec put_bytes :: "nat \<Rightarrow> u8 list \<Rightarrow> (nat \<Rightarrow> u64) \<Rightarrow> nat \<Rightarrow> u64" where
  "put_bytes off [] d = d"
| "put_bytes off (b # bs) d = put_bytes (Suc off) bs (put_byte off b d)"

definition get_bytes :: "(nat \<Rightarrow> u64) \<Rightarrow> nat \<Rightarrow> nat \<Rightarrow> u8 list" where
  "get_bytes d off n = map (\<lambda>k. frame_byte d (off + k)) [0..<n]"

definition write_frame :: "u64 \<Rightarrow> nat \<Rightarrow> u8 list \<Rightarrow> 'a mem \<Rightarrow> 'a mem" where
  "write_frame f off bs s = s\<lparr>pm := (pm s)(f := put_bytes off bs (pm s f))\<rparr>"

lemma frame_byte_put: "frame_byte (put_byte off b d) o' = (if o' = off then b else frame_byte d o')"
proof (cases "o' div 8 = off div 8")
  case True
  show ?thesis
  proof (cases "o' mod 8 = off mod 8")
    case eq: True
    then have "o' = off" using True by (metis div_mult_mod_eq)
    then show ?thesis by (simp add: frame_byte_def put_byte_def get_set_byte)
  next
    case False
    then show ?thesis using True by (auto simp: frame_byte_def put_byte_def get_set_byte_other)
  qed
qed (auto simp: frame_byte_def put_byte_def)

lemma frame_byte_put_bytes:
  "frame_byte (put_bytes off bs d) o' =
     (if off \<le> o' \<and> o' < off + length bs then bs ! (o' - off) else frame_byte d o')"
proof (induction bs arbitrary: off d)
  case (Cons b bs)
  then show ?case
    by (cases "o' = off") (auto simp: frame_byte_put nth_Cons' not_le)
qed auto

section \<open>The loop over the pieces of a range\<close>

definition piece_len :: "u64 \<Rightarrow> nat \<Rightarrow> nat \<Rightarrow> nat" where
  "piece_len a len k = min (4096 - page_offset (a + of_nat k)) (len - k)"

lemma page_offset_less: "page_offset a < 4096"
  by (simp add: page_offset_nat)

lemma piece_len_pos: "k < len \<Longrightarrow> 0 < piece_len a len k"
  using page_offset_less by (simp add: piece_len_def)

lemma piece_len_le: "k \<le> len \<Longrightarrow> k + piece_len a len k \<le> len"
  by (simp add: piece_len_def)

function pieces :: "u64 \<Rightarrow> nat \<Rightarrow> (nat \<Rightarrow> nat \<Rightarrow> 'c \<Rightarrow> ('s, 'c) program) \<Rightarrow> nat \<Rightarrow> 'c \<Rightarrow> ('s, 'c) program" where
  "pieces a len body k c =
     (if k < len
      then bind (body k (piece_len a len k) c) (pieces a len body (k + piece_len a len k))
      else ret c)"
  by pat_completeness auto
termination
  by (relation "measure (\<lambda>(a, len, body, k, c). len - k)") (auto intro!: diff_less_mono2 dest: piece_len_pos)

declare pieces.simps [simp del]

text \<open>A rule for the loop: an invariant that every piece keeps, an outcome for the error exits, no
  panic.\<close>

definition ends :: "('c \<Rightarrow> 's \<Rightarrow> bool) \<Rightarrow> (string \<Rightarrow> 's \<Rightarrow> bool) \<Rightarrow> 'c res \<times> 's \<Rightarrow> bool" where
  "ends A Q x \<longleftrightarrow> (case x of (Ok c, t) \<Rightarrow> A c t | (Err e, t) \<Rightarrow> Q e t | (Panic e, t) \<Rightarrow> False)"

lemma ends_bind:
  assumes "ends A Q (f s)" and "\<And>c t. A c t \<Longrightarrow> ends B Q (g c t)"
  shows "ends B Q (bind f g s)"
proof (cases "f s")
  case (Pair r t)
  then show ?thesis using assms by (cases r) (auto simp: ends_def bind_def)
qed

lemma pieces_rule:
  assumes step: "\<And>k c s. P k c s \<Longrightarrow> k < len \<Longrightarrow>
      ends (P (k + piece_len a len k)) Q (body k (piece_len a len k) c s)"
    and "P k c s" and "k \<le> len"
  shows "ends (P len) Q (pieces a len body k c s)"
  using assms(2,3)
proof (induction "len - k" arbitrary: k c s rule: less_induct)
  case less
  show ?case
  proof (cases "k < len")
    case True
    have le: "k + piece_len a len k \<le> len" using less.prems(2) by (rule piece_len_le)
    have smaller: "len - (k + piece_len a len k) < len - k" using piece_len_pos [OF True, of a] True by arith
    have "ends (P len) Q (bind (body k (piece_len a len k) c) (pieces a len body (k + piece_len a len k)) s)"
      by (rule ends_bind, rule step [OF less.prems(1) True]) (rule less.hyps [OF smaller _ le])
    then show ?thesis using True by (subst pieces.simps) simp
  next
    case False
    then have "k = len" using less.prems(2) by simp
    then show ?thesis using less.prems(1) by (subst pieces.simps) (simp add: ends_def)
  qed
qed

section \<open>Reading and writing through the page table\<close>

definition user_pte :: "'h env \<Rightarrow> u64 \<Rightarrow> u64 \<Rightarrow> ('h, (u64 \<times> nat) option) kprog" where
  "user_pte E pml4 va = on_mem (walk_pagetable (crate E) allocate_frame pml4 va False)"

definition need_flag :: "x86 \<Rightarrow> u64 \<Rightarrow> u64 \<Rightarrow> string \<Rightarrow> ('s, unit) program" where
  "need_flag X e fl msg = (if contains (pte_flags X e) fl then ret () else throw msg)"

text \<open>The bodies of the loops of syscall/mod.rs: the piece at \<open>ptr + k\<close> of length \<open>n\<close>.\<close>

definition syscall_pte :: "'h env \<Rightarrow> u64 \<Rightarrow> u64 \<Rightarrow> ('h, u64) kprog" where
  "syscall_pte E pml4 va =
     bind (user_pte E pml4 va) (\<lambda>pte. case pte of
       None \<Rightarrow> bind (println (LMsg ''[syscall] unmapped va'')) (\<lambda>_. throw ''syscall: address is not mapped'')
     | Some (t, i) \<Rightarrow> bind (gets (\<lambda>s. pm (k_mem s) t i)) (\<lambda>e.
         bind (need_flag (crate E) e PRESENT ''syscall: address is not present'') (\<lambda>_.
         bind (need_flag (crate E) e USER_ACCESSIBLE ''syscall: address is not user-accessible'') (\<lambda>_.
         ret e))))"

definition read_piece :: "'h env \<Rightarrow> u64 \<Rightarrow> u64 \<Rightarrow> nat \<Rightarrow> nat \<Rightarrow> u8 list \<Rightarrow> ('h, u8 list) kprog" where
  "read_piece E pml4 ptr k n bytes =
     bind (arith_add E ptr (of_nat k)) (\<lambda>a. bind (virt_new (crate E) a) (\<lambda>va.
     bind (syscall_pte E pml4 va) (\<lambda>e.
     bind (gets (\<lambda>s. get_bytes (pm (k_mem s) (pte_addr (crate E) e)) (page_offset va) n)) (\<lambda>bs.
     ret (bytes @ bs)))))"

definition write_piece :: "'h env \<Rightarrow> u64 \<Rightarrow> u64 \<Rightarrow> u8 list \<Rightarrow> nat \<Rightarrow> nat \<Rightarrow> unit \<Rightarrow> ('h, unit) kprog" where
  "write_piece E pml4 ptr bytes k n _ =
     bind (arith_add E ptr (of_nat k)) (\<lambda>a. bind (virt_new (crate E) a) (\<lambda>va.
     bind (syscall_pte E pml4 va) (\<lambda>e.
     bind (need_flag (crate E) e WRITABLE ''syscall: address is not writable'') (\<lambda>_.
     on_mem (modify (write_frame (pte_addr (crate E) e) (page_offset va) (take n (drop k bytes))))))))"

definition current_page_table :: "('h, u64) kprog" where
  "current_page_table =
     bind cpu_current_process (\<lambda>p. bind (ok_or ''syscall: process not found'' p) (\<lambda>p.
     ok_or ''syscall: no page table'' (page_table p)))"

text \<open>\<open>Vec::with_capacity(len)\<close> panics for a length above \<open>isize::MAX\<close>.\<close>

definition copy_bytes_from_user :: "'h env \<Rightarrow> u64 \<Rightarrow> u64 \<Rightarrow> ('h, u8 list) kprog" where
  "copy_bytes_from_user E ptr len =
     (if ptr = 0 then throw ''syscall: null pointer''
      else bind current_page_table (\<lambda>pml4.
           bind (on_mem offset_set) (\<lambda>_. bind frame_allocator_expect (\<lambda>_.
           bind (if 2 ^ 63 \<le> len then panic ''capacity overflow'' else ret ()) (\<lambda>_.
           pieces ptr (unat len) (read_piece E pml4 ptr) 0 [])))))"

definition copy_to_user :: "'h env \<Rightarrow> u64 \<Rightarrow> u8 list \<Rightarrow> ('h, unit) kprog" where
  "copy_to_user E ptr bytes =
     (if bytes = [] then ret ()
      else if ptr = 0 then throw ''syscall: null pointer''
      else bind current_page_table (\<lambda>pml4.
           bind (on_mem offset_set) (\<lambda>_. bind frame_allocator_expect (\<lambda>_.
           pieces ptr (length bytes) (write_piece E pml4 ptr bytes) 0 ()))))"

text \<open>exec/mod.rs writes to a page table under construction and asks only for the present bit.\<close>

definition exec_offset :: "('h, unit) kprog" where
  "exec_offset = bind (gets (\<lambda>s. phys_offset (k_mem s))) (\<lambda>o'.
     bind (expect ''PHYSICAL_MEMORY_OFFSET not initialized'' o') (\<lambda>_. ret ()))"

definition exec_pte :: "'h env \<Rightarrow> u64 \<Rightarrow> u64 \<Rightarrow> ('h, u64) kprog" where
  "exec_pte E pml4 va =
     bind (user_pte E pml4 va) (\<lambda>pte. bind (ok_or ''exec: address is not mapped'' pte) (\<lambda>(t, i).
     bind (gets (\<lambda>s. pm (k_mem s) t i)) (\<lambda>e.
     bind (need_flag (crate E) e PRESENT ''exec: address is not present'') (\<lambda>_. ret e))))"

definition exec_piece :: "'h env \<Rightarrow> u64 \<Rightarrow> u64 \<Rightarrow> (nat \<Rightarrow> nat \<Rightarrow> u8 list) \<Rightarrow> nat \<Rightarrow> nat \<Rightarrow> unit \<Rightarrow> ('h, unit) kprog" where
  "exec_piece E pml4 dst src k n _ =
     bind (arith_add E dst (of_nat k)) (\<lambda>a. bind (virt_new (crate E) a) (\<lambda>va.
     bind (exec_pte E pml4 va) (\<lambda>e.
     on_mem (modify (write_frame (pte_addr (crate E) e) (page_offset va) (src k n))))))"

definition copy_to_user_pagetable :: "'h env \<Rightarrow> u64 \<Rightarrow> u64 \<Rightarrow> u8 list \<Rightarrow> ('h, unit) kprog" where
  "copy_to_user_pagetable E pml4 dst src =
     bind exec_offset (\<lambda>_.
     pieces dst (length src) (exec_piece E pml4 dst (\<lambda>k n. take n (drop k src))) 0 ())"

definition zero_user_range :: "'h env \<Rightarrow> u64 \<Rightarrow> u64 \<Rightarrow> u64 \<Rightarrow> ('h, unit) kprog" where
  "zero_user_range E pml4 start len =
     bind exec_offset (\<lambda>_.
     pieces start (unat len) (exec_piece E pml4 start (\<lambda>k n. replicate n 0)) 0 ())"

definition le_bytes :: "u64 \<Rightarrow> u8 list" where
  "le_bytes w = map (get_byte w) [0..<8]"

definition copy_u64_slice_to_user :: "'h env \<Rightarrow> u64 \<Rightarrow> u64 \<Rightarrow> u64 list \<Rightarrow> ('h, unit) kprog" where
  "copy_u64_slice_to_user E pml4 dst data = copy_to_user_pagetable E pml4 dst (concat (map le_bytes data))"

section \<open>Reading through the processor's translation\<close>

text \<open>\<open>copy_cstr_from_user\<close> and \<open>copy_argv\<close> dereference the user's pointers as they are, under the page
  table in \<open>CR3\<close>. A page fault in the kernel prints and halts the machine.\<close>

definition load_byte :: "'h env \<Rightarrow> u64 \<Rightarrow> ('h, u8) kprog" where
  "load_byte E a = (\<lambda>s. case mmu E (pm (k_mem s)) (k_cr3 s) a of
       None \<Rightarrow> (Panic ''EXCEPTION: PAGE FAULT'', s)
     | Some pa \<Rightarrow> (Ok (frame_byte (pm (k_mem s) (containing_frame pa)) (page_offset pa)), s))"

text \<open>A word, byte by byte from the lowest address.\<close>

primrec load_bytes :: "'h env \<Rightarrow> u64 \<Rightarrow> nat \<Rightarrow> ('h, u8 list) kprog" where
  "load_bytes E a 0 = ret []"
| "load_bytes E a (Suc n) = bind (load_byte E a) (\<lambda>b. bind (load_bytes E (a + 1) n) (\<lambda>bs. ret (b # bs)))"

definition of_le_bytes :: "u8 list \<Rightarrow> u64" where
  "of_le_bytes bs = foldr (\<lambda>b w. ucast b OR push_bit 8 w) bs 0"

definition load_u64 :: "'h env \<Rightarrow> u64 \<Rightarrow> ('h, u64) kprog" where
  "load_u64 E a = bind (load_bytes E a 8) (\<lambda>bs. ret (of_le_bytes bs))"

definition MAX_ARGC :: nat where "MAX_ARGC = 16"
definition MAX_ARG_LEN :: nat where "MAX_ARG_LEN = 256"

text \<open>The loop \<open>for i in 0..max_len\<close>; \<open>k\<close> counts the rounds that are left.\<close>

primrec cstr_loop :: "'h env \<Rightarrow> u64 \<Rightarrow> nat \<Rightarrow> u8 list \<Rightarrow> ('h, u8 list) kprog" where
  "cstr_loop E a 0 bytes = throw ''exec: argument is too long''"
| "cstr_loop E a (Suc k) bytes = bind (load_byte E a) (\<lambda>b.
     if b = 0 then ret bytes else cstr_loop E (a + 1) k (bytes @ [b]))"

definition copy_cstr_from_user :: "'h env \<Rightarrow> u64 \<Rightarrow> nat \<Rightarrow> ('h, u8 list) kprog" where
  "copy_cstr_from_user E ptr max_len =
     (if ptr = 0 then throw ''exec: null argument pointer'' else cstr_loop E ptr max_len [])"

primrec argv_loop :: "'h env \<Rightarrow> u64 \<Rightarrow> nat \<Rightarrow> u8 list list \<Rightarrow> ('h, u8 list list) kprog" where
  "argv_loop E a 0 argv = throw ''exec: too many arguments''"
| "argv_loop E a (Suc k) argv = bind (load_u64 E a) (\<lambda>p.
     if p = 0 then ret argv
     else bind (copy_cstr_from_user E p MAX_ARG_LEN) (\<lambda>arg. argv_loop E (a + 8) k (argv @ [arg])))"

definition copy_argv :: "'h env \<Rightarrow> u64 \<Rightarrow> ('h, u8 list list) kprog" where
  "copy_argv E argv_ptr = (if argv_ptr = 0 then ret [] else argv_loop E argv_ptr MAX_ARGC [])"

section \<open>Writing to a page leaves the tables alone\<close>

lemma length_page_path [simp]: "length (page_path k) = 4"
  by (simp add: page_path_def)

lemma leaf_write_tbl:
  assumes T: "user_tree X m r" and k: "k < 2 ^ 35" and f: "tbl X m r (page_path k) = Some f" and q: "upath q"
  shows "tbl X (m(f := d)) r q = tbl X m r q"
proof (rule tbl_cong [OF _ q])
  fix p i t
  assume up: "upath (p @ [i])" and t: "tbl X m r p = Some t"
  have "p \<noteq> page_path k" using upath_snocD [OF up] by auto
  then have "t \<noteq> f"
    using user_treeD [OF T t, of "page_path k"] f upath_page [OF k] upath_snocD [OF up] by blast
  then show "(m(f := d)) t i = m t i" by simp
qed

lemma leaf_write_table:
  assumes T: "user_tree X m r" and k: "k < 2 ^ 35" and f: "tbl X m r (page_path k) = Some f"
    and p: "upath (p @ [i])" "tbl X m r p = Some t"
  shows "t \<noteq> f"
proof
  assume "t = f"
  then have "p = page_path k"
    using user_treeD [OF T p(2), of "page_path k"] f upath_page [OF k] upath_snocD [OF p(1)] by blast
  then show False using upath_snocD [OF p(1)] by simp
qed

lemma page_path_snoc: "page_path k = butlast (page_path k) @ [last (page_path k)]"
  by (metis append_butlast_last_id length_page_path list.size(3) zero_neq_numeral)

lemma page_view_tbl: "page_view X m r k = (case tbl X m r (butlast (page_path k)) of None \<Rightarrow> None
    | Some t \<Rightarrow> let e = m t (last (page_path k)) in
        if present X e then Some (pte_addr X e, pte_flags X e, m (pte_addr X e)) else None)"
  by (simp add: page_view_def path_view_def)

lemma page_view_frame: "page_view X m r k = Some (f, fl, d) \<Longrightarrow> tbl X m r (page_path k) = Some f \<and> d = m f"
  using path_view_frame [of "page_path k" X m r f fl d]
  by (cases "page_path k = []") (auto simp: page_view_def path_view_def Let_def split: option.splits if_splits
    dest: arg_cong [where f = length])

lemma leaf_write_view:
  assumes T: "user_tree X m r" and k: "k < 2 ^ 35" and v: "page_view X m r k = Some (f, fl, d)"
    and j: "j < 2 ^ 35"
  shows "page_view X (m(f := d')) r j = (if j = k then Some (f, fl, d') else page_view X m r j)"
proof -
  have f: "tbl X m r (page_path k) = Some f" using page_view_frame [OF v] by simp
  let ?b = "butlast (page_path j)" and ?l = "last (page_path j)"
  have up: "upath (?b @ [?l])" using upath_page [OF j] page_path_snoc by metis
  have same: "tbl X (m(f := d')) r ?b = tbl X m r ?b"
    using leaf_write_tbl [OF T k f] upath_snocD [OF up] by blast
  show ?thesis
  proof (cases "tbl X m r ?b")
    case None
    then show ?thesis using v same by (auto simp: page_view_tbl)
  next
    case (Some t)
    have t: "t \<noteq> f" by (rule leaf_write_table [OF T k f up Some])
    have jk: "j = k" if "pte_addr X (m t ?l) = f" and "present X (m t ?l)"
    proof -
      from that
      have "tbl X m r (page_path j) = Some f"
        using Some page_path_snoc [of j] tbl_snoc [of X m r ?b ?l] by simp
      then have "page_path j = page_path k"
        using user_treeD [OF T _ f] upath_page [OF j] upath_page [OF k] by blast
      then show "j = k" using page_path_inj j k by blast
    qed
    have mt: "(m(f := d')) t = m t" using t by simp
    show ?thesis
    proof (cases "j = k")
      case True
      then show ?thesis
        using v same Some mt by (auto simp: page_view_tbl Let_def split: if_splits)
    next
      case False
      then have "present X (m t ?l) \<Longrightarrow> pte_addr X (m t ?l) \<noteq> f" using jk by blast
      then show ?thesis
        using False same Some mt by (auto simp: page_view_tbl Let_def)
    qed
  qed
qed

lemma leaf_write_space:
  assumes ok: "space_ok X av ok s r" and k: "k < 2 ^ 35" and v: "page_view X (pm s) r k = Some (f, fl, d)"
  shows "evolves X av ok r s (s\<lparr>pm := (pm s)(f := d')\<rparr>)"
proof -
  have T: "user_tree X (pm s) r" using ok by (simp add: space_ok_def)
  have f: "tbl X (pm s) r (page_path k) = Some f" using page_view_frame [OF v] by simp
  note same = leaf_write_tbl [OF T k f]
  let ?m = "(pm s)(f := d')"
  have fr: "space_frames X ?m r = space_frames X (pm s) r"
    unfolding space_frames_def using same by (metis (no_types, lifting))
  have tr: "user_tree X ?m r" using T unfolding user_tree_def using same by metis
  have nh: "no_huge X ?m r"
    unfolding no_huge_def
  proof (intro allI impI)
    fix p i t
    assume a: "upath (p @ [i]) \<and> tbl X ?m r p = Some t \<and> present X (?m t i)"
    then have t: "tbl X (pm s) r p = Some t" using same upath_snocD by metis
    then have "t \<noteq> f" using leaf_write_table [OF T k f] a by blast
    then show "\<not> contains (pte_flags X (?m t i)) HUGE_PAGE"
      using ok a t unfolding space_ok_def no_huge_def by auto
  qed
  have "f \<in> space_frames X (pm s) r" by (rule space_framesI [OF upath_page [OF k] f])
  moreover have "r \<noteq> f"
    using user_treeD [OF T f, of "[]"] upath_page [OF k] by (auto simp: page_path_def)
  ultimately show ?thesis
    using ok fr tr nh by (auto simp: evolves_def space_ok_def)
qed

section \<open>The bytes of the user half\<close>

definition page_byte :: "x86 \<Rightarrow> phys_mem \<Rightarrow> u64 \<Rightarrow> u64 \<Rightarrow> u8 option" where
  "page_byte X m r a = (case page_view X m r (page_no a) of None \<Rightarrow> None
     | Some (f, fl, d) \<Rightarrow> Some (frame_byte d (page_offset a)))"

text \<open>Every byte of the range lies in a page whose flags include \<open>fl0\<close>.\<close>

definition range_allows :: "x86 \<Rightarrow> phys_mem \<Rightarrow> u64 \<Rightarrow> u64 \<Rightarrow> u64 \<Rightarrow> nat \<Rightarrow> bool" where
  "range_allows X m r fl0 a len \<longleftrightarrow> (\<forall>k<len. case page_view X m r (page_no (a + of_nat k)) of None \<Rightarrow> False
     | Some (f, fl, d) \<Rightarrow> contains fl fl0)"

definition range_bytes :: "x86 \<Rightarrow> phys_mem \<Rightarrow> u64 \<Rightarrow> u64 \<Rightarrow> nat \<Rightarrow> u8 list" where
  "range_bytes X m r a len = map (\<lambda>k. the (page_byte X m r (a + of_nat k))) [0..<len]"

text \<open>\<open>bs\<close> was written at \<open>a\<close> and nothing else happened to the address space.\<close>

definition wrote :: "x86 \<Rightarrow> ('a \<Rightarrow> u64 set) \<Rightarrow> ('a \<Rightarrow> bool) \<Rightarrow> u64 \<Rightarrow> u64 \<Rightarrow> u8 list \<Rightarrow> 'a mem \<Rightarrow> 'a mem \<Rightarrow> bool" where
  "wrote X av ok r a bs s t \<longleftrightarrow> evolves X av ok r s t \<and> fa t = fa s \<and>
     (\<forall>j<2 ^ 35. map_option (\<lambda>(f, fl, d). (f, fl)) (page_view X (pm t) r j) =
                map_option (\<lambda>(f, fl, d). (f, fl)) (page_view X (pm s) r j)) \<and>
     (\<forall>b. user_va b \<longrightarrow> page_byte X (pm t) r b =
        (if unat a \<le> unat b \<and> unat b < unat a + length bs then Some (bs ! (unat b - unat a))
         else page_byte X (pm s) r b))"

lemma wrote_nothing: "space_ok X av ok s r \<Longrightarrow> wrote X av ok r a [] s s"
  by (auto simp: wrote_def evolves_refl)

lemma unat_add_of_nat: "unat a + k < 2 ^ 64 \<Longrightarrow> unat (a + of_nat k :: u64) = unat a + k"
  by (simp add: unat_word_ariths unat_of_nat)

lemma page_interval:
  fixes x y n :: nat
  assumes "x mod 4096 + n \<le> 4096"
  shows "y div 4096 = x div 4096 \<and> x mod 4096 \<le> y mod 4096 \<and> y mod 4096 < x mod 4096 + n \<longleftrightarrow>
    x \<le> y \<and> y < x + n"
    and "y div 4096 = x div 4096 \<Longrightarrow> x mod 4096 \<le> y mod 4096 \<Longrightarrow> y mod 4096 - x mod 4096 = y - x"
proof -
  define p r q c where "p = x div 4096" and "r = x mod 4096" and "q = y div 4096" and "c = y mod 4096"
  have x: "x = 4096 * p + r" and y: "y = 4096 * q + c" and c: "c < 4096" and n: "r + n \<le> 4096"
    using assms by (simp_all add: p_def r_def q_def c_def)
  have "q = p \<and> r \<le> c \<and> c < r + n \<longleftrightarrow> x \<le> y \<and> y < x + n"
  proof
    assume "x \<le> y \<and> y < x + n"
    moreover from this have "\<not> p < q" using x y n by arith
    moreover have "\<not> q < p" using \<open>x \<le> y \<and> y < x + n\<close> x y c by arith
    ultimately show "q = p \<and> r \<le> c \<and> c < r + n" using x y by simp
  qed (use x y in simp)
  then show "y div 4096 = x div 4096 \<and> x mod 4096 \<le> y mod 4096 \<and> y mod 4096 < x mod 4096 + n \<longleftrightarrow>
      x \<le> y \<and> y < x + n"
    by (simp add: p_def r_def q_def c_def)
  show "y div 4096 = x div 4096 \<Longrightarrow> x mod 4096 \<le> y mod 4096 \<Longrightarrow> y mod 4096 - x mod 4096 = y - x"
    using x y unfolding p_def [symmetric] r_def [symmetric] q_def [symmetric] c_def [symmetric] by simp
qed

lemma in_piece:
  assumes i: "i < piece_len a len k" and fit: "unat a + len \<le> 2 ^ 47" and k: "k < len"
  shows "page_no (a + of_nat (k + i)) = page_no (a + of_nat k)"
    and "page_offset (a + of_nat (k + i)) = page_offset (a + of_nat k) + i"
    and "user_va (a + of_nat (k + i))"
proof -
  have "i < len - k" using i by (simp add: piece_len_def)
  then have small: "k + i < len" using k by arith
  have u: "unat (a + of_nat (k + i)) = unat a + (k + i)" "unat (a + of_nat k) = unat a + k"
    using fit small by (intro unat_add_of_nat; simp)+
  show "user_va (a + of_nat (k + i))" using u fit small by (simp add: user_va_def)
  have "i < 4096 - (unat a + k) mod 4096"
    using i u(2) by (simp add: piece_len_def page_offset_nat)
  then have "(unat a + k) mod 4096 + Suc i \<le> 4096" by arith
  from page_interval [OF this, of "unat a + (k + i)"]
  have q: "(unat a + (k + i)) div 4096 = (unat a + k) div 4096"
      "(unat a + k) mod 4096 \<le> (unat a + (k + i)) mod 4096"
      "(unat a + (k + i)) mod 4096 - (unat a + k) mod 4096 = i"
    by auto
  then have dm: "(unat a + (k + i)) div 4096 = (unat a + k) div 4096"
      "(unat a + (k + i)) mod 4096 = (unat a + k) mod 4096 + i"
    by (metis le_add_diff_inverse)+
  show "page_no (a + of_nat (k + i)) = page_no (a + of_nat k)"
    unfolding page_no_def u by (rule dm(1))
  show "page_offset (a + of_nat (k + i)) = page_offset (a + of_nat k) + i"
    unfolding page_offset_nat u by (rule dm(2))
qed

lemma get_bytes_piece:
  assumes fit: "unat a + len \<le> 2 ^ 47" and k: "k < len"
    and v: "page_view X m r (page_no (a + of_nat k)) = Some (f, fl, d)"
  shows "get_bytes d (page_offset (a + of_nat k)) (piece_len a len k) =
    map (\<lambda>j. the (page_byte X m r (a + of_nat j))) [k..<k + piece_len a len k]"
proof (rule nth_equalityI)
  fix i assume "i < length (get_bytes d (page_offset (a + of_nat k)) (piece_len a len k))"
  then have i: "i < piece_len a len k" by (simp add: get_bytes_def)
  let ?j = "k + i"
  have "get_bytes d (page_offset (a + of_nat k)) (piece_len a len k) ! i =
      frame_byte d (page_offset (a + of_nat k) + i)"
    using i by (simp add: get_bytes_def)
  also have "\<dots> = the (page_byte X m r (a + of_nat ?j))"
    unfolding page_byte_def in_piece(1,2) [OF i fit k] v by simp
  also have "\<dots> = map (\<lambda>j. the (page_byte X m r (a + of_nat j))) [k..<k + piece_len a len k] ! i"
    using i by (simp only: nth_map length_upt nth_upt) simp
  finally show "get_bytes d (page_offset (a + of_nat k)) (piece_len a len k) ! i =
      map (\<lambda>j. the (page_byte X m r (a + of_nat j))) [k..<k + piece_len a len k] ! i" .
qed (simp add: get_bytes_def)

text \<open>Where a byte of the user half lies relative to a piece.\<close>

lemma piece_iff:
  assumes fit: "unat a + len \<le> 2 ^ 47" and k: "k < len" and b: "user_va b"
    and n: "n = piece_len a len k"
  shows "page_no b = page_no (a + of_nat k) \<and>
      page_offset (a + of_nat k) \<le> page_offset b \<and> page_offset b < page_offset (a + of_nat k) + n \<longleftrightarrow>
    unat a + k \<le> unat b \<and> unat b < unat a + k + n"
    and "page_no b = page_no (a + of_nat k) \<Longrightarrow> page_offset (a + of_nat k) \<le> page_offset b \<Longrightarrow>
      page_offset b - page_offset (a + of_nat k) = unat b - (unat a + k)"
proof -
  have u: "unat (a + of_nat k) = unat a + k" using fit k by (simp add: unat_add_of_nat)
  have n': "(unat a + k) mod 4096 + n \<le> 4096"
    unfolding n piece_len_def page_offset_nat u by simp
  show "page_no b = page_no (a + of_nat k) \<and>
      page_offset (a + of_nat k) \<le> page_offset b \<and> page_offset b < page_offset (a + of_nat k) + n \<longleftrightarrow>
    unat a + k \<le> unat b \<and> unat b < unat a + k + n"
    unfolding page_no_def page_offset_nat u by (rule page_interval(1) [OF n'])
  show "page_no b = page_no (a + of_nat k) \<Longrightarrow> page_offset (a + of_nat k) \<le> page_offset b \<Longrightarrow>
      page_offset b - page_offset (a + of_nat k) = unat b - (unat a + k)"
    unfolding page_no_def page_offset_nat u by (rule page_interval(2) [OF n'])
qed

lemma wrote_piece:
  assumes w: "wrote X av ok r a (take k bs) s t" and fit: "unat a + length bs \<le> 2 ^ 47"
    and k: "k < length bs" and n: "n = piece_len a (length bs) k"
    and v: "page_view X (pm t) r (page_no (a + of_nat k)) = Some (f, fl, d)"
  shows "wrote X av ok r a (take (k + n) bs) s
    (write_frame f (page_offset (a + of_nat k)) (take n (drop k bs)) t)"
proof -
  let ?va = "a + of_nat k" and ?src = "take n (drop k bs)"
  let ?t = "write_frame f (page_offset ?va) ?src t"
  have kn: "k + n \<le> length bs" using piece_len_le [of k "length bs" a] k n by simp
  then have len: "length ?src = n" by simp
  have uva: "user_va ?va" using in_piece(3) [OF _ fit k, of 0] piece_len_pos [OF k] by simp
  note p35 = page_no_user [OF uva]
  have ok: "space_ok X av ok t r" using w by (simp add: wrote_def evolves_def)
  have T: "user_tree X (pm t) r" using ok by (simp add: space_ok_def)
  have d: "d = pm t f" using page_view_frame [OF v] by simp
  have "evolves X av ok r s t" using w by (simp add: wrote_def)
  then have ev: "evolves X av ok r s ?t"
    unfolding write_frame_def by (rule evolves_trans) (rule leaf_write_space [OF ok p35 v])
  have view: "page_view X (pm ?t) r j = (if j = page_no ?va
      then Some (f, fl, put_bytes (page_offset ?va) ?src d) else page_view X (pm t) r j)"
    if "j < 2 ^ 35" for j
    using leaf_write_view [OF T p35 v that] by (simp add: write_frame_def d)
  have byte: "page_byte X (pm ?t) r b =
      (if unat a + k \<le> unat b \<and> unat b < unat a + k + n then Some (bs ! (unat b - unat a))
       else page_byte X (pm t) r b)" if b: "user_va b" for b
  proof (cases "page_no b = page_no ?va")
    case True
    note iff = piece_iff [OF fit k b n]
    show ?thesis
      using view [OF page_no_user [OF b]] True v iff len kn
      by (auto simp: page_byte_def frame_byte_put_bytes)
  next
    case False
    then show ?thesis
      using view [OF page_no_user [OF b]] piece_iff(1) [OF fit k b n] by (auto simp: page_byte_def)
  qed
  have "page_byte X (pm ?t) r b =
      (if unat a \<le> unat b \<and> unat b < unat a + length (take (k + n) bs)
       then Some (take (k + n) bs ! (unat b - unat a)) else page_byte X (pm s) r b)" if b: "user_va b" for b
    using byte [OF b] w b kn k by (auto simp: wrote_def)
  then show ?thesis
    using ev w view v by (auto simp: wrote_def write_frame_def)
qed

end
