(* ===== verification/UserCopy.thy ===== *)
theory UserCopy
  imports UserMem
begin

text \<open>
  What the copy loops do to a well-formed address space: a read returns the addressed bytes and
  changes nothing, a write changes the addressed bytes and nothing else, and both fail without a
  panic when a page of the range is missing or lacks the needed permission.
\<close>

section \<open>The page-table entry of a user address\<close>

lemma contains_bits: "contains fl x \<longleftrightarrow> (\<forall>n. bit x n \<longrightarrow> bit fl n)"
proof
  assume "contains fl x"
  then have "fl AND x = x" by (simp add: contains_def)
  then show "\<forall>n. bit x n \<longrightarrow> bit fl n" by (metis bit_and_iff)
next
  assume "\<forall>n. bit x n \<longrightarrow> bit fl n"
  then show "contains fl x"
    unfolding contains_def by (intro bit_word_eqI) (auto simp: bit_and_iff)
qed

lemma contains_or: "contains fl (a OR b) \<longleftrightarrow> contains fl a \<and> contains fl b"
  by (auto simp: contains_bits bit_or_iff)

lemma user_pte_run: "paging_crate (crate E) \<Longrightarrow> user_pte E r va s =
    (Ok (map_option (\<lambda>t. (t, pt_index va)) (tbl (crate E) (pm (k_mem s)) r (table_path va))), s)"
  by (simp add: user_pte_def on_mem_def zoom_def paging.walk_find [OF paging_boot])

text \<open>What the walk finds for an address is what the page's view says.\<close>

lemma view_pte: "page_view X m r (page_no va) = (case tbl X m r (table_path va) of None \<Rightarrow> None
    | Some t \<Rightarrow> if present X (m t (pt_index va))
        then Some (pte_addr X (m t (pt_index va)), pte_flags X (m t (pt_index va)), m (pte_addr X (m t (pt_index va))))
        else None)"
  unfolding page_view_def va_path_page [symmetric] va_path_table path_view_snoc by simp

lemma syscall_pte_some:
  assumes X: "paging_crate (crate E)" and "page_view (crate E) (pm (k_mem s)) r (page_no va) = Some (f, fl, d)" and "contains fl USER_ACCESSIBLE"
  obtains e where "syscall_pte E r va s = (Ok e, s)" and "pte_addr (crate E) e = f" and "pte_flags (crate E) e = fl"
proof -
  obtain t where "tbl (crate E) (pm (k_mem s)) r (table_path va) = Some t"
    "present (crate E) (pm (k_mem s) t (pt_index va))"
    "pte_addr (crate E) (pm (k_mem s) t (pt_index va)) = f" "pte_flags (crate E) (pm (k_mem s) t (pt_index va)) = fl"
    using assms(2) by (auto simp: view_pte split: option.splits if_splits)
  then show ?thesis
    using that assms(3) by (simp add: syscall_pte_def user_pte_run [OF X] need_flag_def present_def bind_def gets_def)
qed

definition only_output :: "'h kernel \<Rightarrow> 'h kernel \<Rightarrow> bool" where
  "only_output s t \<longleftrightarrow> (\<exists>o'. t = s\<lparr>k_out := o'\<rparr>)"

lemma only_output_refl [simp]: "only_output s s"
  unfolding only_output_def by (rule exI [of _ "k_out s"]) simp

lemma syscall_pte_none:
  assumes X: "paging_crate (crate E)" and "case page_view (crate E) (pm (k_mem s)) r (page_no va) of None \<Rightarrow> True
    | Some (f, fl, d) \<Rightarrow> \<not> contains fl USER_ACCESSIBLE"
  obtains e t where "syscall_pte E r va s = (Err e, t)" and "only_output s t"
proof (cases "tbl (crate E) (pm (k_mem s)) r (table_path va)")
  case None
  have "only_output s (s\<lparr>k_out := x\<rparr>)" for x by (auto simp: only_output_def)
  then show ?thesis
    using that None by (simp add: syscall_pte_def user_pte_run [OF X] println_def bind_def modify_def throw_def)
next
  case (Some t)
  show ?thesis
    using that Some assms
    by (auto simp: syscall_pte_def user_pte_run [OF X] need_flag_def present_def bind_def gets_def view_pte
        split: if_splits)
qed

lemma exec_pte_some:
  assumes X: "paging_crate (crate E)" and "page_view (crate E) (pm (k_mem s)) r (page_no va) = Some (f, fl, d)"
  obtains e where "exec_pte E r va s = (Ok e, s)" and "pte_addr (crate E) e = f" and "pte_flags (crate E) e = fl"
proof -
  obtain t where "tbl (crate E) (pm (k_mem s)) r (table_path va) = Some t"
    "present (crate E) (pm (k_mem s) t (pt_index va))"
    "pte_addr (crate E) (pm (k_mem s) t (pt_index va)) = f" "pte_flags (crate E) (pm (k_mem s) t (pt_index va)) = fl"
    using assms(2) by (auto simp: view_pte split: option.splits if_splits)
  then show ?thesis
    using that by (simp add: exec_pte_def user_pte_run [OF X] need_flag_def present_def bind_def gets_def)
qed

lemma exec_pte_none:
  assumes X: "paging_crate (crate E)" and "page_view (crate E) (pm (k_mem s)) r (page_no va) = None"
  obtains e where "exec_pte E r va s = (Err e, s)"
proof (cases "tbl (crate E) (pm (k_mem s)) r (table_path va)")
  case None
  then show ?thesis using that by (simp add: exec_pte_def user_pte_run [OF X])
next
  case (Some t)
  then show ?thesis
    using that assms by (simp add: exec_pte_def user_pte_run [OF X] need_flag_def present_def view_pte bind_def gets_def
        split: if_splits)
qed

text \<open>The address of a piece is canonical and computed without overflow.\<close>

lemma piece_addr:
  assumes "paging_crate (crate E)" and "unat a + len \<le> 2 ^ 47" and "k < len"
  shows "arith_add E a (of_nat k) s = (Ok (a + of_nat k), s)"
    and "virt_new (crate E) (a + of_nat k) = ret (a + of_nat k)"
proof -
  have small: "unat (of_nat k :: u64) = k" using assms(2,3) by (simp add: unat_of_nat)
  have u: "unat (a + of_nat k) = unat a + k" using assms(2,3) by (simp add: unat_add_of_nat)
  show "arith_add E a (of_nat k) s = (Ok (a + of_nat k), s)"
    using small assms(2,3) by (simp add: arith_add_def checked_add_def)
  have "a + of_nat k < 2 ^ 47"
    using u assms(2,3) unat_exp [where ?'a = 64 and k = 47] by (simp add: word_less_nat_alt)
  then show "virt_new (crate E) (a + of_nat k) = ret (a + of_nat k)"
    using paging_crate.virt_lower_half [OF assms(1)] by (simp add: virt_new_def)
qed

section \<open>Reading\<close>

lemma range_allows_at:
  "range_allows X m r fl0 a len \<Longrightarrow> k < len \<Longrightarrow>
   \<exists>f fl d. page_view X m r (page_no (a + of_nat k)) = Some (f, fl, d) \<and> contains fl fl0"
  by (fastforce simp: range_allows_def split: option.splits)

text \<open>Every piece of a range is one page, so a range is allowed when the first byte of every piece is.\<close>

lemma range_allows_piece:
  assumes fit: "unat a + len \<le> 2 ^ 47" and k: "k < len"
    and v: "page_view X m r (page_no (a + of_nat k)) = Some (f, fl, d)" "contains fl fl0"
    and before: "range_allows X m r fl0 a k"
  shows "range_allows X m r fl0 a (k + piece_len a len k)"
  unfolding range_allows_def
proof (intro allI impI)
  fix j assume j: "j < k + piece_len a len k"
  show "case page_view X m r (page_no (a + of_nat j)) of None \<Rightarrow> False | Some (f, fl, d) \<Rightarrow> contains fl fl0"
  proof (cases "j < k")
    case True
    then show ?thesis using before by (simp add: range_allows_def)
  next
    case False
    then have "j - k < piece_len a len k" and eq: "k + (j - k) = j" using j by simp_all
    then show ?thesis using in_piece(1) [OF _ fit k, of "j - k"] v unfolding eq by simp
  qed
qed

lemma read_piece_run:
  assumes X: "paging_crate (crate E)" and fit: "unat a + len \<le> 2 ^ 47" and k: "k < len"
  shows "ends
    (\<lambda>bs t. t = s \<and> bs = bytes @ map (\<lambda>j. the (page_byte (crate E) (pm (k_mem s)) r (a + of_nat j))) [k..<k + piece_len a len k] \<and>
       (\<exists>f fl d. page_view (crate E) (pm (k_mem s)) r (page_no (a + of_nat k)) = Some (f, fl, d) \<and> contains fl USER_ACCESSIBLE))
    (\<lambda>e t. only_output s t \<and> \<not> range_allows (crate E) (pm (k_mem s)) r USER_ACCESSIBLE a len)
    (read_piece E r a k (piece_len a len k) bytes s)"
proof -
  note A = piece_addr [OF X fit k]
  show ?thesis
  proof (cases "\<exists>f fl d. page_view (crate E) (pm (k_mem s)) r (page_no (a + of_nat k)) = Some (f, fl, d) \<and> contains fl USER_ACCESSIBLE")
    case True
    then obtain f fl d where v: "page_view (crate E) (pm (k_mem s)) r (page_no (a + of_nat k)) = Some (f, fl, d)"
      and fl: "contains fl USER_ACCESSIBLE" by blast
    obtain e where e: "syscall_pte E r (a + of_nat k) s = (Ok e, s)" "pte_addr (crate E) e = f"
      using syscall_pte_some [OF X v fl] by blast
    have "d = pm (k_mem s) f" using page_view_frame [OF v] by simp
    then show ?thesis
      using e v fl get_bytes_piece [OF fit k v]
      by (simp add: A read_piece_def bind_def gets_def ends_def)
  next
    case False
    then have none: "case page_view (crate E) (pm (k_mem s)) r (page_no (a + of_nat k)) of None \<Rightarrow> True
      | Some (f, fl, d) \<Rightarrow> \<not> contains fl USER_ACCESSIBLE" by (auto split: option.splits)
    obtain e t where "syscall_pte E r (a + of_nat k) s = (Err e, t)" "only_output s t"
      using syscall_pte_none [OF X none] by blast
    moreover have "\<not> range_allows (crate E) (pm (k_mem s)) r USER_ACCESSIBLE a len"
      using range_allows_at [OF _ k] False by blast
    ultimately show ?thesis by (simp add: A read_piece_def bind_def ends_def)
  qed
qed

lemma read_pieces_run:
  assumes X: "paging_crate (crate E)" and fit: "unat a + len \<le> 2 ^ 47"
  shows "ends (\<lambda>bs t. t = s \<and> bs = range_bytes (crate E) (pm (k_mem s)) r a len \<and>
       range_allows (crate E) (pm (k_mem s)) r USER_ACCESSIBLE a len)
    (\<lambda>e t. only_output s t \<and> \<not> range_allows (crate E) (pm (k_mem s)) r USER_ACCESSIBLE a len)
    (pieces a len (read_piece E r a) 0 [] s)"
proof (rule pieces_rule)
  fix k bytes t
  let ?b = "\<lambda>j. the (page_byte (crate E) (pm (k_mem s)) r (a + of_nat j))"
  let ?P = "\<lambda>k bs t. t = s \<and> bs = range_bytes (crate E) (pm (k_mem s)) r a k \<and>
       range_allows (crate E) (pm (k_mem s)) r USER_ACCESSIBLE a k"
  assume P: "?P k bytes t" and k: "k < len"
  let ?n = "piece_len a len k"
  have app: "range_bytes (crate E) (pm (k_mem s)) r a k @ map ?b [k..<k + ?n] =
      range_bytes (crate E) (pm (k_mem s)) r a (k + ?n)"
    unfolding range_bytes_def map_append [symmetric] by (simp add: upt_add_eq_append [of 0 k, simplified])
  show "ends (?P (k + ?n)) (\<lambda>e t. only_output s t \<and> \<not> range_allows (crate E) (pm (k_mem s)) r USER_ACCESSIBLE a len)
      (read_piece E r a k ?n bytes t)"
    using read_piece_run [OF X fit k, of s bytes r] P range_allows_piece [OF fit k] app
    by (auto simp: ends_def split: prod.splits res.splits)
qed (auto simp: range_bytes_def range_allows_def)

lemma copy_bytes_from_user_run:
  assumes X: "paging_crate (crate E)" and run: "running s i p pr" and pt: "page_table pr = Some r"
    and sp: "user_space E s r" and fr: "k_frames_ready s"
    and ptr: "ptr \<noteq> 0" "unat ptr + unat len \<le> 2 ^ 47"
  shows "ends (\<lambda>bs t. t = s \<and> bs = range_bytes (crate E) (pm (k_mem s)) r ptr (unat len) \<and>
       range_allows (crate E) (pm (k_mem s)) r USER_ACCESSIBLE ptr (unat len))
    (\<lambda>e t. only_output s t \<and> \<not> range_allows (crate E) (pm (k_mem s)) r USER_ACCESSIBLE ptr (unat len))
    (copy_bytes_from_user E ptr len s)"
proof -
  have cur: "current_page_table s = (Ok r, s)"
    using running_process [OF run] pt by (simp add: current_page_table_def)
  obtain po where off: "on_mem offset_set s = (Ok po, s)" using offset_run [OF sp] by blast
  have small: "\<not> 2 ^ 63 \<le> len"
    using ptr(2) unat_exp [where ?'a = 64 and k = 63] by (simp add: word_le_nat_alt)
  have "copy_bytes_from_user E ptr len s = pieces ptr (unat len) (read_piece E r ptr) 0 [] s"
    using ptr(1) cur off frame_allocator_run [OF fr] small by (simp add: copy_bytes_from_user_def)
  then show ?thesis using read_pieces_run [OF X ptr(2)] by simp
qed

section \<open>Writing\<close>

definition written :: "'h env \<Rightarrow> u64 \<Rightarrow> u64 \<Rightarrow> u8 list \<Rightarrow> 'h kernel \<Rightarrow> 'h kernel \<Rightarrow> bool" where
  "written E r a bs s t \<longleftrightarrow> (\<exists>m o'. t = s\<lparr>k_mem := m, k_out := o'\<rparr> \<and>
     wrote (crate E) avail_frames frame_alloc_ok r a bs (k_mem s) m)"

text \<open>The outcome of a write: all of it, or an error after a part of it, which happens exactly when some
  page does not have the flags \<open>fl0\<close>.\<close>

definition writes :: "'h env \<Rightarrow> u64 \<Rightarrow> u64 \<Rightarrow> u64 \<Rightarrow> u8 list \<Rightarrow> 'h kernel \<Rightarrow> unit res \<times> 'h kernel \<Rightarrow> bool" where
  "writes E r fl0 a bs s = ends
     (\<lambda>_ t. written E r a bs s t \<and> range_allows (crate E) (pm (k_mem s)) r fl0 a (length bs))
     (\<lambda>e t. \<not> range_allows (crate E) (pm (k_mem s)) r fl0 a (length bs) \<and>
        (\<exists>k<length bs. written E r a (take k bs) s t))"

lemma same_flags: "map_option (\<lambda>(f, fl, d). (f, fl)) x = map_option (\<lambda>(f, fl, d). (f, fl)) y \<Longrightarrow>
    (case x of None \<Rightarrow> False | Some (f, fl, d) \<Rightarrow> contains fl fl0) \<longleftrightarrow>
    (case y of None \<Rightarrow> False | Some (f, fl, d) \<Rightarrow> contains fl fl0)"
  by (cases x; cases y) auto

lemma wrote_allows:
  assumes "wrote X av ok r a bs s t" and "unat a + len \<le> 2 ^ 47"
  shows "range_allows X (pm t) r fl0 a len \<longleftrightarrow> range_allows X (pm s) r fl0 a len"
  unfolding range_allows_def
proof (intro all_cong)
  fix k assume k: "k < len"
  have "user_va (a + of_nat k)"
    using assms(2) k by (simp add: user_va_def unat_add_of_nat)
  then have "page_no (a + of_nat k) < 2 ^ 35" by (rule page_no_user)
  then have "map_option (\<lambda>(f, fl, d). (f, fl)) (page_view X (pm t) r (page_no (a + of_nat k))) =
      map_option (\<lambda>(f, fl, d). (f, fl)) (page_view X (pm s) r (page_no (a + of_nat k)))"
    using assms(1) unfolding wrote_def by blast
  then show "(case page_view X (pm t) r (page_no (a + of_nat k)) of None \<Rightarrow> False | Some (f, fl, d) \<Rightarrow> contains fl fl0) \<longleftrightarrow>
      (case page_view X (pm s) r (page_no (a + of_nat k)) of None \<Rightarrow> False | Some (f, fl, d) \<Rightarrow> contains fl fl0)"
    by (rule same_flags)
qed

text \<open>A body that writes its piece when the page has the flags, and else fails, makes a loop that
  writes the range.\<close>

lemma write_loop:
  assumes fit: "unat a + length bs \<le> 2 ^ 47" and sp: "user_space E s r"
    and hit: "\<And>k t f fl d. k < length bs \<Longrightarrow>
      page_view (crate E) (pm (k_mem t)) r (page_no (a + of_nat k)) = Some (f, fl, d) \<Longrightarrow> contains fl fl0 \<Longrightarrow>
      body k (piece_len a (length bs) k) () t = (Ok (), t\<lparr>k_mem := write_frame f (page_offset (a + of_nat k))
        (take (piece_len a (length bs) k) (drop k bs)) (k_mem t)\<rparr>)"
    and miss: "\<And>k t. k < length bs \<Longrightarrow> (case page_view (crate E) (pm (k_mem t)) r (page_no (a + of_nat k)) of
        None \<Rightarrow> True | Some (f, fl, d) \<Rightarrow> \<not> contains fl fl0) \<Longrightarrow>
      \<exists>e u. body k (piece_len a (length bs) k) () t = (Err e, u) \<and> only_output t u"
  shows "writes E r fl0 a bs s (pieces a (length bs) body 0 () s)"
proof -
  let ?P = "\<lambda>k (_ :: unit) t. written E r a (take k bs) s t \<and> range_allows (crate E) (pm (k_mem s)) r fl0 a k"
  let ?Q = "\<lambda>(e :: string) t. \<not> range_allows (crate E) (pm (k_mem s)) r fl0 a (length bs) \<and>
        (\<exists>k<length bs. written E r a (take k bs) s t)"
  have "ends (?P (length bs)) ?Q (pieces a (length bs) body 0 () s)"
  proof (rule pieces_rule)
    fix k c t assume P: "?P k c t" and k: "k < length bs"
    let ?n = "piece_len a (length bs) k"
    obtain m o' where t: "t = s\<lparr>k_mem := m, k_out := o'\<rparr>"
      and w: "wrote (crate E) avail_frames frame_alloc_ok r a (take k bs) (k_mem s) m"
      using P by (auto simp: written_def)
    have al: "range_allows (crate E) (pm m) r fl0 a k"
      using P wrote_allows [OF w, of k fl0] fit k by simp
    show "ends (?P (k + ?n)) ?Q (body k ?n c t)"
    proof (cases "\<exists>f fl d. page_view (crate E) (pm m) r (page_no (a + of_nat k)) = Some (f, fl, d) \<and> contains fl fl0")
      case True
      then obtain f fl d where v: "page_view (crate E) (pm m) r (page_no (a + of_nat k)) = Some (f, fl, d)"
        and fl: "contains fl fl0" by blast
      let ?m = "write_frame f (page_offset (a + of_nat k)) (take ?n (drop k bs)) m"
      have b: "body k ?n () t = (Ok (), s\<lparr>k_mem := ?m, k_out := o'\<rparr>)"
        using hit [OF k, of t f fl d] v fl t by simp
      have "wrote (crate E) avail_frames frame_alloc_ok r a (take (k + ?n) bs) (k_mem s) ?m"
        by (rule wrote_piece [OF w fit k refl v])
      moreover have "range_allows (crate E) (pm (k_mem s)) r fl0 a (k + ?n)"
        using range_allows_piece [OF fit k v fl al] wrote_allows [OF w, of "k + ?n" fl0]
          piece_len_le [of k "length bs" a] k fit by simp
      ultimately show ?thesis by (auto simp: b ends_def written_def)
    next
      case False
      then have none: "case page_view (crate E) (pm (k_mem t)) r (page_no (a + of_nat k)) of
          None \<Rightarrow> True | Some (f, fl, d) \<Rightarrow> \<not> contains fl fl0"
        by (auto simp: t split: option.splits)
      obtain e u where b: "body k ?n () t = (Err e, u)" and u: "only_output t u"
        using miss [OF k none] by blast
      have "written E r a (take k bs) s u" using u w by (auto simp: only_output_def written_def t)
      moreover have "\<not> range_allows (crate E) (pm m) r fl0 a (length bs)"
        using range_allows_at [OF _ k] False by blast
      ultimately show ?thesis
        using b k wrote_allows [OF w fit, of fl0] by (auto simp: ends_def)
    qed
  next
    show "?P 0 () s"
      using wrote_nothing [OF sp, of a]
      by (auto simp: written_def range_allows_def intro!: exI [of _ "k_mem s"] exI [of _ "k_out s"])
  qed simp
  then show ?thesis by (simp add: writes_def)
qed

lemma write_piece_hit:
  fixes t :: "'h kernel"
  assumes X: "paging_crate (crate E)" and fit: "unat a + length bs \<le> 2 ^ 47" and k: "k < length bs"
    and v: "page_view (crate E) (pm (k_mem t)) r (page_no (a + of_nat k)) = Some (f, fl, d)"
    and fl: "contains fl (USER_ACCESSIBLE OR WRITABLE)"
  shows "write_piece E r a bs k n () t = (Ok (), t\<lparr>k_mem := write_frame f (page_offset (a + of_nat k))
        (take n (drop k bs)) (k_mem t)\<rparr>)"
proof -
  have fls: "contains fl USER_ACCESSIBLE" "contains fl WRITABLE" using fl by (simp_all add: contains_or)
  obtain e where "syscall_pte E r (a + of_nat k) t = (Ok e, t)" "pte_addr (crate E) e = f" "pte_flags (crate E) e = fl"
    using syscall_pte_some [OF X v fls(1)] by blast
  then show ?thesis
    using fls(2) by (simp add: piece_addr [OF X fit k] write_piece_def bind_def need_flag_def on_mem_def zoom_def modify_def)
qed

lemma write_piece_miss:
  fixes t :: "'h kernel"
  assumes X: "paging_crate (crate E)" and fit: "unat a + length bs \<le> 2 ^ 47" and k: "k < length bs"
    and v: "case page_view (crate E) (pm (k_mem t)) r (page_no (a + of_nat k)) of None \<Rightarrow> True
      | Some (f, fl, d) \<Rightarrow> \<not> contains fl (USER_ACCESSIBLE OR WRITABLE)"
  shows "\<exists>e u. write_piece E r a bs k n () t = (Err e, u) \<and> only_output t u"
proof (cases "\<exists>f fl d. page_view (crate E) (pm (k_mem t)) r (page_no (a + of_nat k)) = Some (f, fl, d) \<and> contains fl USER_ACCESSIBLE")
  case True
  then obtain f fl d where w: "page_view (crate E) (pm (k_mem t)) r (page_no (a + of_nat k)) = Some (f, fl, d)"
    and fl: "contains fl USER_ACCESSIBLE" by blast
  obtain e where e: "syscall_pte E r (a + of_nat k) t = (Ok e, t)" "pte_flags (crate E) e = fl"
    using syscall_pte_some [OF X w fl] by blast
  have "\<not> contains fl WRITABLE" using v w fl by (simp add: contains_or)
  then show ?thesis
    using e by (simp add: piece_addr [OF X fit k] write_piece_def bind_def need_flag_def)
next
  case False
  then have none: "case page_view (crate E) (pm (k_mem t)) r (page_no (a + of_nat k)) of None \<Rightarrow> True
      | Some (f, fl, d) \<Rightarrow> \<not> contains fl USER_ACCESSIBLE" by (auto split: option.splits)
  obtain e u where "syscall_pte E r (a + of_nat k) t = (Err e, u)" "only_output t u"
    using syscall_pte_none [OF X none] by blast
  then show ?thesis by (simp add: piece_addr [OF X fit k] write_piece_def bind_def)
qed

lemma copy_to_user_run:
  assumes X: "paging_crate (crate E)" and run: "running s i p pr" and pt: "page_table pr = Some r"
    and sp: "user_space E s r" and fr: "k_frames_ready s"
    and ptr: "ptr \<noteq> 0" "unat ptr + length bs \<le> 2 ^ 47"
  shows "writes E r (USER_ACCESSIBLE OR WRITABLE) ptr bs s (copy_to_user E ptr bs s)"
proof (cases "bs = []")
  case True
  then show ?thesis
    using wrote_nothing [OF sp, of ptr]
    by (auto simp: copy_to_user_def writes_def ends_def written_def range_allows_def
        intro!: exI [of _ "k_mem s"] exI [of _ "k_out s"])
next
  case False
  have cur: "current_page_table s = (Ok r, s)"
    using running_process [OF run] pt by (simp add: current_page_table_def)
  obtain po where off: "on_mem offset_set s = (Ok po, s)" using offset_run [OF sp] by blast
  have "copy_to_user E ptr bs s = pieces ptr (length bs) (write_piece E r ptr bs) 0 () s"
    using ptr(1) cur off frame_allocator_run [OF fr] False by (simp add: copy_to_user_def)
  moreover have "writes E r (USER_ACCESSIBLE OR WRITABLE) ptr bs s (pieces ptr (length bs) (write_piece E r ptr bs) 0 () s)"
    by (rule write_loop [OF ptr(2) sp])
      (erule (2) write_piece_hit [OF X ptr(2)], erule (1) write_piece_miss [OF X ptr(2)])
  ultimately show ?thesis by simp
qed

text \<open>The writers of exec/mod.rs ask for no flag beyond the present bit: the flag word 0.\<close>

lemma contains_0 [simp]: "contains fl 0"
  by (simp add: contains_def)

lemma exec_piece_loop:
  fixes s :: "'h kernel"
  assumes X: "paging_crate (crate E)" and fit: "unat a + length bs \<le> 2 ^ 47" and sp: "user_space E s r"
    and src: "\<And>k. k < length bs \<Longrightarrow> src k (piece_len a (length bs) k) = take (piece_len a (length bs) k) (drop k bs)"
  shows "writes E r 0 a bs s (pieces a (length bs) (exec_piece E r a src) 0 () s)"
proof (rule write_loop [OF fit sp])
  fix k f fl d and t :: "'h kernel"
  assume k: "k < length bs" and v: "page_view (crate E) (pm (k_mem t)) r (page_no (a + of_nat k)) = Some (f, fl, d)"
  obtain e where "exec_pte E r (a + of_nat k) t = (Ok e, t)" "pte_addr (crate E) e = f"
    using exec_pte_some [OF X v] by blast
  then show "exec_piece E r a src k (piece_len a (length bs) k) () t = (Ok (), t\<lparr>k_mem :=
      write_frame f (page_offset (a + of_nat k)) (take (piece_len a (length bs) k) (drop k bs)) (k_mem t)\<rparr>)"
    by (simp add: piece_addr [OF X fit k] exec_piece_def bind_def on_mem_def zoom_def modify_def src [OF k])
next
  fix k and t :: "'h kernel"
  assume k: "k < length bs" and "case page_view (crate E) (pm (k_mem t)) r (page_no (a + of_nat k)) of None \<Rightarrow> True
      | Some (f, fl, d) \<Rightarrow> \<not> contains fl 0"
  then have "page_view (crate E) (pm (k_mem t)) r (page_no (a + of_nat k)) = None"
    by (auto split: option.splits)
  then obtain e where "exec_pte E r (a + of_nat k) t = (Err e, t)" using exec_pte_none [OF X] by blast
  then show "\<exists>e u. exec_piece E r a src k (piece_len a (length bs) k) () t = (Err e, u) \<and> only_output t u"
    by (simp add: piece_addr [OF X fit k] exec_piece_def bind_def)
qed

lemma exec_offset_run: "user_space E s r \<Longrightarrow> exec_offset s = (Ok (), s)"
  by (auto simp: exec_offset_def space_ok_def)

lemma copy_to_user_pagetable_run:
  assumes X: "paging_crate (crate E)" and fit: "unat a + length bs \<le> 2 ^ 47" and sp: "user_space E s r"
  shows "writes E r 0 a bs s (copy_to_user_pagetable E r a bs s)"
  using exec_piece_loop [OF X fit sp] exec_offset_run [OF sp] by (simp add: copy_to_user_pagetable_def)

lemma zero_user_range_run:
  assumes X: "paging_crate (crate E)" and fit: "unat a + unat len \<le> 2 ^ 47" and sp: "user_space E s r"
  shows "writes E r 0 a (replicate (unat len) 0) s (zero_user_range E r a len s)"
proof -
  have "writes E r 0 a (replicate (unat len) 0) s
      (pieces a (length (replicate (unat len) (0 :: u8))) (exec_piece E r a (\<lambda>k n. replicate n 0)) 0 () s)"
  proof (rule exec_piece_loop [OF X _ sp])
    fix k assume "k < length (replicate (unat len) (0 :: u8))"
    then show "replicate (piece_len a (length (replicate (unat len) (0 :: u8))) k) 0 =
        take (piece_len a (length (replicate (unat len) (0 :: u8))) k) (drop k (replicate (unat len) (0 :: u8)))"
      using piece_len_le [of k "unat len" a] by (simp add: min_def)
  qed (use fit in simp)
  then show ?thesis using exec_offset_run [OF sp] by (simp add: zero_user_range_def)
qed

text \<open>What was written is read back.\<close>

lemma written_read:
  assumes w: "written E r a bs s t" and fit: "unat a + length bs \<le> 2 ^ 47"
  shows "range_bytes (crate E) (pm (k_mem t)) r a (length bs) = bs"
proof (rule nth_equalityI)
  fix k assume "k < length (range_bytes (crate E) (pm (k_mem t)) r a (length bs))"
  then have k: "k < length bs" by (simp add: range_bytes_def)
  have u: "unat (a + of_nat k) = unat a + k" using fit k by (simp add: unat_add_of_nat)
  then have "user_va (a + of_nat k)" using fit k by (simp add: user_va_def)
  then have "page_byte (crate E) (pm (k_mem t)) r (a + of_nat k) = Some (bs ! k)"
    using w k u by (auto simp: written_def wrote_def)
  then show "range_bytes (crate E) (pm (k_mem t)) r a (length bs) ! k = bs ! k"
    using k by (simp add: range_bytes_def)
qed (simp add: range_bytes_def)

lemma written_space: "written E r a bs s t \<Longrightarrow> user_space E t r"
  by (auto simp: written_def wrote_def evolves_def)

end
