(* ===== verification/Exec.thy ===== *)
theory Exec
  imports UserCopy
begin

text \<open>
  Program loading: exec/mod.rs and exec/user_programs.rs, \<open>map_page\<close> and \<open>map_pages\<close> of memory/va.rs
  and \<open>create_user_process_from_path\<close> of thread/uprocess/mod.rs. An ELF image is a list of bytes,
  its headers are read from their little-endian fields. \<open>OffsetPageTable::map_to\<close> belongs to the
  crate x86_64 and is the field \<open>map_to\<close> of the environment; \<open>Page::containing_address\<close> and
  \<open>Page::range_inclusive\<close> name pages by their start addresses.
\<close>

section \<open>ELF headers\<close>

definition of_le :: "u8 list \<Rightarrow> 'a::len word" where
  "of_le bs = foldr (\<lambda>b w. ucast b OR push_bit 8 w) bs 0"

definition field :: "u8 list \<Rightarrow> nat \<Rightarrow> nat \<Rightarrow> 'a::len word" where
  "field img off n = of_le (take n (drop off img))"

definition ELF_MAGIC_NUM :: u32 where "ELF_MAGIC_NUM = 0x464C457F"
definition ELF_CLASS_64 :: u8 where "ELF_CLASS_64 = 2"
definition ELF_DATA_LE :: u8 where "ELF_DATA_LE = 1"
definition ELF_TYPE_EXEC :: u16 where "ELF_TYPE_EXEC = 2"
definition ELF_MACHINE_X86_64 :: u16 where "ELF_MACHINE_X86_64 = 0x3E"
definition ELF_PROG_LOAD :: u32 where "ELF_PROG_LOAD = 1"

record Elf64Header =
  ident :: "u8 list"
  elf_type :: u16
  e_machine :: u16
  e_version :: u32
  e_entry :: u64
  phoff :: u64
  shoff :: u64
  e_flags :: u32
  ehsize :: u16
  phentsize :: u16
  phnum :: u16
  shentsize :: u16
  shnum :: u16
  shstrndx :: u16

record Elf64ProgramHeader =
  prog_type :: u32
  p_flags :: u32
  p_offset :: u64
  vaddr :: u64
  paddr :: u64
  filesz :: u64
  memsz :: u64
  p_align :: u64

text \<open>\<open>size_of\<close> of the two structures.\<close>

definition ehdr_size :: nat where "ehdr_size = 64"
definition phdr_size :: nat where "phdr_size = 56"

text \<open>\<open>ptr::read_unaligned\<close> of the structures, whose layout is that of C.\<close>

definition elf_header :: "u8 list \<Rightarrow> Elf64Header" where
  "elf_header b = \<lparr>ident = take 16 b, elf_type = field b 16 2, e_machine = field b 18 2,
     e_version = field b 20 4, e_entry = field b 24 8, phoff = field b 32 8, shoff = field b 40 8,
     e_flags = field b 48 4, ehsize = field b 52 2, phentsize = field b 54 2, phnum = field b 56 2,
     shentsize = field b 58 2, shnum = field b 60 2, shstrndx = field b 62 2\<rparr>"

definition program_header :: "u8 list \<Rightarrow> Elf64ProgramHeader" where
  "program_header b = \<lparr>prog_type = field b 0 4, p_flags = field b 4 4, p_offset = field b 8 8,
     vaddr = field b 16 8, paddr = field b 24 8, filesz = field b 32 8, memsz = field b 40 8,
     p_align = field b 48 8\<rparr>"

definition magic :: "Elf64Header \<Rightarrow> u32" where
  "magic e = of_le (take 4 (ident e))"

definition read_elf_header :: "u8 list \<Rightarrow> ('s, Elf64Header) program" where
  "read_elf_header img =
     (if length img < ehdr_size then throw ''exec: ELF header is truncated''
      else let elf = elf_header img in
        if take 4 (ident elf) \<noteq> [0x7F, 0x45, 0x4C, 0x46] then throw ''exec: bad ELF magic''
        else if ident elf ! 4 \<noteq> ELF_CLASS_64 \<or> ident elf ! 5 \<noteq> ELF_DATA_LE
        then throw ''exec: unsupported ELF class''
        else if elf_type elf \<noteq> ELF_TYPE_EXEC \<or> e_machine elf \<noteq> ELF_MACHINE_X86_64 \<or> e_version elf \<noteq> 1
        then throw ''exec: unsupported ELF target''
        else if magic elf \<noteq> ELF_MAGIC_NUM then throw ''exec: bad ELF magic''
        else ret elf)"

definition pg_round_up :: "u64 \<Rightarrow> ('s, u64) program" where
  "pg_round_up v = bind (ok_or ''exec: heap size overflow'' (checked_add v (PAGE_SIZE - 1)))
     (\<lambda>w. ret (w AND NOT (PAGE_SIZE - 1)))"

section \<open>Mapping pages\<close>

text \<open>The crate's mapper takes the frame allocator and works on the tables in memory.\<close>

definition map_page :: "'h env \<Rightarrow> u64 \<Rightarrow> u64 \<Rightarrow> u64 \<Rightarrow> ('h, unit) kprog" where
  "map_page E pml4 page fl =
     bind (on_mem (take_frame allocate_frame ''map_page: frame alloc failed'')) (\<lambda>frame.
     bind (on_mem offset_set) (\<lambda>_.
     bind (on_mem (modify (zero_frame frame))) (\<lambda>_.
     (\<lambda>s. case on_mem (map_to E pml4 page frame fl) s of
        (Ok (), t) \<Rightarrow> (Ok (), t)
      | (Err e, t) \<Rightarrow> (Err ''map_page: map_to failed'', t)
      | (Panic e, t) \<Rightarrow> (Panic e, t)))))"

definition map_pages :: "'h env \<Rightarrow> u64 \<Rightarrow> u64 \<Rightarrow> nat \<Rightarrow> u64 \<Rightarrow> ('h, unit) kprog" where
  "map_pages E pml4 start_page num_pages fl = foreach [0..<num_pages] (\<lambda>i.
     bind (ok_or ''map_pages: page offset overflow'' (checked_mul (of_nat i) PAGE_SIZE)) (\<lambda>off.
     bind (ok_or ''map_pages: virtual address overflow'' (checked_add start_page off)) (\<lambda>a.
     bind (virt_new (crate E) a) (\<lambda>va.
     map_page E pml4 (containing_frame va) fl))))"

definition ensure_user_page_mapping :: "'h env \<Rightarrow> u64 \<Rightarrow> u64 \<Rightarrow> u64 \<Rightarrow> ('h, unit) kprog" where
  "ensure_user_page_mapping E pml4 page fl =
     bind exec_offset (\<lambda>_.
     bind (user_pte E pml4 page) (\<lambda>pte. case pte of
       None \<Rightarrow> map_page E pml4 page fl
     | Some (t, i) \<Rightarrow> bind (gets (\<lambda>s. pm (k_mem s) t i)) (\<lambda>e.
         if present (crate E) e
         then on_mem (modify (set_entry t i (pte_set_flags (crate E) e (pte_flags (crate E) e OR fl))))
         else map_page E pml4 page fl)))"

section \<open>Loading the segments\<close>

definition segment_flags :: "Elf64ProgramHeader \<Rightarrow> u64" where
  "segment_flags h = (if p_flags h AND 2 \<noteq> 0 then PRESENT OR USER_ACCESSIBLE OR WRITABLE
     else PRESENT OR USER_ACCESSIBLE)"

text \<open>A LOAD segment; the result is its end.\<close>

definition load_segment :: "'h env \<Rightarrow> u8 list \<Rightarrow> u64 \<Rightarrow> Elf64ProgramHeader \<Rightarrow> ('h, u64) kprog" where
  "load_segment E img pml4 h =
     bind (ok_or ''exec: segment overflow'' (checked_add (p_offset h) (filesz h))) (\<lambda>file_end.
     if length img < unat file_end then throw ''exec: truncated LOAD segment''
     else
       bind (virt_new (crate E) (vaddr h)) (\<lambda>segment_start.
       bind (ok_or ''exec: invalid segment address'' (checked_add (vaddr h) (memsz h))) (\<lambda>end_u64.
       bind (virt_new (crate E) end_u64) (\<lambda>segment_end.
       bind (virt_new (crate E) (segment_end - 1)) (\<lambda>last.
       bind (foreach (pages_between (containing_frame segment_start) (containing_frame last))
         (\<lambda>page. ensure_user_page_mapping E pml4 page (segment_flags h))) (\<lambda>_.
       bind (zero_user_range E pml4 (vaddr h) (memsz h)) (\<lambda>_.
       bind (copy_to_user_pagetable E pml4 (vaddr h)
         (take (unat (filesz h)) (drop (unat (p_offset h)) img))) (\<lambda>_.
       ret end_u64))))))))"

text \<open>The loop over the program headers; \<open>max_end\<close> is \<open>max_load_end\<close>.\<close>

primrec segments_loop :: "'h env \<Rightarrow> u8 list \<Rightarrow> Elf64Header \<Rightarrow> u64 \<Rightarrow> nat list \<Rightarrow> u64 \<Rightarrow> ('h, u64) kprog" where
  "segments_loop E img elf pml4 [] max_end = ret max_end"
| "segments_loop E img elf pml4 (i # is) max_end =
     bind (ok_or ''exec: program header overflow'' (checked_mul (of_nat i) (of_nat phdr_size))) (\<lambda>off.
     bind (ok_or ''exec: program header overflow'' (checked_add (phoff elf) off)) (\<lambda>start.
     bind (ok_or ''exec: program header overflow'' (checked_add start (of_nat phdr_size))) (\<lambda>stop.
     if length img < unat stop then throw ''exec: truncated program header''
     else let h = program_header (take phdr_size (drop (unat start) img)) in
       if prog_type h \<noteq> ELF_PROG_LOAD then segments_loop E img elf pml4 is max_end
       else if memsz h < filesz h then throw ''exec: invalid LOAD segment sizes''
       else if memsz h = 0 then segments_loop E img elf pml4 is max_end
       else bind (load_segment E img pml4 h) (\<lambda>seg_end.
            segments_loop E img elf pml4 is (max max_end seg_end)))))"

definition load_elf_segments :: "'h env \<Rightarrow> u8 list \<Rightarrow> Elf64Header \<Rightarrow> u64 \<Rightarrow> ('h, u64) kprog" where
  "load_elf_segments E img elf pml4 =
     (if unat (phentsize elf) \<noteq> phdr_size then throw ''exec: unexpected program header size''
      else bind (segments_loop E img elf pml4 [0..<unat (phnum elf)] 0) pg_round_up)"

section \<open>The user stack\<close>

definition sub_aligned :: "u64 \<Rightarrow> u64 \<Rightarrow> u64 \<Rightarrow> ('s, u64) program" where
  "sub_aligned usp n low = bind (ok_or ''exec: stack overflow'' (checked_sub usp n)) (\<lambda>a. ret (a AND NOT low))"

text \<open>The loop that pushes the argument strings; \<open>ptrs\<close> is \<open>argv_ptrs\<close>.\<close>

primrec push_args :: "'h env \<Rightarrow> u64 \<Rightarrow> u8 list list \<Rightarrow> u64 \<Rightarrow> u64 list \<Rightarrow> ('h, u64 \<times> u64 list) kprog" where
  "push_args E pml4 [] usp ptrs = ret (usp, ptrs)"
| "push_args E pml4 (arg # args) usp ptrs =
     bind (sub_aligned usp (of_nat (length arg + 1)) 7) (\<lambda>usp.
     bind (copy_to_user_pagetable E pml4 usp arg) (\<lambda>_.
     bind (arith_add E usp (of_nat (length arg))) (\<lambda>nul.
     bind (copy_to_user_pagetable E pml4 nul [0]) (\<lambda>_.
     push_args E pml4 args usp (ptrs @ [usp])))))"

definition setup_user_stack :: "'h env \<Rightarrow> u64 \<Rightarrow> u8 list list \<Rightarrow> u64 \<Rightarrow> ('h, u64 \<times> nat \<times> u64) kprog" where
  "setup_user_stack E pml4 argv top_addr =
     bind (push_args E pml4 argv top_addr []) (\<lambda>(usp, ptrs).
     let ptrs = ptrs @ [0] in
     bind (ok_or ''exec: argv overflow'' (checked_mul (of_nat (length ptrs)) (8 :: u64))) (\<lambda>argv_bytes.
     bind (sub_aligned usp argv_bytes 15) (\<lambda>argv_ptr.
     bind (copy_u64_slice_to_user E pml4 argv_ptr ptrs) (\<lambda>_.
     let ustack = [0xFFFFFFFFFFFFFFFF, of_nat (length argv), argv_ptr] in
     bind (ok_or ''exec: stack overflow'' (checked_sub argv_ptr (of_nat (length ustack * 8)))) (\<lambda>usp.
     bind (copy_u64_slice_to_user E pml4 usp ustack) (\<lambda>_.
     ret (usp, length argv, argv_ptr)))))))"

section \<open>The new image\<close>

text \<open>The structure \<open>Exec\<close>.\<close>

record exec_img =
  x_page_table :: u64
  x_entry :: u64
  x_user_sp :: u64
  x_argc :: nat
  x_argv_ptr :: u64
  x_heap_size :: u64

definition STACK_PAGES :: nat where "STACK_PAGES = 8"

definition prepare_exec_img :: "'h env \<Rightarrow> u8 list \<Rightarrow> u8 list list \<Rightarrow> ('h, exec_img) kprog" where
  "prepare_exec_img E img argv =
     (if length img < ehdr_size then throw ''exec: invalid ELF image''
      else
        bind (read_elf_header img) (\<lambda>elf.
        bind frame_allocator_expect (\<lambda>_.
        bind (gets k_cr3) (\<lambda>cr3.
        bind (on_mem (new_uvm allocate_frame cr3)) (\<lambda>pml4.
        bind exec_offset (\<lambda>_.
        bind (load_elf_segments E img elf pml4) (\<lambda>heap.
        bind (ok_or ''exec: stack size overflow'' (checked_mul (of_nat STACK_PAGES) PAGE_SIZE)) (\<lambda>stack_bytes.
        bind (ok_or ''exec: stack overflow'' (checked_sub USER_STACK_TOP stack_bytes)) (\<lambda>stack_start.
        bind (ok_or ''exec: guard page overflow'' (checked_sub stack_start PAGE_SIZE)) (\<lambda>guard.
        bind (virt_new (crate E) guard) (\<lambda>guard.
        bind (virt_new (crate E) stack_start) (\<lambda>stack_start.
        bind (map_page E pml4 (containing_frame guard) (PRESENT OR WRITABLE)) (\<lambda>_.
        bind (map_pages E pml4 (containing_frame stack_start) STACK_PAGES user_flags) (\<lambda>_.
        bind (setup_user_stack E pml4 argv USER_STACK_TOP) (\<lambda>(usp, argc, argv_ptr).
        ret \<lparr>x_page_table = pml4, x_entry = e_entry elf, x_user_sp = usp, x_argc = argc,
             x_argv_ptr = argv_ptr, x_heap_size = heap\<rparr>)))))))))))))))"

section \<open>Committing it\<close>

text \<open>\<open>process_table.get(pid).and_then(|p| p.as_ref())\<close> and \<open>thread_table.get(tid)\<close>.\<close>

definition lookup_process :: "nat \<Rightarrow> 'h kernel \<Rightarrow> process option" where
  "lookup_process p s = (if p < length (k_procs s) then k_procs s ! p else None)"

definition lookup_thread :: "nat \<Rightarrow> 'h kernel \<Rightarrow> thread option" where
  "lookup_thread i s = (if i < length (k_threads s) then Some (k_threads s ! i) else None)"

text \<open>The closure whose error is rolled back.\<close>

definition commit_body :: "exec_img \<Rightarrow> nat \<Rightarrow> nat \<Rightarrow> ('h, unit) kprog" where
  "commit_body x i p =
     bind (gets (lookup_process p)) (\<lambda>pr. bind (ok_or ''exec: process table entry missing'' pr) (\<lambda>pr.
     bind (set_proc p (Some (pr\<lparr>page_table := Some (x_page_table x), heap_size := x_heap_size x\<rparr>))) (\<lambda>_.
     bind (gets (lookup_thread i)) (\<lambda>t. bind (ok_or ''exec: thread table entry missing'' t) (\<lambda>t.
     bind (set_thread i (t\<lparr>ctx := (ctx t)\<lparr>rsp3 := x_user_sp x, user_rip := x_entry x,
       user_rdi := of_nat (x_argc x), user_rsi := x_argv_ptr x\<rparr>\<rparr>)) (\<lambda>_.
     bind (ok_or ''exec: no trapframe'' (tf t)) (\<lambda>q.
     bind (load_tf q) (\<lambda>f.
     bind (store_tf q (f\<lparr>tf_rax := 0, tf_rdi := of_nat (x_argc x), tf_rsi := x_argv_ptr x, tf_rcx := x_entry x\<rparr>)) (\<lambda>_.
     bind (on_cpu (\<lambda>c. c\<lparr>saved_user_rsp := x_user_sp x\<rparr>)) (\<lambda>_.
     modify (\<lambda>s. s\<lparr>k_cr3 := x_page_table x\<rparr>)))))))))))"

text \<open>The snapshot taken before, and its restoration.\<close>

record snapshot =
  old_page_table :: "u64 option"
  old_heap_size :: u64
  old_context :: Context
  old_trap_frame :: trap_frame
  old_saved_user_rsp :: u64
  old_cr3 :: u64

definition take_snapshot :: "nat \<Rightarrow> nat \<Rightarrow> ('h, snapshot) kprog" where
  "take_snapshot i p =
     bind (gets (lookup_process p)) (\<lambda>pr. bind (ok_or ''exec: process table entry missing'' pr) (\<lambda>pr.
     bind (gets (lookup_thread i)) (\<lambda>t. bind (ok_or ''exec: thread table entry missing'' t) (\<lambda>t.
     bind (ok_or ''exec: no trapframe'' (tf t)) (\<lambda>q.
     bind (load_tf q) (\<lambda>f.
     gets (\<lambda>s. \<lparr>old_page_table = page_table pr, old_heap_size = heap_size pr, old_context = ctx t,
       old_trap_frame = f, old_saved_user_rsp = saved_user_rsp (k_cpu s), old_cr3 = k_cr3 s\<rparr>)))))))"

definition rollback_exec :: "snapshot \<Rightarrow> nat \<Rightarrow> nat \<Rightarrow> ('h, unit) kprog" where
  "rollback_exec z i p =
     bind (gets (lookup_process p)) (\<lambda>pr.
     bind (case pr of None \<Rightarrow> ret ()
       | Some pr \<Rightarrow> set_proc p (Some (pr\<lparr>page_table := old_page_table z, heap_size := old_heap_size z\<rparr>))) (\<lambda>_.
     bind (gets (lookup_thread i)) (\<lambda>t.
     bind (case t of None \<Rightarrow> ret ()
       | Some t \<Rightarrow> bind (set_thread i (t\<lparr>ctx := old_context z\<rparr>)) (\<lambda>_.
           case tf t of None \<Rightarrow> ret () | Some q \<Rightarrow> store_tf q (old_trap_frame z))) (\<lambda>_.
     bind (on_cpu (\<lambda>c. c\<lparr>saved_user_rsp := old_saved_user_rsp z\<rparr>)) (\<lambda>_.
     modify (\<lambda>s. s\<lparr>k_cr3 := old_cr3 z\<rparr>))))))"

definition commit_exec :: "exec_img \<Rightarrow> ('h, unit) kprog" where
  "commit_exec x =
     bind (gets (\<lambda>s. current_tid (k_cpu s))) (\<lambda>i. bind (ok_or ''exec: no current thread id'' i) (\<lambda>i.
     bind cpu_current_pid (\<lambda>p. bind (ok_or ''exec: no current process id'' p) (\<lambda>p.
     bind (take_snapshot i p) (\<lambda>z.
     (\<lambda>s. case commit_body x i p s of
        (Err e, t) \<Rightarrow> bind (rollback_exec z i p) (\<lambda>_. throw e) t
      | r \<Rightarrow> r))))))"

section \<open>exec and the first process\<close>

definition lookup_program :: "'h env \<Rightarrow> u8 list \<Rightarrow> u8 list option" where
  "lookup_program E path = map_option snd (List.find (\<lambda>pr. fst pr = path) (programs E))"

definition exec :: "'h env \<Rightarrow> u8 list \<Rightarrow> u8 list list \<Rightarrow> ('h, unit) kprog" where
  "exec E path argv =
     bind (ok_or ''exec: program not found'' (lookup_program E path)) (\<lambda>img.
     bind (prepare_exec_img E img argv) (\<lambda>x. commit_exec x))"

definition create_user_process_from_path :: "'h env \<Rightarrow> u8 list \<Rightarrow> ('h, unit) kprog" where
  "create_user_process_from_path E path =
     bind (ok_or ''program not found'' (lookup_program E path)) (\<lambda>img.
     bind (prepare_exec_img E img []) (\<lambda>x.
     bind (alloc_proc E) (\<lambda>pr0.
     let pr = pr0\<lparr>page_table := Some (x_page_table x), heap_size := x_heap_size x\<rparr> in
     bind (index (threads pr) 0) (\<lambda>i. bind (expect ''no first thread'' i) (\<lambda>i.
     bind (update_thread i (\<lambda>t. t\<lparr>ctx := (ctx t)\<lparr>rsp3 := x_user_sp x, user_rip := x_entry x,
       user_rdi := of_nat (x_argc x), user_rsi := x_argv_ptr x\<rparr>\<rparr>)) (\<lambda>_.
     bind (get_thread i) (\<lambda>t. bind (ok_or ''no trapframe'' (tf t)) (\<lambda>q.
     bind (load_tf q) (\<lambda>f.
     bind (store_tf q (f\<lparr>tf_rdi := of_nat (x_argc x), tf_rsi := x_argv_ptr x, tf_rcx := x_entry x\<rparr>)) (\<lambda>_.
     bind (add_to_process_table pr) (\<lambda>_.
     mark_threads_as_runnable pr)))))))))))"

end
