(* ===== verification/Lifecycle.thy ===== *)
theory Lifecycle
  imports Syscalls
begin

text \<open>
  What the process system calls do to a process over its life: the failures of \<open>fork\<close>, \<open>exit\<close>,
  \<open>wait\<close> with \<open>free_process\<close>, \<open>kill\<close> and \<open>sbrk\<close>.
\<close>

section \<open>fork that fails\<close>

lemma fork_table_full:
  assumes "running s i p pr" and "first_index (NPROCESS - 1) (\<lambda>i. k_procs s ! i = None) = None"
  shows "fork E s = (Err ''Process table is full'', s)"
  using running_process [OF assms(1)] alloc_proc_full(1) [OF assms(2)] by (simp add: fork_def)

lemma fork_threads_full:
  assumes "running s i p pr" and "first_index (NPROCESS - 1) (\<lambda>i. k_procs s ! i = None) = Some cp"
    and "first_index (NTHREAD - 1) (\<lambda>i. state (k_threads s ! i) = Unused) = None"
  shows "fork E s = (Err ''Thread table is full'', s)"
  using running_process [OF assms(1)] alloc_proc_full(2) [OF assms(2,3)] by (simp add: fork_def)

text \<open>When the copy runs out of frames, the thread slot and its kernel stack stay taken.\<close>

lemma fork_copy_fails:
  assumes run: "running s i p pr" and pt: "page_table pr = Some r"
    and po: "phys_offset (k_mem s) \<noteq> None" and fr: "k_frames_ready s"
    and cp: "first_index (NPROCESS - 1) (\<lambda>i. k_procs s ! i = None) = Some cp"
    and ct: "first_index (NTHREAD - 1) (\<lambda>i. state (k_threads s ! i) = Unused) = Some ct"
    and b: "kalloc E (k_heap s) = (b, h)" "block_ok b"
    and copy: "copy_uvm (crate E) allocate_frame (k_cr3 s) r (k_mem s) = (Err e, m)"
  shows "fork E s = (Err e, s\<lparr>k_heap := h, k_mem := m,
     k_stacks := tf_store (stack_top b - TRAPFRAME_SIZE) new_trap_frame (k_stacks s),
     k_threads := (k_threads s)[ct := fresh_thread E ct cp b]\<rparr>)"
proof -
  let ?s1 = "s\<lparr>k_heap := h, k_stacks := tf_store (stack_top b - TRAPFRAME_SIZE) new_trap_frame (k_stacks s),
     k_threads := (k_threads s)[ct := fresh_thread E ct cp b]\<rparr>"
  have al: "alloc_proc E s = (Ok (fresh_process cp ct), ?s1)"
    using alloc_proc_run [OF _ cp ct b] run by (simp add: running_def)
  have fa: "frame_allocator_expect ?s1 = (Ok (), ?s1)" using fr by (intro frame_allocator_run) simp
  have ptb: "get_process_page_table pr ?s1 = (Ok r, ?s1)" using pt po by (intro page_table_run) simp_all
  have cpy: "on_mem (copy_uvm (crate E) allocate_frame (k_cr3 s) r) ?s1 = (Err e, ?s1\<lparr>k_mem := m\<rparr>)"
    using copy by (simp add: on_mem_def zoom_def)
  show ?thesis
    unfolding fork_def by (simp add: running_process [OF run] al fa ptb cpy)
qed

section \<open>exit\<close>

definition zombified :: "nat \<Rightarrow> nat option list \<Rightarrow> thread list \<Rightarrow> thread list" where
  "zombified p xs ts = map (\<lambda>j. if Some j \<in> set xs \<and> t_pid (ts ! j) = Some p
     then (ts ! j)\<lparr>state := Zombie\<rparr> else ts ! j) [0..<length ts]"

lemma zombified_length [simp]: "length (zombified p xs ts) = length ts"
  by (simp add: zombified_def)

lemma zombified_nth: "j < length ts \<Longrightarrow> zombified p xs ts ! j =
  (if Some j \<in> set xs \<and> t_pid (ts ! j) = Some p then (ts ! j)\<lparr>state := Zombie\<rparr> else ts ! j)"
  by (simp add: zombified_def)

lemma zombify_run:
  assumes "\<And>j. Some j \<in> set xs \<Longrightarrow> j < length (k_threads s)"
  shows "foreach xs (zombify_thread p) s = (Ok (), s\<lparr>k_threads := zombified p xs (k_threads s)\<rparr>)"
  using assms
proof (induction xs arbitrary: s)
  case Nil
  have "zombified p [] (k_threads s) = k_threads s" by (rule nth_equalityI) (simp_all add: zombified_nth)
  then show ?case by simp
next
  case (Cons x xs)
  let ?one = "zombified p [x] (k_threads s)"
  have one: "zombify_thread p x s = (Ok (), s\<lparr>k_threads := ?one\<rparr>)"
  proof (cases x)
    case None
    have "?one = k_threads s" by (rule nth_equalityI) (simp_all add: zombified_nth None)
    then show ?thesis by (simp add: zombify_thread_def None)
  next
    case (Some j)
    have j: "j < length (k_threads s)" using Cons.prems Some by simp
    have "?one = (if t_pid (k_threads s ! j) = Some p
        then (k_threads s)[j := (k_threads s ! j)\<lparr>state := Zombie\<rparr>] else k_threads s)"
      by (rule nth_equalityI) (auto simp: zombified_nth Some nth_list_update)
    then show ?thesis
      using j by (simp add: zombify_thread_def Some bind_def get_thread_run set_thread_run split: option.splits)
  qed
  have two: "zombified p xs ?one = zombified p (x # xs) (k_threads s)"
    by (rule nth_equalityI) (auto simp: zombified_nth)
  show ?case
    using Cons.IH [of "s\<lparr>k_threads := ?one\<rparr>"] Cons.prems one two by simp
qed

text \<open>\<open>exit\<close> turns the process and its threads into zombies, keeps the exit value, and goes to the
  scheduler; everything else stays.\<close>

definition zombie_process :: "i64 \<Rightarrow> process \<Rightarrow> process" where
  "zombie_process v pr = pr\<lparr>p_state := PZombie, exit_status := v\<rparr>"

lemma exit_yields:
  assumes run: "running s i p pr" and p: "p \<noteq> INIT_PID" "pid pr = p"
    and own: "\<And>j. Some j \<in> set (threads pr) \<Longrightarrow> j < NTHREAD"
  shows "exit_process v s = on_syscall_yield (s\<lparr>k_procs := (k_procs s)[p := Some (zombie_process v pr)],
     k_threads := zombified p (threads pr) (k_threads s)\<rparr>)"
proof -
  note R = run [unfolded running_def tables_ok_def]
  let ?pr = "zombie_process v pr"
  let ?s0 = "s\<lparr>k_procs := (k_procs s)[p := Some ?pr]\<rparr>"
  have "foreach (threads pr) (zombify_thread p) ?s0 =
      (Ok (), s\<lparr>k_procs := (k_procs s)[p := Some ?pr], k_threads := zombified p (threads pr) (k_threads s)\<rparr>)"
    using zombify_run [of "threads pr" ?s0 p] own R by simp
  then show ?thesis
    using running_pid [OF run] R p
    by (simp add: exit_process_def bind_def get_proc_run set_proc_run zombie_process_def Let_def)
qed

lemma exit_run:
  assumes run: "running s i p pr" and p: "p \<noteq> INIT_PID" "pid pr = p"
    and own: "\<And>j. Some j \<in> set (threads pr) \<Longrightarrow> j < NTHREAD" and mine: "Some i \<in> set (threads pr)"
  obtains s' s1 where "exit_process v s = (Ok True, s')"
    and "s1 = s\<lparr>k_procs := (k_procs s)[p := Some (zombie_process v pr)],
           k_threads := zombified p (threads pr) (k_threads s)\<rparr>"
    and "suspended i Zombie (saved_user_rsp (k_cpu s)) s1 s'"
proof -
  note R = run [unfolded running_def tables_ok_def]
  let ?s1 = "s\<lparr>k_procs := (k_procs s)[p := Some (zombie_process v pr)], k_threads := zombified p (threads pr) (k_threads s)\<rparr>"
  have st: "state (k_threads ?s1 ! i) = Zombie"
    using R mine by (simp add: zombified_nth)
  have cur: "current_tid (k_cpu ?s1) = Some i" "i < length (k_threads ?s1)" using R by simp_all
  from on_syscall_yield_run [OF this] st obtain s' where y: "on_syscall_yield ?s1 = (Ok True, s')"
    and S: "suspended i Zombie (saved_user_rsp (k_cpu s)) ?s1 s'" by auto
  have "exit_process v s = on_syscall_yield ?s1" by (rule exit_yields [OF run p own])
  then show ?thesis using that y S by metis
qed

lemma exit_init:
  assumes "running s i INIT_PID pr"
  shows "exit_process v s = (Err ''init exiting'', s)"
  using running_pid [OF assms] by (simp add: exit_process_def)

section \<open>Freeing the threads of a process\<close>

definition freed_threads :: "nat list \<Rightarrow> thread list \<Rightarrow> thread list" where
  "freed_threads is ts = map (\<lambda>j. if j \<in> set is then new_thread else ts ! j) [0..<length ts]"

lemma freed_threads_length [simp]: "length (freed_threads is ts) = length ts"
  by (simp add: freed_threads_def)

lemma freed_threads_nth: "j < length ts \<Longrightarrow>
  freed_threads is ts ! j = (if j \<in> set is then new_thread else ts ! j)"
  by (simp add: freed_threads_def)

text \<open>The kernel stacks go back one after the other.\<close>

definition free_stack :: "'h env \<Rightarrow> thread \<Rightarrow> 'h \<Rightarrow> 'h" where
  "free_stack E t h = (if kstack t \<noteq> 0 then kfree E (kstack t - STACK_SIZE) h else h)"

definition owned :: "nat \<Rightarrow> 'h kernel \<Rightarrow> nat \<Rightarrow> bool" where
  "owned p s i \<longleftrightarrow> i < NTHREAD \<and> t_pid (k_threads s ! i) = Some p \<and>
     (kstack (k_threads s ! i) \<noteq> 0 \<longrightarrow> STACK_SIZE \<le> kstack (k_threads s ! i))"

lemma free_threads_run:
  assumes "length (k_threads s) = NTHREAD" and "distinct is" and "\<And>i. i \<in> set is \<Longrightarrow> owned p s i"
  shows "foreach is (free_thread E p) s = (Ok (), s\<lparr>
     k_heap := fold (\<lambda>i. free_stack E (k_threads s ! i)) is (k_heap s),
     k_threads := freed_threads is (k_threads s)\<rparr>)"
  using assms
proof (induction "is" arbitrary: s)
  case Nil
  have "freed_threads [] (k_threads s) = k_threads s" by (rule nth_equalityI) (simp_all add: freed_threads_nth)
  then show ?case by simp
next
  case (Cons i "is")
  have o: "owned p s i" using Cons.prems(3) by simp
  let ?t = "k_threads s ! i"
  let ?s1 = "s\<lparr>k_heap := free_stack E ?t (k_heap s), k_threads := (k_threads s)[i := new_thread]\<rparr>"
  have one: "free_thread E p i s = (Ok (), ?s1)"
    using o Cons.prems(1)
    by (auto simp: free_thread_def owned_def bind_def get_thread_run set_thread_run arith_sub_def
        modify_def free_stack_def not_less)
  have rest: "owned p ?s1 j" if "j \<in> set is" for j
  proof -
    have "j \<noteq> i" using that Cons.prems(2) by auto
    then show ?thesis using Cons.prems(3) [of j] that by (simp add: owned_def)
  qed
  have th: "freed_threads is ((k_threads s)[i := new_thread]) = freed_threads (i # is) (k_threads s)"
    by (rule nth_equalityI) (auto simp: freed_threads_nth nth_list_update)
  have hp: "fold (\<lambda>j. free_stack E (k_threads ?s1 ! j)) is h = fold (\<lambda>j. free_stack E (k_threads s ! j)) is h" for h
  proof (rule fold_cong [OF refl refl])
    fix j assume "j \<in> set is"
    then have "i \<noteq> j" using Cons.prems(2) by auto
    then show "free_stack E (k_threads ?s1 ! j) = free_stack E (k_threads s ! j)" by simp
  qed
  have "foreach is (free_thread E p) ?s1 = (Ok (), ?s1\<lparr>
     k_heap := fold (\<lambda>i. free_stack E (k_threads ?s1 ! i)) is (k_heap ?s1),
     k_threads := freed_threads is (k_threads ?s1)\<rparr>)"
    using Cons.prems rest by (intro Cons.IH) simp_all
  then show ?case
    using one th hp by simp
qed

text \<open>\<open>free_process\<close> on a process whose tables are in order: threads, kernel stacks and the whole
  address space go back, and the slot holds an unused structure.\<close>

definition reapable :: "'h env \<Rightarrow> 'h kernel \<Rightarrow> process \<Rightarrow> bool" where
  "reapable E s ch \<longleftrightarrow> distinct (flatten (threads ch)) \<and> (\<forall>i\<in>set (flatten (threads ch)). owned (pid ch) s i) \<and>
     (\<exists>f. page_table ch = Some f \<and> f \<noteq> k_cr3 s \<and> user_space E s f) \<and> pid ch < NPROCESS"

lemma free_process_run:
  assumes X: "paging_crate (crate E)" and tabs: "tables_ok s" and r: "reapable E s ch" and fr: "k_frames_ready s"
    and f: "page_table ch = Some f"
  obtains s' where "free_process E ch s = (Ok (), s')"
    and "k_procs s' = (k_procs s)[pid ch := Some new_process]"
    and "k_threads s' = freed_threads (flatten (threads ch)) (k_threads s)"
    and "avail_frames (fa (k_mem s')) = avail_frames (fa (k_mem s)) \<union> space_frames (crate E) (pm (k_mem s)) f"
    and "frame_alloc_ok (fa (k_mem s'))"
    and "\<And>g. g \<notin> space_frames (crate E) (pm (k_mem s)) f \<Longrightarrow> pm (k_mem s') g = pm (k_mem s) g"
    and "k_cpu s' = k_cpu s" and "k_cr3 s' = k_cr3 s"
    and "k_heap s' = fold (\<lambda>i. free_stack E (k_threads s ! i)) (flatten (threads ch)) (k_heap s)"
    and "phys_offset (k_mem s') = phys_offset (k_mem s)"
proof -
  note R = r [unfolded reapable_def] and T = tabs [unfolded tables_ok_def]
  let ?is = "flatten (threads ch)"
  let ?s1 = "s\<lparr>k_heap := fold (\<lambda>i. free_stack E (k_threads s ! i)) ?is (k_heap s),
     k_threads := freed_threads ?is (k_threads s)\<rparr>"
  have one: "foreach ?is (free_thread E (pid ch)) s = (Ok (), ?s1)"
    using R T by (intro free_threads_run) auto
  have sp: "user_space E s f" and cr3: "k_cr3 s \<noteq> f" and p: "pid ch < length (k_procs s)" using R f T by auto
  obtain m where m: "free_uvm (crate E) deallocate_frame f (k_mem s) = (Ok (), m)"
    and M: "frame_alloc_ok (fa m)" "avail_frames (fa m) = avail_frames (fa (k_mem s)) \<union> space_frames (crate E) (pm (k_mem s)) f"
      "\<And>g. g \<notin> space_frames (crate E) (pm (k_mem s)) f \<Longrightarrow> pm m g = pm (k_mem s) g"
      "phys_offset m = phys_offset (k_mem s)"
    using paging.free_uvm_ok [OF paging_boot [OF X] sp] by blast
  have two: "on_mem (free_uvm (crate E) deallocate_frame f) ?s1 = (Ok (), ?s1\<lparr>k_mem := m\<rparr>)"
    using m by (simp add: on_mem_def zoom_def)
  let ?s' = "?s1\<lparr>k_mem := m, k_procs := (k_procs s)[pid ch := Some new_process]\<rparr>"
  have three: "set_proc (pid ch) (Some new_process) (?s1\<lparr>k_mem := m\<rparr>) = (Ok (), ?s')"
    using p by (simp add: set_proc_run)
  have mid: "(case page_table ch of None \<Rightarrow> ret () | Some f \<Rightarrow> bind (gets k_cr3) (\<lambda>cr3.
           if cr3 = f then throw ''cannot free cr3 active page table''
           else bind (gets k_frames_ready) (\<lambda>b.
                if \<not> b then throw ''FRAME_ALLOCATOR not initialized''
                else on_mem (free_uvm (crate E) deallocate_frame f)))) ?s1 = (Ok (), ?s1\<lparr>k_mem := m\<rparr>)"
    using two f cr3 fr by simp
  have "free_process E ch s = (Ok (), ?s')"
    unfolding free_process_def by (rule bind_run, rule one, rule bind_run, rule mid, rule three)
  then show ?thesis by (rule that) (use M in simp_all)
qed

section \<open>wait\<close>

lemma find_zombie_none:
  "first_index (NPROCESS - 1) (\<lambda>i. zombie_of p (k_procs s ! i)) = None \<Longrightarrow>
   find_zombie p s = (Ok (None, \<exists>i<NPROCESS - 1. child_of p (k_procs s ! i)), s)"
  by (simp add: find_zombie_def)

lemma find_zombie_some:
  assumes "tables_ok s" and "first_index (NPROCESS - 1) (\<lambda>i. zombie_of p (k_procs s ! i)) = Some z"
  shows "find_zombie p s = (Ok (k_procs s ! z, True), s\<lparr>k_procs := (k_procs s)[z := None]\<rparr>)"
proof -
  have "z < length (k_procs s)" using assms by (auto simp: first_index_Some_iff tables_ok_def)
  then show ?thesis using assms(2) by (simp add: find_zombie_def bind_def gets_def set_proc_run)
qed

text \<open>A zombie child is reaped.\<close>

lemma wait_round_reaps:
  assumes X: "paging_crate (crate E)" and tabs: "tables_ok s" and fr: "k_frames_ready s"
    and z: "first_index (NPROCESS - 1) (\<lambda>i. zombie_of (pid pr) (k_procs s ! i)) = Some z"
    and ch: "k_procs s ! z = Some ch" "pid ch = z" and r: "reapable E s ch" and f: "page_table ch = Some f"
  obtains s' where "wait_round E pr s = (Ok (Some (z, exit_status ch)), s')"
    and "k_procs s' = (k_procs s)[z := Some new_process]"
    and "k_threads s' = freed_threads (flatten (threads ch)) (k_threads s)"
    and "avail_frames (fa (k_mem s')) = avail_frames (fa (k_mem s)) \<union> space_frames (crate E) (pm (k_mem s)) f"
    and "frame_alloc_ok (fa (k_mem s'))"
    and "\<And>g. g \<notin> space_frames (crate E) (pm (k_mem s)) f \<Longrightarrow> pm (k_mem s') g = pm (k_mem s) g"
    and "k_cpu s' = k_cpu s" and "k_cr3 s' = k_cr3 s"
    and "k_heap s' = fold (\<lambda>i. free_stack E (k_threads s ! i)) (flatten (threads ch)) (k_heap s)"
proof -
  let ?s1 = "s\<lparr>k_procs := (k_procs s)[z := None]\<rparr>"
  have fz: "find_zombie (pid pr) s = (Ok (Some ch, True), ?s1)"
    using find_zombie_some [OF tabs z] ch by simp
  have one: "reapable E ?s1 ch" "tables_ok ?s1" "k_frames_ready ?s1"
    using r tabs fr by (simp_all add: reapable_def owned_def tables_ok_def)
  show ?thesis
  proof (rule free_process_run [OF X one(2,1,3) f])
    fix s' assume fp: "free_process E ch ?s1 = (Ok (), s')"
      and P: "k_procs s' = (k_procs ?s1)[pid ch := Some new_process]"
      "k_threads s' = freed_threads (flatten (threads ch)) (k_threads ?s1)"
      "avail_frames (fa (k_mem s')) = avail_frames (fa (k_mem ?s1)) \<union> space_frames (crate E) (pm (k_mem ?s1)) f"
      "frame_alloc_ok (fa (k_mem s'))"
      "\<And>g. g \<notin> space_frames (crate E) (pm (k_mem ?s1)) f \<Longrightarrow> pm (k_mem s') g = pm (k_mem ?s1) g"
      "k_cpu s' = k_cpu ?s1" "k_cr3 s' = k_cr3 ?s1"
      "k_heap s' = fold (\<lambda>i. free_stack E (k_threads ?s1 ! i)) (flatten (threads ch)) (k_heap ?s1)"
    have "wait_round E pr s = (Ok (Some (z, exit_status ch)), s')"
      using fz fp ch by (simp add: wait_round_def)
    then show ?thesis by (rule that) (use P ch in simp_all)
  qed
qed

lemma wait_round_no_child:
  assumes "\<forall>i<NPROCESS - 1. \<not> child_of (pid pr) (k_procs s ! i)"
  shows "wait_round E pr s = (Err ''no child process'', s)"
proof -
  have "first_index (NPROCESS - 1) (\<lambda>i. zombie_of (pid pr) (k_procs s ! i)) = None"
    using assms by (auto simp: first_index_None_iff zombie_of_def child_of_def split: option.splits)
  from find_zombie_none [OF this] show ?thesis
    using assms by (auto simp: wait_round_def)
qed

definition only_living_children :: "nat \<Rightarrow> 'h kernel \<Rightarrow> bool" where
  "only_living_children p s \<longleftrightarrow> (\<forall>i<NPROCESS - 1. \<not> zombie_of p (k_procs s ! i)) \<and>
     (\<exists>i<NPROCESS - 1. child_of p (k_procs s ! i))"

lemma wait_round_living:
  assumes "only_living_children (pid pr) s"
  shows "wait_round E pr s = (if killed pr then (Err ''this process has killed'', s)
     else bind on_syscall_yield (\<lambda>_. ret None) s)"
proof -
  have "first_index (NPROCESS - 1) (\<lambda>i. zombie_of (pid pr) (k_procs s ! i)) = None"
    using assms by (simp add: first_index_None_iff only_living_children_def)
  from find_zombie_none [OF this] show ?thesis
    using assms by (auto simp: wait_round_def only_living_children_def)
qed

text \<open>The loop tests the \<open>killed\<close> of the structure it read before it: as long as the caller has a
  living child and no dead one it goes on, whatever happens to the caller's own entry.\<close>

lemma wait_keeps_waiting:
  assumes "\<not> killed pr" and "only_living_children (pid pr) s"
    and "tables_ok s" and "current_tid (k_cpu s) = Some i" and "i < NTHREAD"
    and others: "\<And>k t. tables_ok (others k t) \<and> current_tid (k_cpu (others k t)) = Some i \<and>
      only_living_children (pid pr) (others k t)"
  shows "wait_rounds E others pr k n s = None"
  using assms(2-5)
proof (induction n arbitrary: k s)
  case (Suc n)
  obtain t where t: "on_syscall_yield s = (Ok True, t)"
    using on_syscall_yield_run [of s i] Suc.prems by (auto simp: tables_ok_def)
  have w: "wait_round E pr s = (Ok None, t)"
    using wait_round_living [OF Suc.prems(1), of E] assms(1) t by simp
  let ?u = "(others k t)\<lparr>k_kernel_gs := \<not> k_kernel_gs (others k t)\<rparr>"
  have u: "after_syscall_yield (others k t) = (Ok (), ?u)"
    by (simp add: after_syscall_yield_def swapgs_def modify_def)
  have "wait_rounds E others pr (Suc k) n ?u = None"
    using others [of k t] Suc.prems(4)
    by (intro Suc.IH) (simp_all add: only_living_children_def tables_ok_def)
  then show ?case using w u by simp
qed simp

section \<open>kill\<close>

lemma kill_run:
  assumes "tables_ok s"
  shows "kill p s = (case first_index (NPROCESS - 1) (\<lambda>i. case k_procs s ! i of None \<Rightarrow> False | Some pr \<Rightarrow> pid pr = p) of
      None \<Rightarrow> (Err ''no process'', s)
    | Some i \<Rightarrow> (Ok (), s\<lparr>k_procs := (k_procs s)[i := map_option (\<lambda>pr. pr\<lparr>killed := True\<rparr>) (k_procs s ! i)]\<rparr>))"
proof (cases "first_index (NPROCESS - 1) (\<lambda>i. case k_procs s ! i of None \<Rightarrow> False | Some pr \<Rightarrow> pid pr = p)")
  case None
  then show ?thesis by (simp add: kill_def)
next
  case (Some i)
  then have "i < length (k_procs s)" and "\<exists>pr. k_procs s ! i = Some pr"
    using assms by (auto simp: first_index_Some_iff tables_ok_def split: option.splits)
  then show ?thesis
    using Some by (auto simp: kill_def bind_def gets_def get_proc_run set_proc_run)
qed

section \<open>sbrk\<close>

text \<open>\<open>sbrk\<close> changes no process structure, whatever it returns.\<close>

lemma keeps_arith [keeps]: "preserves I (arith_add E a b)" "preserves I (arith_sub E a b)"
  by (simp_all add: arith_add_def arith_sub_def keeps)

lemma keeps_reads [keeps]: "preserves I (get_thread i)" "preserves I (get_proc i)"
  by (auto simp: preserves_def prog split: if_splits)

lemma keeps_current [keeps]: "preserves I cpu_current_thread" "preserves I cpu_current_pid"
  by (auto simp: cpu_current_thread_def cpu_current_pid_def intro!: keeps split: option.split)

lemma keeps_on_mem [keeps]: "(\<And>s m. I s \<Longrightarrow> I (s\<lparr>k_mem := m\<rparr>)) \<Longrightarrow> preserves I (on_mem f)"
  by (auto simp: preserves_def on_mem_def zoom_def split: prod.splits)

lemma keeps_ready [keeps]: "preserves I frame_allocator_expect"
  by (auto simp: frame_allocator_expect_def intro!: keeps)

definition same_tables :: "'h kernel \<Rightarrow> 'h kernel \<Rightarrow> bool" where
  "same_tables s t \<longleftrightarrow> k_procs t = k_procs s \<and> k_threads t = k_threads s \<and> k_cpu t = k_cpu s \<and>
     k_frames_ready t = k_frames_ready s \<and> k_cr3 t = k_cr3 s"

lemma sbrk_keeps: "preserves (same_tables s0) (sbrk E n)"
  unfolding sbrk_def grow_process_heap_def get_process_page_table_def
  by (auto intro!: keeps simp: same_tables_def split: option.split)

lemma sbrk_tables: "sbrk E n s = (r, s') \<Longrightarrow> same_tables s s'"
  using preservesD [OF sbrk_keeps, of s s E n r s'] by (simp add: same_tables_def)

lemma arith_add_ok: "sint n > 0 \<Longrightarrow> unat a + unat n < 2 ^ 64 \<Longrightarrow> arith_add E a n s = (Ok (a + n), s)"
  by (simp add: arith_add_def checked_add_def)

lemma sbrk_grow:
  assumes run: "running s i p pr" and pt: "page_table pr = Some r" and sp: "user_space E s r"
    and fr: "k_frames_ready s" and X: "paging_crate (crate E)"
    and n: "0 < sint n" and fit: "unat (heap_size pr) + unat n < 2 ^ 47"
  obtains res m where "sbrk E n s = (map_res (\<lambda>_. heap_size pr) res, s\<lparr>k_mem := m\<rparr>)"
    and "paging.alloc_done (crate E) avail_frames frame_alloc_ok r (page_ceil (heap_size pr))
      (page_ceil (heap_size pr + n)) (heap_size pr + n) (k_mem s) res m"
proof -
  note R = run [unfolded running_def tables_ok_def]
  have add: "arith_add E (heap_size pr) n t = (Ok (heap_size pr + n), t)" for t
    using n fit by (intro arith_add_ok) simp_all
  have un: "unat (heap_size pr + n) = unat (heap_size pr) + unat n"
    using fit by (intro unat_add_lem [THEN iffD1]) simp
  obtain res m where al: "alloc_uvm (crate E) allocate_frame deallocate_frame r (heap_size pr) (heap_size pr + n) (k_mem s) = (res, m)"
    by fastforce
  have D: "paging.alloc_done (crate E) avail_frames frame_alloc_ok r (page_ceil (heap_size pr))
      (page_ceil (heap_size pr + n)) (heap_size pr + n) (k_mem s) res m"
    by (rule paging.alloc_uvm_done [OF paging_boot [OF X] sp _ _ al]) (use un fit in \<open>simp_all add: word_le_nat_alt\<close>)
  have ptb: "get_process_page_table pr s = (Ok r, s)"
    using pt sp by (intro page_table_run) (simp_all add: space_ok_def)
  have om: "on_mem (alloc_uvm (crate E) allocate_frame deallocate_frame r (heap_size pr) (heap_size pr + n)) s = (res, s\<lparr>k_mem := m\<rparr>)"
    using al by (rule on_mem_run)
  have "sbrk E n s = (map_res (\<lambda>_. heap_size pr) res, s\<lparr>k_mem := m\<rparr>)"
    using running_pid [OF run] R ptb frame_allocator_run [OF fr] n add om
    by (cases res) (simp_all add: sbrk_def grow_process_heap_def get_proc_run)
  then show ?thesis using that D by blast
qed

text \<open>The break is not stored, so a later growth starts at the page that is mapped already.\<close>

lemma sbrk_again:
  assumes run: "running s i p pr" and pt: "page_table pr = Some r" and sp: "user_space E s r"
    and fr: "k_frames_ready s" and X: "paging_crate (crate E)"
    and n: "0 < sint n" "unat (heap_size pr) + unat n < 2 ^ 47"
    and cross: "page_ceil (heap_size pr) < page_ceil (heap_size pr + n)"
    and m: "0 < sint m" "unat (heap_size pr) + unat m < 2 ^ 47"
    and cross': "page_ceil (heap_size pr) < page_ceil (heap_size pr + m)"
    and first: "sbrk E n s = (Ok a, s1)"
  shows "\<exists>e s2. sbrk E m s1 = (Err e, s2)"
proof -
  note P = paging_boot [OF X]
  let ?a = "page_ceil (heap_size pr)"
  obtain res mm where r1: "sbrk E n s = (map_res (\<lambda>_. heap_size pr) res, s\<lparr>k_mem := mm\<rparr>)"
    and D1: "paging.alloc_done (crate E) avail_frames frame_alloc_ok r ?a
      (page_ceil (heap_size pr + n)) (heap_size pr + n) (k_mem s) res mm"
    using sbrk_grow [OF run pt sp fr X n] by blast
  have s1: "s1 = s\<lparr>k_mem := mm\<rparr>" and ok: "res = Ok (heap_size pr + n)"
    using r1 first D1 by (auto simp: paging.alloc_done_def [OF P])
  have F: "paging.filled (crate E) avail_frames frame_alloc_ok r ?a (page_ceil (heap_size pr + n)) (k_mem s) mm"
    using D1 ok by (auto simp: paging.alloc_done_def [OF P])
  have "unat (heap_size pr + n) = unat (heap_size pr) + unat n"
    using n(2) by (intro unat_add_lem [THEN iffD1]) simp
  then have a35: "?a < 2 ^ 35" using cross page_ceil_bound [of "heap_size pr + n"] n(2) by simp
  have mapped: "page_view (crate E) (pm mm) r ?a \<noteq> None"
    using F [unfolded paging.filled_def [OF P], THEN conjunct2, THEN conjunct2, rule_format, OF a35] cross
    by auto
  have sp1: "user_space E s1 r" using F by (auto simp: s1 paging.filled_def [OF P] evolves_def)
  have run1: "running s1 i p pr" using run by (simp add: s1 running_def tables_ok_def)
  have fr1: "k_frames_ready s1" using fr by (simp add: s1)
  obtain res2 m2 where r2: "sbrk E m s1 = (map_res (\<lambda>_. heap_size pr) res2, s1\<lparr>k_mem := m2\<rparr>)"
    and D2: "paging.alloc_done (crate E) avail_frames frame_alloc_ok r ?a
      (page_ceil (heap_size pr + m)) (heap_size pr + m) (k_mem s1) res2 m2"
    using sbrk_grow [OF run1 pt sp1 fr1 X m] by blast
  have "\<not> paging.filled (crate E) avail_frames frame_alloc_ok r ?a (page_ceil (heap_size pr + m)) (k_mem s1) m2"
  proof
    assume "paging.filled (crate E) avail_frames frame_alloc_ok r ?a (page_ceil (heap_size pr + m)) (k_mem s1) m2"
    from this [unfolded paging.filled_def [OF P], THEN conjunct2, THEN conjunct2, rule_format, OF a35]
    show False using mapped cross' by (simp add: s1)
  qed
  then have "\<exists>e. res2 = Err e" using D2 by (auto simp: paging.alloc_done_def [OF P])
  then show ?thesis using r2 by auto
qed

end
