(* ===== verification/Dispatch.thy ===== *)
theory Dispatch
  imports Exec Lifecycle
begin

text \<open>
  The system call dispatcher (syscall/ksyscall.rs, \<open>exit_if_current_process_killed\<close> of
  syscall/mod.rs, the numbers of abi/src/lib.rs) and the timer interrupt (interrupts.rs). A call
  returns a value for \<open>rax\<close> (\<open>Ret\<close>), or its thread has left for the scheduler for good (\<open>Gone\<close>).
\<close>

section \<open>System call numbers\<close>

definition SYS_PRINT_NUM :: i64 where "SYS_PRINT_NUM = 1"
definition SYS_PRINT_STR :: i64 where "SYS_PRINT_STR = 2"
definition SYS_FORK :: i64 where "SYS_FORK = 3"
definition SYS_EXEC :: i64 where "SYS_EXEC = 4"
definition SYS_GETPID :: i64 where "SYS_GETPID = 5"
definition SYS_UPTIME :: i64 where "SYS_UPTIME = 6"
definition SYS_EXIT :: i64 where "SYS_EXIT = 7"
definition SYS_WAIT :: i64 where "SYS_WAIT = 8"
definition SYS_KILL :: i64 where "SYS_KILL = 9"
definition SYS_SBRK :: i64 where "SYS_SBRK = 10"

lemmas syscall_numbers = SYS_PRINT_NUM_def SYS_PRINT_STR_def SYS_FORK_def SYS_EXEC_def SYS_GETPID_def
  SYS_UPTIME_def SYS_EXIT_def SYS_WAIT_def SYS_KILL_def SYS_SBRK_def

section \<open>UTF-8\<close>

text \<open>\<open>core::str::from_utf8\<close> accepts the well-formed sequences of the Unicode standard.\<close>

definition between :: "u8 \<Rightarrow> u8 \<Rightarrow> u8 \<Rightarrow> bool" where
  "between lo hi b \<longleftrightarrow> lo \<le> b \<and> b \<le> hi"

definition tail_range :: "u8 \<Rightarrow> u8 \<times> u8" where
  "tail_range b = (if b = 0xE0 then (0xA0, 0xBF) else if b = 0xED then (0x80, 0x9F)
     else if b = 0xF0 then (0x90, 0xBF) else if b = 0xF4 then (0x80, 0x8F) else (0x80, 0xBF))"

fun utf8 :: "u8 list \<Rightarrow> bool" where
  "utf8 [] = True"
| "utf8 (b # bs) =
     (if b < 0x80 then utf8 bs
      else if between 0xC2 0xDF b then (case bs of c # r \<Rightarrow> between 0x80 0xBF c \<and> utf8 r | [] \<Rightarrow> False)
      else if between 0xE0 0xEF b then (case bs of
          c # d # r \<Rightarrow> between (fst (tail_range b)) (snd (tail_range b)) c \<and> between 0x80 0xBF d \<and> utf8 r
        | _ \<Rightarrow> False)
      else if between 0xF0 0xF4 b then (case bs of
          c # d # e # r \<Rightarrow> between (fst (tail_range b)) (snd (tail_range b)) c \<and> between 0x80 0xBF d \<and>
            between 0x80 0xBF e \<and> utf8 r
        | _ \<Rightarrow> False)
      else False)"

section \<open>Results of calls\<close>

datatype sysret = Ret i64 | Gone

definition catch :: "('s, 'a) program \<Rightarrow> ('a \<Rightarrow> ('s, 'b) program) \<Rightarrow> (string \<Rightarrow> ('s, 'b) program) \<Rightarrow> ('s, 'b) program" where
  "catch f g h = (\<lambda>s. case f s of
      (Ok a, t) \<Rightarrow> g a t
    | (Err e, t) \<Rightarrow> h e t
    | (Panic e, t) \<Rightarrow> (Panic e, t))"

text \<open>\<open>result.expect(msg)\<close>.\<close>

definition expect_ok :: "string \<Rightarrow> ('s, 'a) program \<Rightarrow> ('s, 'a) program" where
  "expect_ok msg f = catch f ret (\<lambda>_. panic msg)"

section \<open>The calls\<close>

definition sys_print_num :: "i64 \<Rightarrow> ('h, sysret) kprog" where
  "sys_print_num n = bind (println (LNum n)) (\<lambda>_. ret (Ret RET_SUCCESS))"

definition sys_print_str :: "'h env \<Rightarrow> u64 \<Rightarrow> i64 \<Rightarrow> ('h, sysret) kprog" where
  "sys_print_str E ptr len =
     (if 256 < sint len then ret (Ret SYSRET_MAX)
      else catch (copy_bytes_from_user E ptr len)
        (\<lambda>bytes. if utf8 bytes then bind (println (LBytes bytes)) (\<lambda>_. ret (Ret RET_SUCCESS))
           else ret (Ret SYSRET_MAX))
        (\<lambda>e. bind (println (LMsg (''print_str copy error: '' @ e))) (\<lambda>_. ret (Ret SYSRET_MAX))))"

definition sys_fork :: "'h env \<Rightarrow> ('h, sysret) kprog" where
  "sys_fork E = catch (fork E) (\<lambda>p. ret (Ret (of_nat p)))
     (\<lambda>e. bind (println (LMsg e)) (\<lambda>_. ret (Ret RET_ERROR)))"

definition sys_exec :: "'h env \<Rightarrow> u64 \<Rightarrow> u64 \<Rightarrow> ('h, sysret) kprog" where
  "sys_exec E path_ptr argv_ptr =
     bind (expect_ok ''exec: failed to copy_cstr_from_user'' (copy_cstr_from_user E path_ptr MAX_ARG_LEN)) (\<lambda>path.
     bind (if utf8 path then ret () else panic ''exec: path is not valid UTF-8'') (\<lambda>_.
     bind (expect_ok ''exec: failed to copy argv'' (copy_argv E argv_ptr)) (\<lambda>argv.
     catch (exec E path argv) (\<lambda>_. ret (Ret 0))
       (\<lambda>e. bind (println (LMsg e)) (\<lambda>_. ret (Ret RET_ERROR))))))"

definition sys_getpid :: "('h, sysret) kprog" where
  "sys_getpid = catch getpid (\<lambda>p. ret (Ret (of_nat p))) (\<lambda>_. ret (Ret RET_ERROR))"

definition get_ticks :: "('h, u64) kprog" where
  "get_ticks = gets k_ticks"

definition sys_uptime :: "('h, sysret) kprog" where
  "sys_uptime = bind get_ticks (\<lambda>t. if SYSRET_MAX < t then ret (Ret RET_ERROR) else ret (Ret t))"

text \<open>\<open>exit\<close> ends in the scheduler, or it returns an error and the kernel panics.\<close>

definition sys_exit :: "i64 \<Rightarrow> ('h, sysret) kprog" where
  "sys_exit v = catch (exit_process v)
     (\<lambda>switched. if switched then ret Gone else panic ''zonbie exit'')
     (\<lambda>_. panic ''why exit returns..?'')"

definition sys_kill :: "nat \<Rightarrow> ('h, sysret) kprog" where
  "sys_kill p = catch (kill p) (\<lambda>_. ret (Ret RET_SUCCESS)) (\<lambda>_. ret (Ret RET_ERROR))"

definition sys_sbrk :: "'h env \<Rightarrow> i64 \<Rightarrow> ('h, sysret) kprog" where
  "sys_sbrk E n = catch (sbrk E n) (\<lambda>a. ret (Ret a)) (\<lambda>_. ret (Ret RET_ERROR))"

text \<open>\<open>others\<close> and \<open>n\<close> are those of \<open>wait\<close>; \<open>exit_status.to_ne_bytes()\<close> is little-endian here.\<close>

definition wait_done :: "'h env \<Rightarrow> u64 \<Rightarrow> nat \<times> i64 \<Rightarrow> ('h, sysret) kprog" where
  "wait_done E status_ptr r =
     (if unat SYSRET_MAX < fst r then ret (Ret RET_ERROR)
      else catch (if status_ptr \<noteq> 0 then copy_to_user E status_ptr (le_bytes (snd r)) else ret ())
        (\<lambda>_. ret (Ret (of_nat (fst r)))) (\<lambda>_. ret (Ret RET_ERROR)))"

definition sys_wait :: "'h env \<Rightarrow> (nat \<Rightarrow> 'h kernel \<Rightarrow> 'h kernel) \<Rightarrow> nat \<Rightarrow> u64 \<Rightarrow> 'h kernel \<Rightarrow>
  (sysret res \<times> 'h kernel) option" where
  "sys_wait E others n status_ptr s = map_option (\<lambda>r. case r of
       (Ok x, t) \<Rightarrow> wait_done E status_ptr x t
     | (Err e, t) \<Rightarrow> (Ok (Ret RET_ERROR), t)
     | (Panic e, t) \<Rightarrow> (Panic e, t)) (wait E others n s)"

section \<open>The dispatcher\<close>

text \<open>The result says whether the current process has been made to exit.\<close>

definition exit_if_current_process_killed :: "('h, bool) kprog" where
  "exit_if_current_process_killed =
     bind cpu_current_process (\<lambda>p. bind (expect ''no process'' p) (\<lambda>p.
     if killed p
     then bind (sys_exit RET_ERROR) (\<lambda>r. case r of Gone \<Rightarrow> ret True | Ret _ \<Rightarrow> panic ''exit retured!'')
     else ret False))"

definition dispatch_call :: "'h env \<Rightarrow> i64 \<Rightarrow> i64 \<Rightarrow> i64 \<Rightarrow> ('h, sysret) kprog" where
  "dispatch_call E num a1 a2 =
     (if num = SYS_PRINT_NUM then sys_print_num a1
      else if num = SYS_PRINT_STR then sys_print_str E a1 a2
      else if num = SYS_FORK then sys_fork E
      else if num = SYS_EXEC then sys_exec E a1 a2
      else if num = SYS_GETPID then sys_getpid
      else if num = SYS_UPTIME then sys_uptime
      else if num = SYS_EXIT then sys_exit a1
      else if num = SYS_KILL then sys_kill (unat a1)
      else if num = SYS_SBRK then sys_sbrk E a1
      else bind (println (LMsg ''[syscall] unknown syscall'')) (\<lambda>_. ret (Ret SYSRET_MAX)))"

definition dispatch_any :: "'h env \<Rightarrow> (nat \<Rightarrow> 'h kernel \<Rightarrow> 'h kernel) \<Rightarrow> nat \<Rightarrow> i64 \<Rightarrow> i64 \<Rightarrow> i64 \<Rightarrow> 'h kernel \<Rightarrow>
  (sysret res \<times> 'h kernel) option" where
  "dispatch_any E others n num a1 a2 s =
     (if num = SYS_WAIT then sys_wait E others n a1 s else Some (dispatch_call E num a1 a2 s))"

text \<open>A call that is \<open>Gone\<close> does not come back to the second check.\<close>

definition check_again :: "sysret \<Rightarrow> ('h, sysret) kprog" where
  "check_again r = (case r of Gone \<Rightarrow> ret Gone
     | Ret v \<Rightarrow> bind exit_if_current_process_killed (\<lambda>gone. ret (if gone then Gone else Ret v)))"

definition syscall_dispatch :: "'h env \<Rightarrow> (nat \<Rightarrow> 'h kernel \<Rightarrow> 'h kernel) \<Rightarrow> nat \<Rightarrow> i64 \<Rightarrow> i64 \<Rightarrow> i64 \<Rightarrow> i64 \<Rightarrow> u64 \<Rightarrow>
  'h kernel \<Rightarrow> (sysret res \<times> 'h kernel) option" where
  "syscall_dispatch E others n num a1 a2 a3 q s = (case exit_if_current_process_killed s of
       (Ok True, t) \<Rightarrow> Some (Ok Gone, t)
     | (Ok False, t) \<Rightarrow> (case set_trapframe q t of
           (Ok (), u) \<Rightarrow> (case dispatch_any E others n num a1 a2 u of
               None \<Rightarrow> None
             | Some (Ok r, v) \<Rightarrow> Some (check_again r v)
             | Some (Err e, v) \<Rightarrow> Some (Err e, v)
             | Some (Panic e, v) \<Rightarrow> Some (Panic e, v))
         | (Err e, u) \<Rightarrow> Some (Err e, u)
         | (Panic e, u) \<Rightarrow> Some (Panic e, u))
     | (Err e, t) \<Rightarrow> Some (Err e, t)
     | (Panic e, t) \<Rightarrow> Some (Panic e, t))"

section \<open>The timer\<close>

definition countup_ticks :: "'h env \<Rightarrow> ('h, unit) kprog" where
  "countup_ticks E = bind (gets k_ticks) (\<lambda>t. bind (arith_add E t 1) (\<lambda>t. modify (\<lambda>s. s\<lparr>k_ticks := t\<rparr>)))"

text \<open>The processor clears the interrupt flag on entry. The result is \<open>True\<close> when the handler has
  switched to the scheduler.\<close>

definition timer_interrupt_handler :: "'h env \<Rightarrow> u64 \<Rightarrow> ('h, bool) kprog" where
  "timer_interrupt_handler E code_segment =
     bind (set_interrupts False) (\<lambda>_.
     bind (countup_ticks E) (\<lambda>_.
     let from_user = (code_segment AND 3 = 3) in
     bind (if from_user then exit_if_current_process_killed else ret False) (\<lambda>gone.
     if gone then ret True
     else bind (if from_user then exit_if_current_process_killed else ret False) (\<lambda>gone.
       if gone then ret True
       else bind (gets k_started) (\<lambda>started. if started then on_yield else ret False)))))"

definition PIT_BASE_FREQUENCY :: u32 where "PIT_BASE_FREQUENCY = 1193182"
definition TIMER_FREQUENCY_HZ :: u32 where "TIMER_FREQUENCY_HZ = 100"

text \<open>The bytes written to the timer's ports, in order.\<close>

definition init_pit_timer :: "u32 \<Rightarrow> (u16 \<times> u8) list res" where
  "init_pit_timer frequency_hz =
     (if frequency_hz = 0 then Panic ''assertion failed: frequency_hz > 0''
      else let divisor = PIT_BASE_FREQUENCY div frequency_hz in
        if divisor = 0 then Panic ''assertion failed: divisor > 0''
        else if 65535 < divisor then Panic ''assertion failed: divisor <= u16::MAX as u32''
        else Ok [(0x43, 0x36), (0x40, ucast (divisor AND 0xFF)), (0x40, ucast (drop_bit 8 divisor))])"

end
