(* ===== verification/Sample.thy ===== *)
theory Sample
  imports Dispatch
begin

text \<open>
  Small concrete states on which the properties are instantiated: an empty address space over zeroed
  memory, and a kernel with one running user process.
\<close>

section \<open>Memory\<close>

definition sample_mem :: "u64 list \<Rightarrow> frame_alloc mem" where
  "sample_mem fs = \<lparr>pm = (\<lambda>_ _. 0), fa = \<lparr>memory_map = [], next_frame = 0, recycled_frames = fs\<rparr>, phys_offset = Some 0\<rparr>"

lemma sample_alloc:
  "free_list (fa (sample_mem fs)) = fs" "avail_frames (fa (sample_mem fs)) = set fs"
  "frame_alloc_ok (fa (sample_mem fs)) \<longleftrightarrow> distinct fs \<and> (\<forall>f\<in>set fs. phys_frame f)"
  by (simp_all add: sample_mem_def free_list_def avail_frames_def usable_frames_def frame_alloc_ok_def)

lemma x86_bits_0 [simp]: "pte_flags x86_bits 0 = 0"
  by (simp add: x86_bits_def)

lemma sample_not_present [simp]: "\<not> present x86_bits (pm (sample_mem fs) t i)"
  by (simp add: present_def contains_def PRESENT_def sample_mem_def)

lemma sample_tbl: "tbl x86_bits (pm (sample_mem fs)) r p = (if p = [] then Some r else None)"
  by (cases p) simp_all

lemma sample_view [simp]: "page_view x86_bits (pm (sample_mem fs)) r k = None"
  by (simp add: page_view_tbl sample_tbl)

lemma sample_frames: "space_frames x86_bits (pm (sample_mem fs)) r = {r}"
  by (auto simp: space_frames_def sample_tbl)

lemma sample_space:
  assumes "distinct fs" and "\<forall>f\<in>set (r # fs). phys_frame f" and "r \<notin> set fs"
  shows "space_ok x86_bits avail_frames frame_alloc_ok (sample_mem fs) r"
proof -
  have "user_tree x86_bits (pm (sample_mem fs)) r"
    by (simp add: user_tree_def sample_tbl)
  moreover have "no_huge x86_bits (pm (sample_mem fs)) r"
    by (simp add: no_huge_def)
  moreover have "phys_offset (sample_mem fs) \<noteq> None" by (simp add: sample_mem_def)
  ultimately show ?thesis
    using assms by (simp add: space_ok_def sample_alloc sample_frames)
qed

text \<open>Eight free frames and a PML4.\<close>

definition sample_free :: "u64 list" where
  "sample_free = [0x2000, 0x3000, 0x4000, 0x5000, 0x6000, 0x7000, 0x8000, 0x9000]"

lemma sample_frames_phys: "\<forall>f\<in>set (0x1000 # sample_free). phys_frame f"
  by (simp add: sample_free_def phys_frame_def page_aligned_def mask_eq_exp_minus_1)

definition sample_memory :: "frame_alloc mem" where
  "sample_memory = sample_mem sample_free"

lemma sample_memory_ok: "space_ok x86_bits avail_frames frame_alloc_ok sample_memory 0x1000"
  unfolding sample_memory_def
  by (rule sample_space [OF _ sample_frames_phys]) (simp_all add: sample_free_def)

lemma sample_memory_avail: "avail_frames (fa sample_memory) = set sample_free"
  by (simp add: sample_memory_def sample_alloc)

lemma sample_memory_view [simp]: "page_view x86_bits (pm sample_memory) 0x1000 k = None"
  by (simp add: sample_memory_def)

section \<open>A kernel\<close>

text \<open>The kernel-stack allocator hands out consecutive blocks, the processor translates as the page tables
  say, and mapping a page is a walk followed by storing the entry.\<close>

definition sample_map_to :: "x86 \<Rightarrow> u64 \<Rightarrow> u64 \<Rightarrow> u64 \<Rightarrow> u64 \<Rightarrow> (frame_alloc mem, unit) program" where
  "sample_map_to X pml4 page f fl =
     bind (walk_pagetable X allocate_frame pml4 page True) (\<lambda>pte.
     bind (ok_or ''FrameAllocationFailed'' pte) (\<lambda>(t, i).
     bind (gets (\<lambda>s. pm s t i)) (\<lambda>e.
     if present X e then throw ''PageAlreadyMapped'' else store_frame X t i f fl)))"

definition sample_env :: "u64 env" where
  "sample_env = \<lparr>crate = x86_bits, kalloc = (\<lambda>h. (h, h + 0x8000)), kfree = (\<lambda>b h. h),
     mmu = (\<lambda>m cr3 va. case translate_addr_inner x86_bits m cr3 va of Ok r \<Rightarrow> r | _ \<Rightarrow> None),
     map_to = sample_map_to x86_bits, kthread_entry_addr = 0xFFFF800000001000, ring3_entry_addr = 0xFFFF800000002000,
     fork_return_addr = 0xFFFF800000003000, user_cs = 0x23, user_ss = 0x1B, programs = [],
     overflow_checks = True\<rparr>"

definition sample_stack :: "nat \<Rightarrow> u64" where
  "sample_stack i = 0xFFFF888000000000 + of_nat (0x8000 * i)"

definition sample_thread :: "nat \<Rightarrow> nat \<Rightarrow> thread_state \<Rightarrow> thread" where
  "sample_thread i p st = (fresh_thread sample_env i p (sample_stack i))\<lparr>state := st\<rparr>"

definition sample_process :: "nat \<Rightarrow> nat \<Rightarrow> u64 \<Rightarrow> process" where
  "sample_process p i r = (fresh_process p i)\<lparr>page_table := Some r\<rparr>"

definition sample_kernel :: "thread list \<Rightarrow> process option list \<Rightarrow> nat option \<Rightarrow> u64 kernel" where
  "sample_kernel ts ps cur = \<lparr>
     k_threads = ts @ replicate (NTHREAD - length ts) new_thread,
     k_procs = ps @ replicate (NPROCESS - length ps) None,
     k_cpu = (new_cpu 0)\<lparr>current_tid := cur\<rparr>, k_mem = sample_memory, k_frames_ready = True,
     k_kernel_pt = Some 0xA000, k_cr3 = 0xA000, k_rsp0 = 0,
     k_regs = regs.truncate new_context, k_stacks = (\<lambda>_. 0), k_heap = 0xFFFF888000080000, k_ticks = 0,
     k_started = True, k_if = False, k_kernel_gs = False, k_out = []\<rparr>"

lemma sample_crate [simp]: "crate sample_env = x86_bits"
  by (simp add: sample_env_def)

lemma sample_tables: "length ts \<le> NTHREAD \<Longrightarrow> length ps \<le> NPROCESS \<Longrightarrow> tables_ok (sample_kernel ts ps cur)"
  by (simp add: tables_ok_def sample_kernel_def)

lemma sample_nth:
  "i < length ts \<Longrightarrow> k_threads (sample_kernel ts ps cur) ! i = ts ! i"
  "length ts \<le> i \<Longrightarrow> i < NTHREAD \<Longrightarrow> k_threads (sample_kernel ts ps cur) ! i = new_thread"
  "p < length ps \<Longrightarrow> k_procs (sample_kernel ts ps cur) ! p = ps ! p"
  "length ps \<le> p \<Longrightarrow> p < NPROCESS \<Longrightarrow> k_procs (sample_kernel ts ps cur) ! p = None"
  by (simp_all add: sample_kernel_def nth_append)

lemma sample_kernel_simps [simp]:
  "k_cpu (sample_kernel ts ps cur) = (new_cpu 0)\<lparr>current_tid := cur\<rparr>"
  "k_mem (sample_kernel ts ps cur) = sample_memory" "k_frames_ready (sample_kernel ts ps cur)"
  "k_heap (sample_kernel ts ps cur) = 0xFFFF888000080000" "k_cr3 (sample_kernel ts ps cur) = 0xA000"
  "\<not> k_kernel_gs (sample_kernel ts ps cur)" "k_started (sample_kernel ts ps cur)" "k_ticks (sample_kernel ts ps cur) = 0"
  "k_stacks (sample_kernel ts ps cur) = (\<lambda>_. 0)"
  by (simp_all add: sample_kernel_def)

lemma sample_thread_simps [simp]:
  "state (sample_thread i p st) = st" "t_pid (sample_thread i p st) = Some p"
  "kstack (sample_thread i p st) = stack_top (sample_stack i)"
  "tf (sample_thread i p st) = Some (stack_top (sample_stack i) - TRAPFRAME_SIZE)"
  by (simp_all add: sample_thread_def fresh_thread_def)

lemma sample_process_simps [simp]:
  "pid (sample_process p i r) = p" "page_table (sample_process p i r) = Some r"
  "threads (sample_process p i r) = Some i # replicate 7 None" "heap_size (sample_process p i r) = 0"
  "\<not> killed (sample_process p i r)"
  by (simp_all add: sample_process_def fresh_process_def new_process_def NTHREAD_PER_PROCESS_def)

lemma new_thread_simps [simp]: "state new_thread = Unused" "t_pid new_thread = None"
  by (simp_all add: new_thread_def)

lemma sample_running:
  "length ts \<le> NTHREAD \<Longrightarrow> length ps \<le> NPROCESS \<Longrightarrow> i < length ts \<Longrightarrow> t_pid (ts ! i) = Some p \<Longrightarrow>
   p < length ps \<Longrightarrow> ps ! p = Some pr \<Longrightarrow> running (sample_kernel ts ps (Some i)) i p pr"
  by (simp add: running_def sample_tables sample_nth)

text \<open>The memory of the sample kernel holds the empty spaces of \<open>0x1000\<close> and \<open>0xA000\<close>.\<close>

lemma sample_user_space: "user_space sample_env (sample_kernel ts ps cur) 0x1000"
  using sample_memory_ok by simp

end
