(* ===== verification/MemoryProps.thy ===== *)
theory MemoryProps
  imports Sample
begin

text \<open>
  The properties of the memory subsystem: the frame allocator, the page-table walk and the
  operations on user address spaces, each followed by an instance on the sample memory.
\<close>

section \<open>Growing and shrinking\<close>

text \<open>What an operation on the address space of the table \<open>r\<close> may not do: it keeps the invariant, the
  frames of the space and of the allocator together, and all memory outside them.\<close>

lemma evolves_parts:
  "evolves X av ok r s t \<longleftrightarrow> space_ok X av ok t r \<and>
     space_frames X (pm t) r \<union> av (fa t) = space_frames X (pm s) r \<union> av (fa s) \<and>
     (\<forall>f. f \<notin> space_frames X (pm s) r \<union> av (fa s) \<longrightarrow> pm t f = pm s f) \<and> (\<forall>i\<ge>256. pm t r i = pm s r i)"
  by (simp add: evolves_def)



text \<open>C7. \<open>alloc_uvm\<close> succeeds when the pages to add are unmapped and the allocator has four frames for each of
  them: one for the page and at most three for the tables on the way to it.\<close>

theorem alloc_uvm_succeeds:
  assumes "paging_crate X" and "space_ok X avail_frames frame_alloc_ok s r"
    and "oldsz \<le> newsz" and "unat newsz < 2 ^ 47"
    and "\<forall>k. page_ceil oldsz \<le> k \<and> k < page_ceil newsz \<longrightarrow> page_view X (pm s) r k = None"
    and "4 * (page_ceil newsz - page_ceil oldsz) \<le> card (avail_frames (fa s))"
  shows "\<exists>t. alloc_uvm X allocate_frame deallocate_frame r oldsz newsz s = (Ok newsz, t)"
proof -
  note P = paging_boot [OF assms(1)]
  obtain res t where r: "alloc_uvm X allocate_frame deallocate_frame r oldsz newsz s = (res, t)" by fastforce
  have "paging.alloc_done X avail_frames frame_alloc_ok r (page_ceil oldsz) (page_ceil newsz) newsz s res t"
    by (rule paging.alloc_uvm_done [OF P assms(2-4) r])
  then have "res = Ok newsz"
    using assms(5,6) unfolding paging.alloc_done_def [OF P] by auto
  then show ?thesis using r by blast
qed

theorem alloc_uvm_succeeds_witness:
  "\<exists>t. alloc_uvm x86_bits allocate_frame deallocate_frame 0x1000 0 0x1800 sample_memory = (Ok 0x1800, t)"
  by (rule alloc_uvm_succeeds [OF bits.paging_crate_axioms sample_memory_ok])
    (simp_all add: sample_memory_avail sample_free_def page_ceil_def)

text \<open>C8. \<open>dealloc_uvm\<close> unmaps exactly the pages between the two sizes, rounded up, gives exactly the frames
  of those pages back to the allocator, and returns the new size.\<close>

theorem dealloc_uvm_unmaps:
  assumes "paging_crate X" and "space_ok X avail_frames frame_alloc_ok s r"
    and "unat oldsz \<le> 2 ^ 47" and "newsz < oldsz"
  shows "\<exists>t. dealloc_uvm X allocate_frame deallocate_frame r oldsz newsz s = (Ok newsz, t) \<and>
    evolves X avail_frames frame_alloc_ok r s t \<and>
    (\<forall>k<2 ^ 35. page_view X (pm t) r k =
      (if page_ceil newsz \<le> k \<and> k < page_ceil oldsz then None else page_view X (pm s) r k)) \<and>
    avail_frames (fa t) = avail_frames (fa s) \<union> page_frames X (pm s) r (page_ceil newsz) (page_ceil oldsz)"
proof -
  note P = paging_boot [OF assms(1)]
  obtain t where "dealloc_uvm X allocate_frame deallocate_frame r oldsz newsz s = (Ok newsz, t)"
    and "paging.cleared X avail_frames frame_alloc_ok r (page_ceil newsz) (page_ceil oldsz) s t"
    using paging.dealloc_uvm_ok [OF P assms(2-4)] by blast
  then show ?thesis unfolding paging.cleared_def [OF P] by (intro exI [of _ t]) simp
qed

theorem dealloc_uvm_unmaps_witness:
  "\<exists>t. dealloc_uvm x86_bits allocate_frame deallocate_frame 0x1000 0x5000 0x1000 sample_memory = (Ok 0x1000, t)"
  using dealloc_uvm_unmaps [OF bits.paging_crate_axioms sample_memory_ok, of "0x5000" "0x1000"] by auto

text \<open>Growing by \<open>alloc_uvm\<close> and shrinking back by \<open>dealloc_uvm\<close> restores every page of the user half, and
  the frames that had backed the added pages are free again.\<close>

theorem alloc_dealloc_restores:
  assumes "paging_crate X" and "space_ok X avail_frames frame_alloc_ok s r"
    and "oldsz < newsz" and "unat newsz < 2 ^ 47"
    and "alloc_uvm X allocate_frame deallocate_frame r oldsz newsz s = (Ok sz, t)"
  shows "\<exists>u. dealloc_uvm X allocate_frame deallocate_frame r sz oldsz t = (Ok oldsz, u) \<and>
    (\<forall>k<2 ^ 35. page_view X (pm u) r k = page_view X (pm s) r k) \<and>
    page_frames X (pm t) r (page_ceil oldsz) (page_ceil newsz) \<subseteq> avail_frames (fa u)"
proof -
  note P = paging_boot [OF assms(1)]
  have "paging.alloc_done X avail_frames frame_alloc_ok r (page_ceil oldsz) (page_ceil newsz) newsz s (Ok sz) t"
    by (rule paging.alloc_uvm_done [OF P assms(2) _ assms(4,5)]) (use assms(3) in simp)
  then have sz: "sz = newsz" and F: "paging.filled X avail_frames frame_alloc_ok r (page_ceil oldsz) (page_ceil newsz) s t"
    unfolding paging.alloc_done_def [OF P] by auto
  have ok: "space_ok X avail_frames frame_alloc_ok t r"
    using F unfolding paging.filled_def [OF P] evolves_def by blast
  have top: "unat newsz \<le> 2 ^ 47" using assms(4) by simp
  obtain u where u: "dealloc_uvm X allocate_frame deallocate_frame r newsz oldsz t = (Ok oldsz, u)"
    and C: "paging.cleared X avail_frames frame_alloc_ok r (page_ceil oldsz) (page_ceil newsz) t u"
    using paging.dealloc_uvm_ok [OF P ok top assms(3)] by blast
  have "page_view X (pm u) r k = page_view X (pm s) r k" if "k < 2 ^ 35" for k
    using F [unfolded paging.filled_def [OF P], THEN conjunct2, THEN conjunct2, rule_format, OF that]
      C [unfolded paging.cleared_def [OF P], THEN conjunct2, THEN conjunct1, rule_format, OF that]
    by (auto split: if_splits)
  moreover have "page_frames X (pm t) r (page_ceil oldsz) (page_ceil newsz) \<subseteq> avail_frames (fa u)"
    using C unfolding paging.cleared_def [OF P] by blast
  ultimately show ?thesis using u sz by blast
qed

theorem alloc_dealloc_restores_witness:
  "\<exists>t u. alloc_uvm x86_bits allocate_frame deallocate_frame 0x1000 0 0x1800 sample_memory = (Ok 0x1800, t) \<and>
     dealloc_uvm x86_bits allocate_frame deallocate_frame 0x1000 0x1800 0 t = (Ok 0, u)"
proof -
  have P: "paging x86_bits allocate_frame deallocate_frame avail_frames frame_alloc_ok"
    by (rule machine.paging_axioms)
  obtain res t where r: "alloc_uvm x86_bits allocate_frame deallocate_frame 0x1000 0 0x1800 sample_memory = (res, t)"
    by fastforce
  have "machine.alloc_done 0x1000 (page_ceil 0) (page_ceil 0x1800) 0x1800 sample_memory res t"
    by (rule machine.alloc_uvm_done [OF sample_memory_ok _ _ r]) simp_all
  then have "res = Ok 0x1800"
    unfolding machine.alloc_done_def by (auto simp: sample_memory_avail sample_free_def page_ceil_def)
  then show ?thesis
    using alloc_dealloc_restores [OF bits.paging_crate_axioms sample_memory_ok, of 0 "0x1800" "0x1800" t] r by auto
qed

section \<open>Freeing and copying\<close>

text \<open>C9. \<open>free_uvm\<close> gives every frame of the address space back: the data frames of its pages, the tables on
  the way to them and the top table. Nothing outside the space is written.\<close>

theorem free_uvm_returns_all:
  assumes "paging_crate X" and "space_ok X avail_frames frame_alloc_ok s r"
  shows "\<exists>t. free_uvm X deallocate_frame r s = (Ok (), t) \<and> frame_alloc_ok (fa t) \<and>
    avail_frames (fa t) = avail_frames (fa s) \<union> space_frames X (pm s) r \<and>
    (\<forall>f. f \<notin> space_frames X (pm s) r \<longrightarrow> pm t f = pm s f)"
proof -
  obtain t where "free_uvm X deallocate_frame r s = (Ok (), t)" and "frame_alloc_ok (fa t)"
    and "avail_frames (fa t) = avail_frames (fa s) \<union> space_frames X (pm s) r"
    and "\<And>g. g \<notin> space_frames X (pm s) r \<Longrightarrow> pm t g = pm s g"
    by (rule paging.free_uvm_ok [OF paging_boot [OF assms(1)] assms(2)]) (assumption | blast)+
  then show ?thesis by blast
qed

theorem free_uvm_returns_all_witness:
  "\<exists>t. free_uvm x86_bits deallocate_frame 0x1000 sample_memory = (Ok (), t) \<and>
     0x1000 \<in> avail_frames (fa t)"
  using free_uvm_returns_all [OF bits.paging_crate_axioms sample_memory_ok] by auto

text \<open>C10. \<open>copy_uvm\<close> duplicates the user half for \<open>fork\<close>. The child is well formed, every page of it has the
  flags and the contents of the parent's page, all its frames were free (so it shares none with the parent),
  and its kernel half is that of the table in \<open>CR3\<close>. When it fails, the allocator is exhausted. No frame that
  was in use is written, so the parent is unchanged either way.\<close>

theorem copy_uvm_duplicates:
  assumes "paging_crate X" and "space_ok X avail_frames frame_alloc_ok s r" and "cr3 \<notin> avail_frames (fa s)"
    and "copy_uvm X allocate_frame cr3 r s = (res, t)"
  shows "((\<exists>c. res = Ok c \<and> space_ok X avail_frames frame_alloc_ok t c \<and>
      space_frames X (pm t) c = avail_frames (fa s) - avail_frames (fa t) \<and>
      (\<forall>k<2 ^ 35. map_option snd (page_view X (pm t) c k) = map_option snd (page_view X (pm s) r k)) \<and>
      (\<forall>i. 256 \<le> i \<and> i < 512 \<longrightarrow> pm t c i = pm s cr3 i)) \<or>
    (\<exists>e. res = Err e \<and> avail_frames (fa t) = {})) \<and>
    (\<forall>f. f \<notin> avail_frames (fa s) \<longrightarrow> pm t f = pm s f)"
  using paging.copy_uvm_ok [OF paging_boot [OF assms(1)] assms(2-4)] by blast

theorem copy_uvm_duplicates_witness:
  "\<exists>res t. copy_uvm x86_bits allocate_frame 0x1000 0x1000 sample_memory = (res, t) \<and> pm t 0x1000 = pm sample_memory 0x1000"
proof -
  obtain res t where r: "copy_uvm x86_bits allocate_frame 0x1000 0x1000 sample_memory = (res, t)" by fastforce
  have "\<forall>f. f \<notin> avail_frames (fa sample_memory) \<longrightarrow> pm t f = pm sample_memory f"
    using copy_uvm_duplicates [THEN conjunct2, OF bits.paging_crate_axioms sample_memory_ok _ r]
    by (simp add: sample_memory_avail sample_free_def)
  then show ?thesis using r by (simp add: sample_memory_avail sample_free_def)
qed

text \<open>\<open>new_uvm\<close> makes an address space without user pages whose kernel half is that of the table in \<open>CR3\<close>,
  from one free frame; it fails only when no frame is left.\<close>

theorem new_uvm_kernel_half:
  assumes "frame_alloc_ok (fa s)" and "cr3 \<notin> avail_frames (fa s)" and "phys_offset s \<noteq> None"
    and "new_uvm allocate_frame cr3 s = (res, t)"
  shows "(\<exists>c\<in>avail_frames (fa s). res = Ok c \<and> avail_frames (fa t) = avail_frames (fa s) - {c} \<and>
      pm t = (pm s)(c := \<lambda>i. if 256 \<le> i \<and> i < 512 then pm s cr3 i else 0)) \<or>
    (res = Err ''allocating frame failed'' \<and> avail_frames (fa s) = {} \<and> pm t = pm s)"
proof -
  have kh: "kernel_half (pm s) cr3 = (\<lambda>i. if 256 \<le> i \<and> i < 512 then pm s cr3 i else 0)"
    by (simp add: kernel_half_def fun_eq_iff)
  have "(\<exists>c. res = Ok c \<and> c \<in> avail_frames (fa s) \<and> avail_frames (fa t) = avail_frames (fa s) - {c} \<and> frame_alloc_ok (fa t) \<and>
      t = s\<lparr>fa := fa t, pm := (pm s)(c := kernel_half (pm s) cr3)\<rparr>) \<or>
    (res = Err ''allocating frame failed'' \<and> avail_frames (fa s) = {} \<and> avail_frames (fa t) = {} \<and> frame_alloc_ok (fa t) \<and>
      t = s\<lparr>fa := fa t\<rparr>)"
    by (rule boot.new_uvm_ok [OF assms])
  then show ?thesis
  proof
    assume "\<exists>c. res = Ok c \<and> c \<in> avail_frames (fa s) \<and> avail_frames (fa t) = avail_frames (fa s) - {c} \<and> frame_alloc_ok (fa t) \<and>
      t = s\<lparr>fa := fa t, pm := (pm s)(c := kernel_half (pm s) cr3)\<rparr>"
    then obtain c where c: "res = Ok c" "c \<in> avail_frames (fa s)" "avail_frames (fa t) = avail_frames (fa s) - {c}"
      and t: "t = s\<lparr>fa := fa t, pm := (pm s)(c := kernel_half (pm s) cr3)\<rparr>" by blast
    have "pm t = (pm s)(c := kernel_half (pm s) cr3)" by (subst t) simp
    then show ?thesis using c kh by auto
  next
    assume "res = Err ''allocating frame failed'' \<and> avail_frames (fa s) = {} \<and> avail_frames (fa t) = {} \<and> frame_alloc_ok (fa t) \<and>
      t = s\<lparr>fa := fa t\<rparr>"
    moreover from this have "pm t = pm s" by (metis mem.ext_inject mem.surjective mem.update_convs(2))
    ultimately show ?thesis by simp
  qed
qed

theorem new_uvm_kernel_half_witness:
  "\<exists>c t. new_uvm allocate_frame 0x1000 sample_memory = (Ok c, t)"
proof -
  obtain res t where r: "new_uvm allocate_frame 0x1000 sample_memory = (res, t)" by fastforce
  show ?thesis
    using new_uvm_kernel_half [OF _ _ _ r] sample_memory_ok r
    by (auto simp: space_ok_def sample_memory_avail sample_free_def)
qed

section \<open>Walking\<close>

text \<open>\<open>walk_pagetable\<close> with allocation ends at the page table of the address, or no frame is left; every
  page of the user half keeps its frame, flags and contents.\<close>

theorem walk_pagetable_reaches:
  assumes "paging_crate X" and "space_ok X avail_frames frame_alloc_ok s r" and "unat va < 2 ^ 47"
    and "walk_pagetable X allocate_frame r va True s = (res, t)"
  shows "evolves X avail_frames frame_alloc_ok r s t \<and>
    (\<forall>k<2 ^ 35. page_view X (pm t) r k = page_view X (pm s) r k) \<and>
    ((\<exists>p. res = Ok (Some (p, pt_index va)) \<and> tbl X (pm t) r (table_path va) = Some p) \<or>
     (res = Ok None \<and> avail_frames (fa t) = {}))"
proof -
  note P = paging_boot [OF assms(1)]
  have va: "user_va va" using assms(3) by (simp add: user_va_def)
  have W: "grows X avail_frames frame_alloc_ok r s t \<and>
    ((\<exists>p. res = Ok (Some (p, pt_index va)) \<and> tbl X (pm t) r (table_path va) = Some p) \<or>
     (res = Ok None \<and> avail_frames (fa t) = {}))"
    by (rule paging.walk_alloc [OF P assms(2) va assms(4)])
  then show ?thesis using grows_page_view [of X avail_frames frame_alloc_ok r s t] by (auto simp: grows_def)
qed

theorem walk_pagetable_reaches_witness:
  "\<exists>res t. walk_pagetable x86_bits allocate_frame 0x1000 0x400000 True sample_memory = (res, t) \<and>
     page_view x86_bits (pm t) 0x1000 0 = None"
proof -
  obtain res t where r: "walk_pagetable x86_bits allocate_frame 0x1000 0x400000 True sample_memory = (res, t)"
    by fastforce
  show ?thesis
    using walk_pagetable_reaches [OF bits.paging_crate_axioms sample_memory_ok _ r] r by auto
qed

text \<open>C11. The two readers of the page tables agree on user addresses: \<open>translate_addr_inner\<close> returns the frame
  that \<open>walk_pagetable\<close> finds plus the offset in the page, and \<open>None\<close> where the walk finds no present entry.\<close>

theorem translate_agrees_with_walk:
  assumes "paging_crate X" and "space_ok X avail_frames frame_alloc_ok s r" and "unat va < 2 ^ 47"
  shows "translate_addr_inner X (pm s) r va = Ok (case walk_pagetable X allocate_frame r va False s of
      (Ok (Some (t, i)), _) \<Rightarrow> if present X (pm s t i) then Some (pte_addr X (pm s t i) + of_nat (page_offset va)) else None
    | _ \<Rightarrow> None)"
proof -
  note P = paging_boot [OF assms(1)]
  have va: "user_va va" using assms(3) by (simp add: user_va_def)
  show ?thesis
    unfolding paging.translate_walk [OF P assms(2) va] paging.walk_find [OF P]
    by (simp add: va_path_table tbl_snoc split: option.split)
qed

theorem translate_agrees_with_walk_witness:
  "translate_addr_inner x86_bits (pm sample_memory) 0x1000 0x400123 = Ok None"
  using translate_agrees_with_walk [OF bits.paging_crate_axioms sample_memory_ok, of "0x400123"]
  by (simp add: machine.walk_find sample_memory_def sample_tbl table_path_def)

section \<open>Sizes\<close>

text \<open>\<open>page_round_up\<close> returns the least multiple of 4096 that is not below the size, and fails exactly when the
  multiple does not fit in 64 bits.\<close>

theorem page_round_up_least:
  "(page_round_up v :: ('s, u64) program) st =
    (if unat v + 4095 < 2 ^ 64 then (Ok (of_nat (4096 * ((unat v + 4095) div 4096))), st)
     else (Err ''alloc_uvm: size overflow'', st))"
proof (cases "unat v + 4095 < 2 ^ 64")
  case True
  have P: "PAGE_SIZE - 1 = mask 12" "unat (PAGE_SIZE - 1) = 4095"
    by (simp_all add: PAGE_SIZE_def mask_eq_exp_minus_1)
  have add: "checked_add v (PAGE_SIZE - 1) = Some (v + (PAGE_SIZE - 1))"
    using True by (simp add: checked_add_def P(2))
  have u: "unat (v + (PAGE_SIZE - 1)) = unat v + 4095"
    using checked_add_SomeD [OF add] P(2) by simp
  have "unat ((v + (PAGE_SIZE - 1)) AND NOT (PAGE_SIZE - 1)) = (unat v + 4095) - (unat v + 4095) mod 4096"
    unfolding P(1) and_not_mask_nat unfolding P(1) [symmetric] u by simp
  also have "\<dots> = 4096 * ((unat v + 4095) div 4096)"
    by (simp add: minus_mod_eq_mult_div)
  finally have w: "unat ((v + (PAGE_SIZE - 1)) AND NOT (PAGE_SIZE - 1)) = 4096 * ((unat v + 4095) div 4096)" .
  have "of_nat (unat ((v + (PAGE_SIZE - 1)) AND NOT (PAGE_SIZE - 1))) = (v + (PAGE_SIZE - 1)) AND NOT (PAGE_SIZE - 1)"
    by (simp only: of_nat_unat ucast_id)
  then have "(v + (PAGE_SIZE - 1)) AND NOT (PAGE_SIZE - 1) = of_nat (4096 * ((unat v + 4095) div 4096))"
    by (simp only: w)
  then show ?thesis
    using True add by (simp add: page_round_up_def)
next
  case False
  then have "checked_add v (PAGE_SIZE - 1) = None"
    by (simp add: checked_add_def PAGE_SIZE_def)
  then show ?thesis using False by (simp add: page_round_up_def)
qed

section \<open>The boot loader's memory map\<close>

definition region_ok :: "region \<Rightarrow> bool" where
  "region_ok r \<longleftrightarrow> unat (r_start r) mod 4096 = 0 \<and> unat (r_end r) mod 4096 = 0 \<and> unat (r_end r) \<le> 2 ^ 52"

text \<open>The memory map's regions are page aligned, below the end of physical memory, and disjoint.\<close>

definition map_ok :: "region list \<Rightarrow> bool" where
  "map_ok mm \<longleftrightarrow> (\<forall>r\<in>set mm. r_kind r = Usable \<longrightarrow> region_ok r) \<and>
     sorted_wrt (\<lambda>a b. r_kind a = Usable \<longrightarrow> r_kind b = Usable \<longrightarrow>
       unat (r_end a) \<le> unat (r_start b) \<or> unat (r_end b) \<le> unat (r_start a)) mm"

lemma region_address:
  assumes "region_ok r" and "k < (unat (r_end r) - unat (r_start r) + 4095) div 4096"
  shows "unat (r_start r + of_nat (4096 * k)) = unat (r_start r) + 4096 * k"
    and "unat (r_start r) + 4096 * k < unat (r_end r)"
    and "containing_frame (r_start r + of_nat (4096 * k)) = r_start r + of_nat (4096 * k)"
    and "phys_frame (r_start r + of_nat (4096 * k))"
proof -
  have k: "4096 * k < unat (r_end r) - unat (r_start r)"
    using assms(2) less_eq_div_iff_mult_less_eq [of 4096 "Suc k" "unat (r_end r) - unat (r_start r) + 4095"] by simp
  then show l: "unat (r_start r) + 4096 * k < unat (r_end r)" by simp
  have e: "unat (r_end r) \<le> 2 ^ 52" using assms(1) by (simp add: region_ok_def)
  show u: "unat (r_start r + of_nat (4096 * k)) = unat (r_start r) + 4096 * k"
    by (rule unat_add_of_nat) (use l e in simp)
  have "(unat (r_start r) + 4096 * k) mod 4096 = 0"
    using assms(1) by (simp add: region_ok_def)
  then have "unat ((r_start r + of_nat (4096 * k)) AND mask 12) = 0"
    unfolding unat_and_mask u by simp
  then have al: "page_aligned (r_start r + of_nat (4096 * k))" by (simp add: page_aligned_def unat_eq_0)
  show "containing_frame (r_start r + of_nat (4096 * k)) = r_start r + of_nat (4096 * k)"
    by (rule containing_frame_id [OF al])
  have "r_start r + of_nat (4096 * k) < 2 ^ 52"
    using l e unat_exp [where ?'a = 64 and k = 52] unfolding word_less_nat_alt u by simp
  then show "phys_frame (r_start r + of_nat (4096 * k))" using al by (simp add: phys_frame_def)
qed

lemma region_frames:
  assumes "region_ok r"
  shows "distinct (map containing_frame (region_addresses r))"
    and "f \<in> set (map containing_frame (region_addresses r)) \<Longrightarrow>
      phys_frame f \<and> unat (r_start r) \<le> unat f \<and> unat f < unat (r_end r)"
proof -
  let ?n = "(unat (r_end r) - unat (r_start r) + 4095) div 4096"
  have m: "map containing_frame (region_addresses r) = map (\<lambda>k. r_start r + of_nat (4096 * k)) [0..<?n]"
    unfolding region_addresses_def map_map comp_def
    by (rule map_cong [OF refl]) (use region_address(3) [OF assms] in \<open>simp only: atLeastLessThan_iff set_upt\<close>)
  have "inj_on (\<lambda>k. r_start r + of_nat (4096 * k)) {0..<?n}"
  proof (rule inj_onI)
    fix j k assume j: "j \<in> {0..<?n}" and k: "k \<in> {0..<?n}"
      and eq: "r_start r + of_nat (4096 * j) = r_start r + of_nat (4096 * k)"
    have "unat (r_start r) + 4096 * j = unat (r_start r) + 4096 * k"
      using region_address(1) [OF assms, of j] region_address(1) [OF assms, of k] j k
      unfolding eq by (simp only: atLeastLessThan_iff)
    then show "j = k" by simp
  qed
  then show "distinct (map containing_frame (region_addresses r))"
    unfolding m by (simp only: distinct_map distinct_upt set_upt simp_thms)
  show "phys_frame f \<and> unat (r_start r) \<le> unat f \<and> unat f < unat (r_end r)"
    if "f \<in> set (map containing_frame (region_addresses r))"
  proof -
    have "f \<in> (\<lambda>k. r_start r + of_nat (4096 * k)) ` {0..<?n}"
      using that unfolding m by (simp only: set_map set_upt)
    then obtain k where "k \<in> {0..<?n}" and f: "f = r_start r + of_nat (4096 * k)" by (rule imageE)
    then have "k < ?n" by (simp only: atLeastLessThan_iff)
    note A = region_address [OF assms \<open>k < ?n\<close>]
    show ?thesis unfolding f A(1) using A(2,4) by simp
  qed
qed

abbreviation map_frames :: "region list \<Rightarrow> u64 list" where
  "map_frames mm \<equiv> map containing_frame (concat (map region_addresses (filter (\<lambda>r. r_kind r = Usable) mm)))"

lemma usable_distinct:
  "map_ok mm \<Longrightarrow> distinct (map_frames mm) \<and>
     (\<forall>f\<in>set (map_frames mm). \<exists>r\<in>set mm. r_kind r = Usable \<and> f \<in> set (map containing_frame (region_addresses r)))"
proof (induction mm)
  case (Cons r mm)
  have ok: "map_ok mm" using Cons.prems by (simp add: map_ok_def)
  note IH = Cons.IH [OF ok]
  show ?case
  proof (cases "r_kind r = Usable")
    case True
    have rok: "region_ok r" using Cons.prems True by (simp add: map_ok_def)
    have "f \<notin> set (map_frames mm)" if f: "f \<in> set (map containing_frame (region_addresses r))" for f
    proof
      assume "f \<in> set (map_frames mm)"
      then obtain q where q: "q \<in> set mm" "r_kind q = Usable" "f \<in> set (map containing_frame (region_addresses q))"
        using IH by blast
      have "region_ok q" using Cons.prems q by (simp add: map_ok_def)
      then have "unat (r_start r) \<le> unat f \<and> unat f < unat (r_end r) \<and> unat (r_start q) \<le> unat f \<and> unat f < unat (r_end q)"
        using region_frames(2) [OF rok f] region_frames(2) [OF _ q(3)] by blast
      moreover have "unat (r_end r) \<le> unat (r_start q) \<or> unat (r_end q) \<le> unat (r_start r)"
        using Cons.prems True q by (simp add: map_ok_def)
      ultimately show False by arith
    qed
    moreover have split: "map_frames (r # mm) = map containing_frame (region_addresses r) @ map_frames mm"
      using True by simp
    ultimately show ?thesis
      unfolding split distinct_append set_append using region_frames(1) [OF rok] IH True by auto
  qed (use IH in simp)
qed simp

lemma frame_alloc_init_frames:
  assumes "map_ok mm"
  shows "frame_alloc_ok (frame_alloc_init mm) \<and> (\<forall>f\<in>avail_frames (frame_alloc_init mm).
    \<exists>r\<in>set mm. r_kind r = Usable \<and> unat (r_start r) \<le> unat f \<and> unat f + 4096 \<le> unat (r_end r))"
proof -
  have fl: "free_list (frame_alloc_init mm) =
      map_frames mm"
    by (simp add: free_list_def frame_alloc_init_def usable_frames_def)
  have each: "\<exists>r\<in>set mm. r_kind r = Usable \<and> phys_frame f \<and> unat (r_start r) \<le> unat f \<and> unat f + 4096 \<le> unat (r_end r)"
    if f: "f \<in> set (free_list (frame_alloc_init mm))" for f
  proof -
    obtain r where r: "r \<in> set mm" "r_kind r = Usable" "f \<in> set (map containing_frame (region_addresses r))"
      using usable_distinct [OF assms] f unfolding fl by blast
    then have ok: "region_ok r" using assms by (simp add: map_ok_def)
    note R = region_frames(2) [OF ok r(3)]
    have "unat f mod 4096 = 0"
    proof -
      have "unat (f AND mask 12) = 0" using R by (simp add: phys_frame_def page_aligned_def)
      then show ?thesis unfolding unat_and_mask by simp
    qed
    moreover have "unat (r_end r) mod 4096 = 0" using ok by (simp add: region_ok_def)
    ultimately have "unat f + 4096 \<le> unat (r_end r)"
      using R by (metis dvd_eq_mod_eq_0 dvd_def less_eq_Suc_le mult_Suc_right mult_le_cancel1 nat_mult_less_cancel1 add.commute)
    then show ?thesis using r R by blast
  qed
  have "distinct (free_list (frame_alloc_init mm))" unfolding fl using usable_distinct [OF assms] by blast
  then show ?thesis
    using each by (fastforce simp: frame_alloc_ok_def avail_frames_def)
qed

text \<open>C12. When the usable regions of the memory map are page aligned and disjoint, the allocator that
  \<open>memory::init\<close> makes of it is in order: no frame is handed out twice, and every frame lies in a usable region.\<close>

theorem frame_alloc_init_ok:
  assumes "map_ok mm"
  shows "frame_alloc_ok (frame_alloc_init mm) \<and> (\<forall>f\<in>avail_frames (frame_alloc_init mm).
    \<exists>r\<in>set mm. r_kind r = Usable \<and> unat (r_start r) \<le> unat f \<and> unat f + 4096 \<le> unat (r_end r))"
  by (rule frame_alloc_init_frames [OF assms])

theorem frame_alloc_init_ok_witness:
  "frame_alloc_ok (frame_alloc_init [\<lparr>r_start = 0x1000, r_end = 0x3000, r_kind = Usable\<rparr>,
     \<lparr>r_start = 0x3000, r_end = 0x5000, r_kind = OtherKind\<rparr>, \<lparr>r_start = 0x5000, r_end = 0x6000, r_kind = Usable\<rparr>])"
  by (rule frame_alloc_init_ok [THEN conjunct1]) (simp add: map_ok_def region_ok_def)

text \<open>The alignment is needed. Of two adjacent usable regions that meet inside a page, both contribute that
  page, and the allocator hands out the same frame twice.\<close>

theorem unaligned_regions_same_frame:
  "\<exists>a b. allocate_frame (frame_alloc_init [\<lparr>r_start = 0x1000, r_end = 0x1800, r_kind = Usable\<rparr>,
       \<lparr>r_start = 0x1800, r_end = 0x2000, r_kind = Usable\<rparr>]) = (Some 0x1000, a) \<and>
     allocate_frame a = (Some 0x1000, b)"
proof -
  have "usable_frames (frame_alloc_init [\<lparr>r_start = 0x1000, r_end = 0x1800, r_kind = Usable\<rparr>,
       \<lparr>r_start = 0x1800, r_end = 0x2000, r_kind = Usable\<rparr>]) = [0x1000, 0x1000]"
    by (simp add: usable_frames_def frame_alloc_init_def region_addresses_def containing_frame_def mask_eq_exp_minus_1)
  then show ?thesis
    by (simp add: allocate_frame_def frame_alloc_init_def usable_frames_def)
qed

end
