(* ===== verification/SchedulerProps.thy ===== *)
theory SchedulerProps
  imports Sample
begin

text \<open>
  The properties of the scheduler and of the kernel's entry and exit code, with instances on the
  sample kernel.
\<close>

section \<open>Sample schedules\<close>

lemma sample_sched_ok:
  assumes "length ts \<le> NTHREAD" and "length ps \<le> NPROCESS" and "c < length ts"
    and "\<And>i. i < length ts \<Longrightarrow> state (ts ! i) = Running \<Longrightarrow> i = c"
    and "\<And>i. i < length ts \<Longrightarrow> thread_ready sample_env (sample_kernel ts ps (Some c)) (ts ! i)"
  shows "sched_ok sample_env (sample_kernel ts ps (Some c))"
proof -
  let ?s = "sample_kernel ts ps (Some c)"
  have th: "k_threads ?s ! i = (if i < length ts then ts ! i else new_thread)" if "i < NTHREAD" for i
    using that by (simp add: sample_nth)
  have "cur_ok (Some c)" using assms(1,3) by (simp add: cur_ok_def scan_start_def)
  moreover have "\<forall>i<NTHREAD. state (k_threads ?s ! i) = Running \<longrightarrow> current_tid (k_cpu ?s) = Some i"
    using assms(4) th by (auto split: if_splits)
  moreover have "\<forall>i<NTHREAD. state (k_threads ?s ! i) \<in> {Runnable, Running} \<longrightarrow> thread_ready sample_env ?s (k_threads ?s ! i)"
    using assms(5) th by (auto split: if_splits)
  ultimately show ?thesis
    unfolding sched_ok_def using sample_tables [OF assms(1,2)] by simp
qed

lemma sample_ready:
  assumes "i < 8" and "p < NPROCESS" and "k_procs s ! p = Some pr" and "page_table pr \<noteq> None"
  shows "thread_ready sample_env s (sample_thread i p st)"
proof -
  have "i \<in> {0, 1, 2, 3, 4, 5, 6, 7}" using assms(1) by auto
  then show ?thesis
    using assms(2-)
    by (auto simp: thread_ready_def stack_top_def sample_stack_def STACK_SIZE_def TRAPFRAME_SIZE_def x86_bits_def)
qed

text \<open>Two threads of process 0; the second one is running.\<close>

definition two_on :: "nat \<Rightarrow> thread_state \<Rightarrow> thread_state \<Rightarrow> u64 kernel" where
  "two_on c a b = sample_kernel [sample_thread 0 0 a, sample_thread 1 0 b] [Some (sample_process 0 0 0x1000)] (Some c)"

abbreviation two_threads :: "thread_state \<Rightarrow> thread_state \<Rightarrow> u64 kernel" where
  "two_threads \<equiv> two_on 1"

lemma two_on_ok:
  assumes "c < 2" and "\<And>i. i < 2 \<Longrightarrow> [a, b] ! i = Running \<Longrightarrow> i = c"
  shows "sched_ok sample_env (two_on c a b)"
  unfolding two_on_def
proof (rule sample_sched_ok)
  fix i assume i: "i < length [sample_thread 0 0 a, sample_thread 1 0 b]"
  have "\<exists>st. [sample_thread 0 0 a, sample_thread 1 0 b] ! i = sample_thread i 0 st"
    using i by (cases i) auto
  then show "thread_ready sample_env (sample_kernel [sample_thread 0 0 a, sample_thread 1 0 b]
      [Some (sample_process 0 0 0x1000)] (Some c)) ([sample_thread 0 0 a, sample_thread 1 0 b] ! i)"
    using i sample_ready [of i 0 _ "sample_process 0 0 0x1000"] by (auto simp: sample_nth NPROCESS_def)
  assume "state ([sample_thread 0 0 a, sample_thread 1 0 b] ! i) = Running"
  then show "i = c" using assms(2) [of i] i by (cases i) auto
qed (use assms(1) in \<open>simp_all add: NTHREAD_def NPROCESS_def\<close>)

lemma two_threads_ok: "a \<noteq> Running \<Longrightarrow> sched_ok sample_env (two_threads a b)"
  by (rule two_on_ok) (auto simp: less_Suc_eq numeral_2_eq_2)

lemma two_threads_nth:
  "k_threads (two_on c a b) ! 0 = sample_thread 0 0 a"
  "k_threads (two_on c a b) ! 1 = sample_thread 1 0 b"
  "k_threads (two_on c a b) ! Suc 0 = sample_thread 1 0 b"
  "2 \<le> i \<Longrightarrow> i < NTHREAD \<Longrightarrow> k_threads (two_on c a b) ! i = new_thread"
  "current_tid (k_cpu (two_on c a b)) = Some c"
  "length (k_threads (two_on c a b)) = NTHREAD"
  by (simp_all add: two_on_def sample_nth) (simp add: sample_kernel_def NTHREAD_def)

lemma two_runnable:
  assumes "t < NTHREAD" and "state (k_threads (two_on c a b) ! t) = Runnable"
  shows "t = 0 \<and> a = Runnable \<or> t = 1 \<and> b = Runnable"
proof (cases "2 \<le> t")
  case True
  then show ?thesis using assms two_threads_nth(4) by simp
next
  case False
  then have "t = 0 \<or> t = 1" by arith
  then show ?thesis using assms(2) by (elim disjE) (simp_all add: two_threads_nth)
qed

text \<open>The current thread \<open>c\<close> lets the other one run when that is runnable, and goes on by itself when not.\<close>

lemma two_next:
  assumes "c < 2" and "[a, b] ! n = Runnable" and "n < 2" and "n \<noteq> c \<or> [a, b] ! (1 - n) \<noteq> Runnable"
  shows "find_next_runnable_thread (k_threads (two_on c a b)) (Some c) = Some n"
proof -
  have c: "scan_start (Some c) = c" "scan_start (Some c) < NTHREAD" using assms(1) by (simp_all add: scan_start_def NTHREAD_def)
  have n: "n = 0 \<or> n = 1" "c = 0 \<or> c = 1" using assms(1,3) by auto
  have "ahead c n \<le> ahead c t" if "t < NTHREAD" "state (k_threads (two_on c a b) ! t) = Runnable" for t
    using two_runnable [OF that] n assms(2,4) by (auto simp: ahead_def NTHREAD_def)
  then show ?thesis
    unfolding find_next_Some_iff [OF c(2)] c(1) using n assms(2) by (auto simp: two_threads_nth NTHREAD_def)
qed

section \<open>Choosing the next thread\<close>

text \<open>C14. \<open>find_next_runnable_thread\<close> returns the runnable thread that comes first in cyclic order after the current
  one, the current one itself coming last, and \<open>None\<close> exactly when no thread of the table is runnable.\<close>

theorem find_next_is_nearest:
  assumes "cur = None \<or> (\<exists>c<NTHREAD. cur = Some c)"
  shows "(find_next_runnable_thread table cur = Some n \<longleftrightarrow>
      n < NTHREAD \<and> state (table ! n) = Runnable \<and>
      (\<forall>t<NTHREAD. state (table ! t) = Runnable \<longrightarrow>
         ahead (case cur of None \<Rightarrow> NTHREAD - 1 | Some c \<Rightarrow> c) n \<le> ahead (case cur of None \<Rightarrow> NTHREAD - 1 | Some c \<Rightarrow> c) t)) \<and>
    (find_next_runnable_thread table cur = None \<longleftrightarrow> (\<forall>t<NTHREAD. state (table ! t) \<noteq> Runnable))"
proof -
  have "scan_start cur < NTHREAD" using assms by (auto simp: scan_start_def NTHREAD_def)
  from find_next_Some_iff [OF this] find_next_None_iff [OF this] show ?thesis
    unfolding scan_start_def by blast
qed

theorem find_next_is_nearest_witness:
  "find_next_runnable_thread (k_threads (two_threads Runnable Zombie)) (Some 1) = Some 0"
  using find_next_is_nearest [of "Some 1" "k_threads (two_threads Runnable Zombie)" 0]
    two_runnable [of _ 1 Runnable Zombie] by (auto simp: two_threads_nth NTHREAD_def)

lemma round_picks:
  assumes "scheduler_round E s = (Ok (Some n), s')" and "sched_ok E s"
  shows "find_next_runnable_thread (k_threads s) (current_tid (k_cpu s)) = Some n"
proof -
  have "find_next_runnable_thread (k_threads s) (current_tid (k_cpu s)) \<noteq> None"
    using scheduler_round_none [of s E] assms(1) by auto
  then obtain k where k: "find_next_runnable_thread (k_threads s) (current_tid (k_cpu s)) = Some k" by blast
  then show ?thesis using scheduler_round_some [OF assms(2) k] assms(1) by (metis option.inject prod.inject res.inject(1))
qed



text \<open>C16. A round of the scheduler from a well-formed state does not panic and keeps the state well formed. When it
  switches to a thread, that thread was runnable and is the current one afterwards; \<open>CR3\<close> is its page table, the stacks
  for system calls and interrupts are its own, the registers are those of its context, and its saved user stack
  pointer is in place.\<close>

theorem scheduler_round_dispatches:
  assumes "sched_ok E s"
  shows "\<exists>r s'. scheduler_round E s = (Ok r, s') \<and> sched_ok E s' \<and>
    (case r of None \<Rightarrow> s' = s\<lparr>k_if := True\<rparr> \<and> (\<forall>t<NTHREAD. state (k_threads s ! t) \<noteq> Runnable)
     | Some n \<Rightarrow> n < NTHREAD \<and> state (k_threads s ! n) = Runnable \<and> dispatched n s s')"
proof (cases "find_next_runnable_thread (k_threads s) (current_tid (k_cpu s))")
  case None
  have "scan_start (current_tid (k_cpu s)) < NTHREAD" using sched_okD(3) [OF assms] by (simp add: cur_ok_def)
  then have "\<forall>t<NTHREAD. state (k_threads s ! t) \<noteq> Runnable" using find_next_None_iff None by blast
  then show ?thesis
    using scheduler_round_none [OF None, of E] scheduler_round_ok [OF assms] by fastforce
next
  case (Some n)
  obtain s' where s': "scheduler_round E s = (Ok (Some n), s')" "dispatched n s s'"
    using scheduler_round_some [OF assms Some] .
  have n: "n < NTHREAD" "state (k_threads s ! n) = Runnable"
    using rr.pick_runnable [OF sched_okD(3) [OF assms] Some] by blast+
  then show ?thesis using s' dispatched_sched_ok [OF assms n s'(2)] by fastforce
qed

theorem scheduler_round_dispatches_witness:
  "\<exists>r s'. scheduler_round sample_env (two_threads Runnable Runnable) = (Ok r, s') \<and> sched_ok sample_env s'"
  using scheduler_round_dispatches [OF two_threads_ok [of Runnable Runnable]] by auto

section \<open>Yielding\<close>

text \<open>C17. A thread that goes back to the scheduler, from the timer (\<open>on_yield\<close>) or from a system call
  (\<open>on_syscall_yield\<close>), resumes where it was. Whatever turns other threads take in between, once a round picks it again
  the processor has its callee-saved registers, flags, stack pointer and return address, the user stack pointer is the
  thread's, and the scheduler's state is well formed.\<close>

theorem yield_returns:
  assumes "sched_ok E s" and "current_tid (k_cpu s) = Some c" and "state (k_threads s ! c) = Running"
    and "(if from_call then on_syscall_yield else on_yield) s = (Ok True, s1)"
    and "turns_of_others E c s1 s2" and "scheduler_round E s2 = (Ok (Some c), s3)"
  shows "k_regs s3 = (k_regs s)\<lparr>rsp := rsp (k_regs s) + 8, rip := k_stacks s (rsp (k_regs s))\<rparr> \<and>
    saved_user_rsp (k_cpu s3) = (if from_call then saved_user_rsp (k_cpu s) else rsp3 (ctx (k_threads s ! c))) \<and>
    state (k_threads s1 ! c) = (if from_call then Running else Runnable) \<and> sched_ok E s3"
proof -
  have c: "c < NTHREAD" "c < length (k_threads s)" using sched_okD(1,6) [OF assms(1)] assms(2) by simp_all
  have S: "suspended c (if from_call then Running else Runnable)
      (if from_call then saved_user_rsp (k_cpu s) else rsp3 (ctx (k_threads s ! c))) s s1"
  proof (cases from_call)
    case True
    then show ?thesis using on_syscall_yield_run [OF assms(2) c(2)] assms(3,4) by (metis prod.inject)
  next
    case False
    then show ?thesis using on_yield_run [OF assms(2) c(2) assms(3)] assms(4) by (metis prod.inject)
  qed
  have "sched_ok E s1"
    by (rule suspended_sched_ok [OF assms(1,2) S]) (simp_all add: assms(3))
  from suspended_resumes [OF S this c(1) assms(5,6)] show ?thesis
    using S by (auto simp: returned_def suspended_def)
qed

theorem yield_returns_witness:
  "\<exists>s1 s2 s3. on_yield (two_threads Runnable Running) = (Ok True, s1) \<and> s2 \<noteq> s1 \<and>
     turns_of_others sample_env 1 s1 s2 \<and> scheduler_round sample_env s2 = (Ok (Some 1), s3) \<and>
     k_regs s3 = (k_regs (two_threads Runnable Running))\<lparr>rsp := rsp (k_regs (two_threads Runnable Running)) + 8, rip := 0\<rparr>"
proof -
  let ?s = "two_threads Runnable Running"
  have ok: "sched_ok sample_env ?s" by (rule two_threads_ok) simp
  have cur: "current_tid (k_cpu ?s) = Some 1" and len: "1 < length (k_threads ?s)"
    and run: "state (k_threads ?s ! 1) = Running"
    by (simp_all add: two_threads_nth NTHREAD_def)
  obtain s1 where s1: "on_yield ?s = (Ok True, s1)" and d1: "suspended 1 Runnable (rsp3 (ctx (k_threads ?s ! 1))) ?s s1"
    by (rule on_yield_run [OF cur len run])
  have ok1: "sched_ok sample_env s1" by (rule suspended_sched_ok [OF ok cur d1]) (simp_all add: two_threads_nth)
  have len1: "length (k_threads s1) = NTHREAD" by (rule sched_okD(1) [OF ok1])
  have t1: "state (k_threads s1 ! 0) = Runnable" "state (k_threads s1 ! 1) = Runnable" "current_tid (k_cpu s1) = Some 1"
    using d1 by (auto simp: suspended_def two_threads_nth NTHREAD_def)
  have "state (k_threads s1 ! t) \<noteq> Runnable" if "1 < t" "t < NTHREAD" for t
    using d1 that by (simp add: suspended_def two_threads_nth(4,6))
  then have "find_next_runnable_thread (k_threads s1) (Some 1) = Some 0"
    by (subst find_next_Some_iff) (auto simp: scan_start_def NTHREAD_def ahead_def t1)
  then obtain a where a: "scheduler_round sample_env s1 = (Ok (Some 0), a)" and da: "dispatched 0 s1 a"
    using scheduler_round_some [OF ok1] t1(3) by metis
  have oka: "sched_ok sample_env a"
    by (rule dispatched_sched_ok [OF ok1 _ t1(1) da]) (simp add: NTHREAD_def)
  have ta: "state (k_threads a ! 0) = Running" "state (k_threads a ! 1) = Runnable" "current_tid (k_cpu a) = Some 0"
    "length (k_threads a) = NTHREAD"
    using da t1 by (auto simp: dispatched_def len1 NTHREAD_def)
  obtain s2 where s2: "on_yield a = (Ok True, s2)" and d2: "suspended 0 Runnable (rsp3 (ctx (k_threads a ! 0))) a s2"
    by (rule on_yield_run [OF ta(3) _ ta(1)]) (simp_all add: ta(4) NTHREAD_def)
  have ok2: "sched_ok sample_env s2" by (rule suspended_sched_ok [OF oka ta(3) d2]) (simp_all add: ta)
  have turns: "turns_of_others sample_env 1 s1 s2"
    by (rule turns_of_others.more [OF _ turns_of_others.none], rule turn.by_yield [OF a _ _ oka ta(1) s2])
      (simp_all add: leaves_def)
  have t2: "state (k_threads s2 ! 1) = Runnable" "current_tid (k_cpu s2) = Some 0"
    using d2 ta by (auto simp: suspended_def NTHREAD_def)
  have "find_next_runnable_thread (k_threads s2) (Some 0) = Some 1"
    by (subst find_next_Some_iff) (auto simp: scan_start_def NTHREAD_def ahead_def t2 t2 [simplified])
  then obtain s3 where s3: "scheduler_round sample_env s2 = (Ok (Some 1), s3)"
    using scheduler_round_some [OF ok2] t2(2) by metis
  have st: "k_stacks ?s = (\<lambda>_. 0)" by (simp add: two_on_def)
  have "s2 \<noteq> s1" using t1(3) t2(2) by auto
  then show ?thesis
    using yield_returns [of sample_env ?s 1 False s1 s2 s3] ok cur run s1 turns s3 st by auto
qed



section \<open>Entering and leaving the kernel\<close>

text \<open>C21. A system call hands the dispatcher the number, the three arguments and a trap frame with the user's
  registers, and returns to user mode behind the \<open>syscall\<close> instruction with every register as it was, except \<open>rax\<close>, which
  holds the result, and \<open>r8\<close>, \<open>r9\<close> and \<open>r10\<close>, which keep what the kernel left in them. The dispatcher may use the
  stack as it likes but for the frame. The frame's last two fields are not saved registers: they are the two words above
  the kernel stack.\<close>

theorem syscall_round_trip:
  assumes "\<not> kernel_gs m" and "m_kernel_syscall_rsp m = p + 96"
    and "\<forall>k. sp (d k) = sp k \<and> kernel_gs (d k) = kernel_gs k \<and> m_saved_user_rsp (d k) = m_saved_user_rsp k"
    and "\<forall>k i. i < 12 \<longrightarrow> stack (d k) (sp k + 8 * i) = stack k (sp k + 8 * i)"
  shows "\<exists>k u. exec_code syscall_prologue m = Some k \<and>
    gpr k RDI = gpr m RAX \<and> gpr k RSI = gpr m RDI \<and> gpr k RDX = gpr m RSI \<and> gpr k RCX = gpr m RDX \<and> gpr k R8 = sp k \<and>
    saved_frame m (tf_load (stack k) (sp k)) \<and>
    tf_rip (tf_load (stack k) (sp k)) = stack m (p + 96) \<and> tf_rsp (tf_load (stack k) (sp k)) = stack m (p + 104) \<and>
    syscall_entry d m = Some u \<and> gpr u RAX = gpr (d k) RAX \<and>
    (\<forall>r. r \<notin> {RAX, R8, R9, R10} \<longrightarrow> gpr u r = gpr m r) \<and> (\<forall>r\<in>{R8, R9, R10}. gpr u r = gpr (d k) r) \<and>
    sp u = sp m \<and> ip u = gpr m RCX \<and> flags u = gpr m R11 \<and> user_mode u \<and> \<not> kernel_gs u"
proof -
  obtain k where k: "exec_code syscall_prologue m = Some k" and kk: "k = m\<lparr>kernel_gs := True, m_saved_user_rsp := sp m, sp := p,
    stack := (stack m)(p + 88 := gpr m RCX, p + 80 := gpr m R11, p + 72 := gpr m RAX, p + 64 := gpr m RDI,
      p + 56 := gpr m RSI, p + 48 := gpr m RDX, p + 40 := gpr m RBX, p + 32 := gpr m RBP,
      p + 24 := gpr m R12, p + 16 := gpr m R13, p + 8 := gpr m R14, p := gpr m R15),
    gpr := (gpr m)(R10 := gpr m RAX, R8 := p, RCX := gpr m RDX, RDX := gpr m RSI, RSI := gpr m RDI,
      RDI := gpr m RAX)\<rparr>"
    using prologue_exec [OF assms(1,2)] by blast
  have f: "sp k = p" "kernel_gs (d k)" "sp (d k) = p" "m_saved_user_rsp (d k) = sp m"
    using assms(3) kk by simp_all
  note F = assms(4) [rule_format, of _ k, unfolded f(1)]
  have st: "stack (d k) p = gpr m R15" "stack (d k) (p + 8) = gpr m R14" "stack (d k) (p + 16) = gpr m R13"
    "stack (d k) (p + 24) = gpr m R12" "stack (d k) (p + 32) = gpr m RBP" "stack (d k) (p + 40) = gpr m RBX"
    "stack (d k) (p + 48) = gpr m RDX" "stack (d k) (p + 56) = gpr m RSI" "stack (d k) (p + 64) = gpr m RDI"
    "stack (d k) (p + 80) = gpr m R11" "stack (d k) (p + 88) = gpr m RCX"
    using F [of 0] F [of 1] F [of 2] F [of 3] F [of 4] F [of 5] F [of 6] F [of 7] F [of 8] F [of 10] F [of 11]
    by (simp_all add: kk)
  note E = epilogue_exec [OF f(2,3), unfolded st f(4)]
  have "\<forall>r. r \<notin> {RAX, R8, R9, R10} \<longrightarrow> gpr (the (exec_code syscall_epilogue (d k))) r = gpr m r"
    unfolding E by (intro allI, case_tac r) simp_all
  moreover have "saved_frame m (tf_load (stack k) p)" "tf_rip (tf_load (stack k) p) = stack m (p + 96)"
    "tf_rsp (tf_load (stack k) p) = stack m (p + 104)"
    unfolding kk by (simp_all add: tf_load_pushed saved_frame_def)
  moreover have "gpr k RDI = gpr m RAX" "gpr k RSI = gpr m RDI" "gpr k RDX = gpr m RSI" "gpr k RCX = gpr m RDX" "gpr k R8 = p"
    unfolding kk by simp_all
  ultimately show ?thesis
    using k f(1) E by (auto simp: syscall_entry_def)
qed

text \<open>A dispatcher that clobbers the caller-saved registers and returns 7.\<close>

theorem syscall_round_trip_witness:
  "\<exists>u. syscall_entry (\<lambda>k. k\<lparr>gpr := (gpr k)(RAX := 7, RDI := 0, R8 := 0, R9 := 1, R10 := 2)\<rparr>)
      \<lparr>gpr = (\<lambda>_. 5), sp = 0x7000, flags = 0, ip = 0x400000, user_mode = True, kernel_gs = False, stack = (\<lambda>_. 0),
       m_saved_user_rsp = 0, m_kernel_syscall_rsp = 0x9000\<rparr> = Some u \<and> gpr u RAX = 7 \<and> gpr u RDI = 5 \<and> sp u = 0x7000"
  using syscall_round_trip [of "\<lparr>gpr = (\<lambda>_. 5), sp = 0x7000, flags = 0, ip = 0x400000, user_mode = True, kernel_gs = False,
       stack = (\<lambda>_. 0), m_saved_user_rsp = 0, m_kernel_syscall_rsp = 0x9000\<rparr>" "0x9000 - 96"
      "\<lambda>k. k\<lparr>gpr := (gpr k)(RAX := 7, RDI := 0, R8 := 0, R9 := 1, R10 := 2)\<rparr>"]
  by auto

end
