(* ===== verification/KHeap.thy ===== *)
theory KHeap
  imports Kernel
begin

text \<open>
  The kernel's global allocator: allocator/fixed_size_block.rs, with \<open>init_heap\<close> of
  allocator/mod.rs. It keeps a free list for each of nine block sizes, whose nodes lie in the free
  blocks themselves, and takes new blocks from the crate linked_list_allocator, whose
  \<open>allocate_first_fit\<close> and \<open>deallocate\<close> are parameters. \<open>nodes\<close> is the word at each address of
  the heap, a node being one word, the address of the next node or 0.

  The locale \<open>heap\<close> is the contract of an allocator. The fixed-size allocator keeps it over any
  fallback that does (\<open>fixed_blocks\<close>), by way of an abstract allocator whose free lists are lists.
\<close>

section \<open>Layouts\<close>

record layout =
  lsize :: nat
  lalign :: nat

text \<open>What \<open>Layout::from_size_align\<close> ensures, that \<open>GlobalAlloc\<close> is not called for no bytes, and that the kernel
  asks for no alignment beyond a page.\<close>

definition layout_ok :: "layout \<Rightarrow> bool" where
  "layout_ok l \<longleftrightarrow> 0 < lsize l \<and> (\<exists>k. lalign l = 2 ^ k) \<and> lalign l \<le> 4096 \<and> lsize l + lalign l \<le> 2 ^ 63"

definition BLOCK_SIZES :: "nat list" where
  "BLOCK_SIZES = [8, 16, 32, 64, 128, 256, 512, 1024, 2048]"

definition list_index :: "layout \<Rightarrow> nat option" where
  "list_index l = (let required = max (lsize l) (lalign l) in
     first_index (length BLOCK_SIZES) (\<lambda>i. required \<le> BLOCK_SIZES ! i))"

definition class_layout :: "nat \<Rightarrow> layout" where
  "class_layout i = \<lparr>lsize = BLOCK_SIZES ! i, lalign = BLOCK_SIZES ! i\<rparr>"

text \<open>The layout that a block for \<open>l\<close> is cut with.\<close>

definition cut :: "layout \<Rightarrow> layout" where
  "cut l = (case list_index l of Some i \<Rightarrow> class_layout i | None \<Rightarrow> l)"

lemma length_BLOCK_SIZES [simp]: "length BLOCK_SIZES = 9"
  by (simp add: BLOCK_SIZES_def)

lemma block_size_power: "i < 9 \<Longrightarrow> BLOCK_SIZES ! i = 2 ^ (i + 3)"
  by (auto simp: BLOCK_SIZES_def less_Suc_eq numeral_eq_Suc)

lemma list_index_Some:
  "list_index l = Some i \<Longrightarrow> i < 9 \<and> lsize l \<le> BLOCK_SIZES ! i \<and> lalign l \<le> BLOCK_SIZES ! i"
  by (auto simp: list_index_def first_index_Some_iff)

lemma class_layout_ok: "i < 9 \<Longrightarrow> layout_ok (class_layout i)"
proof -
  assume i: "i < 9"
  have "(2 :: nat) ^ (i + 3) \<le> 2 ^ 11" using i by (intro power_increasing) simp_all
  then show ?thesis
    using i by (auto simp: layout_ok_def class_layout_def block_size_power intro!: exI [of _ "i + 3"])
qed

text \<open>The crate's allocator, or any other, as a first-fit allocator that returns a result.\<close>

definition as_option :: "(layout \<Rightarrow> 's \<Rightarrow> u64 \<times> 's) \<Rightarrow> layout \<Rightarrow> 's \<Rightarrow> u64 option \<times> 's" where
  "as_option al l s = (case al l s of (p, t) \<Rightarrow> (if p = 0 then None else Some p, t))"

lemma list_index_class: "i < 9 \<Longrightarrow> list_index (class_layout i) = Some i"
  by (auto simp: list_index_def class_layout_def first_index_Some_iff block_size_power)

lemma cut_ok: "layout_ok l \<Longrightarrow> layout_ok (cut l)"
  using list_index_Some class_layout_ok by (auto simp: cut_def split: option.splits)

lemma cut_fits: "lsize l \<le> lsize (cut l)"
  using list_index_Some by (auto simp: cut_def class_layout_def split: option.splits)

lemma cut_align:
  assumes "layout_ok l"
  shows "lalign l dvd lalign (cut l)"
proof (cases "list_index l")
  case (Some i)
  obtain k where k: "lalign l = 2 ^ k" using assms by (auto simp: layout_ok_def)
  have "k \<le> i + 3" using list_index_Some [OF Some] k by (auto simp: block_size_power simp flip: power_add)
  then show ?thesis using list_index_Some [OF Some] k Some by (simp add: cut_def class_layout_def block_size_power le_imp_power_dvd)
qed (simp add: cut_def)

section \<open>The contract of an allocator\<close>

text \<open>\<open>separate g B\<close>: the blocks \<open>B\<close>, a block of layout \<open>l\<close> having \<open>g l\<close> bytes, lie in memory, are aligned
  and do not overlap.\<close>

definition separate :: "(layout \<Rightarrow> nat) \<Rightarrow> (u64 \<times> layout) set \<Rightarrow> bool" where
  "separate g B \<longleftrightarrow>
     (\<forall>(p, l)\<in>B. layout_ok l \<and> p \<noteq> 0 \<and> unat p + g l \<le> 2 ^ 64 \<and> lalign l dvd unat p) \<and>
     (\<forall>(p, l)\<in>B. \<forall>(q, k)\<in>B. (p, l) \<noteq> (q, k) \<longrightarrow> unat p + g l \<le> unat q \<or> unat q + g k \<le> unat p)"

lemma separateD:
  assumes "separate g B" and "(p, l) \<in> B"
  shows "layout_ok l" and "p \<noteq> 0" and "unat p + g l \<le> 2 ^ 64" and "lalign l dvd unat p"
  using bspec [OF conjunct1 [OF assms(1) [unfolded separate_def]] assms(2)] by simp_all

lemma separate_apart:
  assumes "separate g B" and "(p, l) \<in> B" and "(q, k) \<in> B" and "(p, l) \<noteq> (q, k)"
  shows "unat p + g l \<le> unat q \<or> unat q + g k \<le> unat p"
proof -
  note all = bspec [OF conjunct2 [OF assms(1) [unfolded separate_def]] assms(2), unfolded prod.case]
  from bspec [OF all assms(3), unfolded prod.case] show ?thesis using assms(4) by (rule mp)
qed

lemma separateI:
  assumes "\<And>p l. (p, l) \<in> B \<Longrightarrow> layout_ok l \<and> p \<noteq> 0 \<and> unat p + g l \<le> 2 ^ 64 \<and> lalign l dvd unat p"
    and "\<And>p l q k. (p, l) \<in> B \<Longrightarrow> (q, k) \<in> B \<Longrightarrow> (p, l) \<noteq> (q, k) \<Longrightarrow> unat p + g l \<le> unat q \<or> unat q + g k \<le> unat p"
  shows "separate g B"
  unfolding separate_def
proof (intro conjI ballI)
  fix x assume x: "x \<in> B"
  obtain p l where e: "x = (p, l)" by fastforce
  show "case x of (p, l) \<Rightarrow> layout_ok l \<and> p \<noteq> 0 \<and> unat p + g l \<le> 2 ^ 64 \<and> lalign l dvd unat p"
    unfolding e prod.case by (rule assms(1)) (use x e in simp)
  show "case x of (p, l) \<Rightarrow> \<forall>(q, k)\<in>B. (p, l) \<noteq> (q, k) \<longrightarrow> unat p + g l \<le> unat q \<or> unat q + g k \<le> unat p"
    unfolding e prod.case
  proof
    fix y assume y: "y \<in> B"
    obtain q k where f: "y = (q, k)" by fastforce
    show "case y of (q, k) \<Rightarrow> (p, l) \<noteq> (q, k) \<longrightarrow> unat p + g l \<le> unat q \<or> unat q + g k \<le> unat p"
      unfolding f prod.case by (rule impI, rule assms(2)) (use x y e f in simp_all)
  qed
qed

lemma separate_subset:
  assumes "separate g B" and "A \<subseteq> B"
  shows "separate g A"
proof (rule separateI)
  show "layout_ok l \<and> p \<noteq> 0 \<and> unat p + g l \<le> 2 ^ 64 \<and> lalign l dvd unat p" if "(p, l) \<in> A" for p l
    using separateD [OF assms(1) subsetD [OF assms(2) that]] by (intro conjI)
  show "unat p + g l \<le> unat q \<or> unat q + g k \<le> unat p" if "(p, l) \<in> A" "(q, k) \<in> A" "(p, l) \<noteq> (q, k)" for p l q k
    using separate_apart [OF assms(1) subsetD [OF assms(2) that(1)] subsetD [OF assms(2) that(2)] that(3)] .
qed

text \<open>\<open>ok s B\<close> says that the allocator is in order in state \<open>s\<close>, \<open>B\<close> being the blocks that are in use. An
  allocation returns a block for its layout that is apart from all blocks in use, or the null pointer;
  a block in use can be given back.\<close>

locale heap =
  fixes al :: "layout \<Rightarrow> 's \<Rightarrow> u64 \<times> 's"
    and fr :: "u64 \<Rightarrow> layout \<Rightarrow> ('s, unit) program"
    and ok :: "'s \<Rightarrow> (u64 \<times> layout) set \<Rightarrow> bool"
    and granted :: "layout \<Rightarrow> nat"
  assumes granted_fits: "layout_ok l \<Longrightarrow> lsize l \<le> granted l"
    and in_use_separate: "ok s B \<Longrightarrow> separate granted B"
    and al_block: "ok s B \<Longrightarrow> layout_ok l \<Longrightarrow> al l s = (p, t) \<Longrightarrow> p \<noteq> 0 \<Longrightarrow> (p, l) \<notin> B \<and> ok t (insert (p, l) B)"
    and al_null: "ok s B \<Longrightarrow> layout_ok l \<Longrightarrow> al l s = (0, t) \<Longrightarrow> ok t B"
    and fr_block: "ok s B \<Longrightarrow> (p, l) \<in> B \<Longrightarrow> \<exists>t. fr p l s = (Ok (), t) \<and> ok t (B - {(p, l)})"
begin

lemma granted_pos: "layout_ok l \<Longrightarrow> 0 < granted l"
  using granted_fits [of l] by (auto simp: layout_ok_def)

text \<open>A new block is apart from those in use.\<close>

lemma al_apart:
  assumes "ok s B" and "layout_ok l" and "al l s = (p, t)" and "p \<noteq> 0" and "(q, k) \<in> B"
  shows "unat p + granted l \<le> unat q \<or> unat q + granted k \<le> unat p"
proof -
  note A = al_block [OF assms(1-4)]
  have "(p, l) \<noteq> (q, k)" using A assms(5) by auto
  then show ?thesis
    using separate_apart [OF in_use_separate [OF conjunct2 [OF A]], of p l q k] assms(5) by blast
qed

lemma al_aligned:
  assumes "ok s B" and "layout_ok l" and "al l s = (p, t)" and "p \<noteq> 0"
  shows "lalign l dvd unat p" and "unat p + granted l \<le> 2 ^ 64"
  using separateD(3,4) [OF in_use_separate [OF conjunct2 [OF al_block [OF assms]]]] by blast+

text \<open>At an address there is one block.\<close>

lemma same_block:
  assumes "ok s B" and "(p, l) \<in> B" and "(p, k) \<in> B"
  shows "l = k"
proof (rule ccontr)
  note S = in_use_separate [OF assms(1)]
  assume "l \<noteq> k"
  then show False
    using separate_apart [OF S assms(2,3)] granted_pos [OF separateD(1) [OF S assms(2)]] granted_pos [OF separateD(1) [OF S assms(3)]]
    by auto
qed

lemma al_new_address:
  assumes "ok s B" and "layout_ok l" and "al l s = (p, t)" and "p \<noteq> 0"
  shows "p \<notin> fst ` B"
proof
  assume "p \<in> fst ` B"
  then obtain k where k: "(p, k) \<in> B" by auto
  note A = al_block [OF assms]
  have "l = k" using same_block [OF conjunct2 [OF A], of p l k] k by simp
  then show False using k A by simp
qed

text \<open>Giving back what was just allocated.\<close>

lemma al_fr:
  assumes "ok s B" and "layout_ok l" and "al l s = (p, t)" and "p \<noteq> 0"
  obtains u where "fr p l t = (Ok (), u)" and "ok u B"
proof -
  note A = al_block [OF assms]
  obtain u where "fr p l t = (Ok (), u)" "ok u (insert (p, l) B - {(p, l)})"
    using fr_block [OF conjunct2 [OF A], of p l] by auto
  then show ?thesis using that A by simp
qed

end

section \<open>The fixed-size block allocator\<close>

record 'f fsb =
  list_heads :: "u64 list"
  fallback :: 'f
  nodes :: kmemory

definition fsb_new :: "'f \<Rightarrow> kmemory \<Rightarrow> 'f fsb" where
  "fsb_new f m = \<lparr>list_heads = replicate (length BLOCK_SIZES) 0, fallback = f, nodes = m\<rparr>"

text \<open>\<open>Heap::init\<close> is the parameter \<open>ini\<close>.\<close>

definition fsb_init :: "(u64 \<Rightarrow> u64 \<Rightarrow> 'f \<Rightarrow> 'f) \<Rightarrow> u64 \<Rightarrow> u64 \<Rightarrow> 'f fsb \<Rightarrow> 'f fsb" where
  "fsb_init ini start sz s = s\<lparr>fallback := ini start sz (fallback s)\<rparr>"

definition HEAP_START :: u64 where "HEAP_START = 0xFFFF888000000000"
definition HEAP_SIZE :: u64 where "HEAP_SIZE = 1024 * 1024"

text \<open>\<open>init_heap\<close>, for the mapper \<open>mt\<close>.\<close>

definition init_heap :: "x86 \<Rightarrow> (u64 \<Rightarrow> u64 \<Rightarrow> u64 \<Rightarrow> (frame_alloc mem, unit) program) \<Rightarrow> (u64 \<Rightarrow> u64 \<Rightarrow> 'f \<Rightarrow> 'f)
    \<Rightarrow> (frame_alloc mem \<times> 'f fsb, unit) program" where
  "init_heap X mt ini =
     bind (virt_new X HEAP_START) (\<lambda>heap_start.
     bind (virt_new X (heap_start + HEAP_SIZE)) (\<lambda>e.
     bind (virt_new X (e - 1)) (\<lambda>heap_end.
     bind (zoom fst (\<lambda>m s. (m, snd s))
       (foreach (pages_between (containing_frame heap_start) (containing_frame heap_end)) (\<lambda>page.
          bind (take_frame allocate_frame ''FrameAllocationFailed'') (\<lambda>frame.
          mt page frame (PRESENT OR WRITABLE))))) (\<lambda>_.
     modify (\<lambda>s. (fst s, fsb_init ini HEAP_START HEAP_SIZE (snd s)))))))"

lemma init_heap_state: "init_heap X mt ini (m, s) = (Ok (), m', t) \<Longrightarrow> t = fsb_init ini HEAP_START HEAP_SIZE s"
  by (auto simp: init_heap_def bind_def zoom_def modify_def virt_new_def ret_def panic_def split: if_splits res.splits prod.splits)

definition fallback_alloc :: "(layout \<Rightarrow> 'f \<Rightarrow> u64 option \<times> 'f) \<Rightarrow> layout \<Rightarrow> 'f \<Rightarrow> u64 \<times> 'f" where
  "fallback_alloc ff l f = (case ff l f of (Some p, g) \<Rightarrow> (p, g) | (None, g) \<Rightarrow> (0, g))"

definition fsb_alloc :: "(layout \<Rightarrow> 'f \<Rightarrow> u64 option \<times> 'f) \<Rightarrow> layout \<Rightarrow> 'f fsb \<Rightarrow> u64 \<times> 'f fsb" where
  "fsb_alloc ff l s = (case list_index l of
       Some i \<Rightarrow>
         let node = list_heads s ! i in
         if node \<noteq> 0
         then (node, s\<lparr>list_heads := (list_heads s)[i := nodes s node], nodes := (nodes s)(node := 0)\<rparr>)
         else (case fallback_alloc ff (class_layout i) (fallback s) of (p, f) \<Rightarrow> (p, s\<lparr>fallback := f\<rparr>))
     | None \<Rightarrow> (case fallback_alloc ff l (fallback s) of (p, f) \<Rightarrow> (p, s\<lparr>fallback := f\<rparr>)))"

text \<open>A node has one word.\<close>

definition NODE_SIZE :: nat where "NODE_SIZE = 8"

definition fsb_dealloc :: "(u64 \<Rightarrow> layout \<Rightarrow> ('f, unit) program) \<Rightarrow> u64 \<Rightarrow> layout \<Rightarrow> ('f fsb, unit) program" where
  "fsb_dealloc fr p l = (case list_index l of
       Some i \<Rightarrow>
         if BLOCK_SIZES ! i < NODE_SIZE then panic ''assertion failed''
         else modify (\<lambda>s. s\<lparr>nodes := (nodes s)(p := list_heads s ! i), list_heads := (list_heads s)[i := p]\<rparr>)
     | None \<Rightarrow>
         if p = 0 then panic ''called Option::unwrap() on a None value''
         else zoom fallback (\<lambda>f s. s\<lparr>fallback := f\<rparr>) (fr p l))"

section \<open>Free lists as lists\<close>

text \<open>The nodes from \<open>p\<close> on are the blocks \<open>xs\<close>.\<close>

primrec chain :: "kmemory \<Rightarrow> u64 \<Rightarrow> u64 list \<Rightarrow> bool" where
  "chain m p [] \<longleftrightarrow> p = 0"
| "chain m p (x # xs) \<longleftrightarrow> p = x \<and> x \<noteq> 0 \<and> chain m (m x) xs"

lemma chain_0: "chain m 0 xs \<longleftrightarrow> xs = []"
  by (cases xs) auto

lemma chain_next: "p \<noteq> 0 \<Longrightarrow> chain m p xs \<longleftrightarrow> (\<exists>ys. xs = p # ys \<and> chain m (m p) ys)"
  by (cases xs) auto

lemma chain_other [simp]: "x \<notin> set xs \<Longrightarrow> chain (m(x := v)) p xs = chain m p xs"
  by (induction xs arbitrary: p) auto

definition lists_apart :: "u64 list list \<Rightarrow> bool" where
  "lists_apart ls \<longleftrightarrow> (\<forall>i<9. distinct (ls ! i)) \<and> (\<forall>i<9. \<forall>j<9. i \<noteq> j \<longrightarrow> set (ls ! i) \<inter> set (ls ! j) = {})"

lemma lists_apartD:
  assumes "lists_apart ls" and "i < 9"
  shows "distinct (ls ! i)" and "p \<in> set (ls ! i) \<Longrightarrow> j < 9 \<Longrightarrow> j \<noteq> i \<Longrightarrow> p \<notin> set (ls ! j)"
  using assms by (auto simp: lists_apart_def)

lemma lists_apart_update:
  assumes "lists_apart ls" and "length ls = 9" and "i < 9" and "distinct xs"
    and new: "\<And>p. p \<in> set xs \<Longrightarrow> p \<in> set (ls ! i) \<or> (\<forall>j<9. p \<notin> set (ls ! j))"
  shows "lists_apart (ls[i := xs])"
  unfolding lists_apart_def
proof (intro conjI allI impI)
  show "distinct (ls[i := xs] ! j)" if "j < 9" for j
    using lists_apartD(1) [OF assms(1) that] assms(2-4) that by (cases "j = i") simp_all
  have other: "q \<notin> set xs" if "q \<in> set (ls ! j)" "j < 9" "j \<noteq> i" for q j
    using new [of q] lists_apartD(2) [OF assms(1) that(2,1) assms(3)] that by blast
  show "set (ls[i := xs] ! j) \<inter> set (ls[i := xs] ! k) = {}" if "j < 9" "k < 9" "j \<noteq> k" for j k
  proof (cases "j = i \<or> k = i")
    case True
    then show ?thesis using that assms(2,3) other by auto
  next
    case False
    then show ?thesis using that lists_apartD(2) [OF assms(1) that(1) _ that(2)] by auto
  qed
qed

text \<open>The allocator as it is meant: nine lists of blocks and the fallback.\<close>

definition lists_alloc :: "(layout \<Rightarrow> 'f \<Rightarrow> u64 option \<times> 'f) \<Rightarrow> layout \<Rightarrow> u64 list list \<times> 'f \<Rightarrow> u64 \<times> u64 list list \<times> 'f" where
  "lists_alloc ff l a = (case (list_index l, fst a ! the (list_index l)) of
       (Some i, p # ps) \<Rightarrow> (p, (fst a)[i := ps], snd a)
     | _ \<Rightarrow> (case fallback_alloc ff (cut l) (snd a) of (p, f) \<Rightarrow> (p, fst a, f)))"

definition lists_dealloc :: "(u64 \<Rightarrow> layout \<Rightarrow> ('f, unit) program) \<Rightarrow> u64 \<Rightarrow> layout \<Rightarrow> (u64 list list \<times> 'f, unit) program" where
  "lists_dealloc fr p l = (\<lambda>a. case list_index l of
       Some i \<Rightarrow> (Ok (), (fst a)[i := p # fst a ! i], snd a)
     | None \<Rightarrow> (case fr p l (snd a) of (r, f) \<Rightarrow> (r, fst a, f)))"

definition represents :: "'f fsb \<Rightarrow> u64 list list \<times> 'f \<Rightarrow> bool" where
  "represents s a \<longleftrightarrow> fallback s = snd a \<and> length (list_heads s) = 9 \<and> length (fst a) = 9 \<and> lists_apart (fst a) \<and>
     (\<forall>i<9. chain (nodes s) (list_heads s ! i) (fst a ! i))"

lemma alloc_represents:
  assumes R: "represents s a" and run: "fsb_alloc ff l s = (p, t)"
  shows "\<exists>b. lists_alloc ff l a = (p, b) \<and> represents t b"
proof (cases "list_index l")
  case None
  then show ?thesis
    using R run by (auto simp: fsb_alloc_def lists_alloc_def cut_def represents_def split: prod.splits)
next
  case (Some i)
  have i: "i < 9" using list_index_Some [OF Some] by simp
  have c: "chain (nodes s) (list_heads s ! i) (fst a ! i)" using R i by (simp add: represents_def)
  show ?thesis
  proof (cases "list_heads s ! i = 0")
    case True
    then have "fst a ! i = []" using c by (simp add: chain_0)
    then show ?thesis
      using True Some R run by (auto simp: fsb_alloc_def lists_alloc_def cut_def represents_def split: prod.splits)
  next
    case False
    let ?x = "list_heads s ! i"
    obtain ps where ps: "fst a ! i = ?x # ps" "chain (nodes s) (nodes s ?x) ps"
      using c chain_next [OF False] by blast
    have t: "p = ?x" "t = s\<lparr>list_heads := (list_heads s)[i := nodes s ?x], nodes := (nodes s)(?x := 0)\<rparr>"
      using run Some False by (auto simp: fsb_alloc_def Let_def)
    note L = R [unfolded represents_def]
    have ap: "lists_apart (fst a)" and len: "length (list_heads s) = 9" "length (fst a) = 9" using L by blast+
    have other: "?x \<notin> set (fst a ! j)" if "j < 9" "j \<noteq> i" for j
      using lists_apartD(2) [OF ap i _ that] ps(1) by simp
    have own: "?x \<notin> set ps" "distinct ps" using lists_apartD(1) [OF ap i] ps(1) by simp_all
    have "lists_apart ((fst a)[i := ps])"
      by (rule lists_apart_update [OF ap len(2) i own(2)]) (simp add: ps(1))
    moreover have "chain (nodes t) (list_heads t ! j) ((fst a)[i := ps] ! j)" if "j < 9" for j
      using that i L ps own other [OF that] by (cases "j = i") (simp_all add: t)
    ultimately have "represents t ((fst a)[i := ps], snd a)"
      unfolding represents_def using L len t by simp
    then show ?thesis using Some ps t by (simp add: lists_alloc_def)
  qed
qed

lemma dealloc_represents:
  assumes R: "represents s a" and p: "p \<noteq> 0" "\<And>j. j < 9 \<Longrightarrow> p \<notin> set (fst a ! j)"
    and run: "lists_dealloc fr p l a = (r, b)"
  shows "\<exists>t. fsb_dealloc fr p l s = (r, t) \<and> represents t b"
proof (cases "list_index l")
  case None
  then show ?thesis
    using R run p(1) by (auto simp: fsb_dealloc_def lists_dealloc_def represents_def zoom_def split: prod.splits)
next
  case (Some i)
  have i: "i < 9" using list_index_Some [OF Some] by simp
  then have big: "\<not> BLOCK_SIZES ! i < NODE_SIZE" using power_increasing [of 3 "i + 3" "2 :: nat"] by (simp add: block_size_power NODE_SIZE_def)
  note L = R [unfolded represents_def]
  have ap: "lists_apart (fst a)" and len: "length (list_heads s) = 9" "length (fst a) = 9" using L by blast+
  let ?t = "s\<lparr>nodes := (nodes s)(p := list_heads s ! i), list_heads := (list_heads s)[i := p]\<rparr>"
  have b: "r = Ok ()" "b = ((fst a)[i := p # fst a ! i], snd a)"
    using run Some by (simp_all add: lists_dealloc_def)
  have "lists_apart ((fst a)[i := p # fst a ! i])"
    by (rule lists_apart_update [OF ap len(2) i]) (use lists_apartD(1) [OF ap i] p(2) i in auto)
  moreover have "chain (nodes ?t) (list_heads ?t ! j) ((fst a)[i := p # fst a ! i] ! j)" if "j < 9" for j
    using that i L p by (cases "j = i") simp_all
  ultimately have "represents ?t b"
    unfolding represents_def using L len by (simp add: b)
  then show ?thesis using Some b big by (simp add: fsb_dealloc_def modify_def)
qed

section \<open>The allocator keeps the contract\<close>

definition cut_block :: "u64 \<times> layout \<Rightarrow> u64 \<times> layout" where
  "cut_block b = (fst b, cut (snd b))"

definition listed :: "u64 list list \<Rightarrow> (u64 \<times> layout) set" where
  "listed ls = {(p, class_layout i) | p i. i < 9 \<and> p \<in> set (ls ! i)}"

text \<open>The fallback has handed out the blocks in use and those on the lists.\<close>

definition lists_ok :: "('f \<Rightarrow> (u64 \<times> layout) set \<Rightarrow> bool) \<Rightarrow> u64 list list \<times> 'f \<Rightarrow> (u64 \<times> layout) set \<Rightarrow> bool" where
  "lists_ok ok a B \<longleftrightarrow> length (fst a) = 9 \<and> lists_apart (fst a) \<and> ok (snd a) (cut_block ` B \<union> listed (fst a)) \<and>
     cut_block ` B \<inter> listed (fst a) = {} \<and> inj_on fst B \<and> (\<forall>b\<in>B. layout_ok (snd b))"

definition fsb_ok :: "('f \<Rightarrow> (u64 \<times> layout) set \<Rightarrow> bool) \<Rightarrow> 'f fsb \<Rightarrow> (u64 \<times> layout) set \<Rightarrow> bool" where
  "fsb_ok ok s B \<longleftrightarrow> (\<exists>a. represents s a \<and> lists_ok ok a B)"

lemma fsb_okI: "represents s a \<Longrightarrow> lists_ok ok a B \<Longrightarrow> fsb_ok ok s B"
  unfolding fsb_ok_def by blast

lemma listed_iff: "(p, l) \<in> listed ls \<longleftrightarrow> (\<exists>i<9. l = class_layout i \<and> p \<in> set (ls ! i))"
  by (auto simp: listed_def)

lemma cut_Some: "list_index l = Some i \<Longrightarrow> cut l = class_layout i"
  by (simp add: cut_def)

lemma class_layout_inj: "i < 9 \<Longrightarrow> j < 9 \<Longrightarrow> class_layout i = class_layout j \<Longrightarrow> i = j"
  by (metis list_index_class option.inject)

lemma listed_pop:
  assumes "i < 9" and "length ls = 9" and "ls ! i = p # ps"
  shows "listed ls = insert (p, class_layout i) (listed (ls[i := ps]))"
proof (rule set_eqI)
  fix b :: "u64 \<times> layout"
  obtain q k where b: "b = (q, k)" by fastforce
  have "q \<in> set (ls ! j) \<longleftrightarrow> j = i \<and> q = p \<or> q \<in> set (ls[i := ps] ! j)" if "j < 9" for j
    using assms that by (cases "j = i") auto
  then show "b \<in> listed ls \<longleftrightarrow> b \<in> insert (p, class_layout i) (listed (ls[i := ps]))"
    unfolding b insert_iff listed_iff using assms(1) by blast
qed

lemma listed_push:
  assumes "i < 9" and "length ls = 9"
  shows "listed (ls[i := p # ls ! i]) = insert (p, class_layout i) (listed ls)"
  using listed_pop [of i "ls[i := p # ls ! i]" p "ls ! i"] assms by simp

lemma not_listed:
  assumes "i < 9" and "length ls = 9" and "p \<notin> set (ls ! i)"
  shows "(p, class_layout i) \<notin> listed ls"
  using class_layout_inj [OF assms(1)] assms(3) by (auto simp: listed_iff)

locale fixed_blocks = fb: heap "fallback_alloc ff" fr ok granted
  for ff :: "layout \<Rightarrow> 'f \<Rightarrow> u64 option \<times> 'f" and fr ok granted
begin

lemma lists_separate:
  assumes "lists_ok ok a B"
  shows "separate (\<lambda>l. granted (cut l)) B"
proof -
  note L = assms [unfolded lists_ok_def]
  have S: "separate granted (cut_block ` B \<union> listed (fst a))" using fb.in_use_separate L by blast
  have im: "(p, cut l) \<in> cut_block ` B \<union> listed (fst a)" if "(p, l) \<in> B" for p l
    using that by (force simp: cut_block_def)
  show ?thesis
  proof (rule separateI)
    fix p l assume b: "(p, l) \<in> B"
    have "layout_ok l" using L b by fastforce
    then show "layout_ok l \<and> p \<noteq> 0 \<and> unat p + granted (cut l) \<le> 2 ^ 64 \<and> lalign l dvd unat p"
      using separateD [OF S im [OF b]] cut_align dvd_trans by blast
  next
    fix p l q k assume b: "(p, l) \<in> B" "(q, k) \<in> B" "(p, l) \<noteq> (q, k)"
    have "inj_on fst B" using L by blast
    then have "p \<noteq> q" using b inj_onD [of fst B "(p, l)" "(q, k)"] by auto
    then show "unat p + granted (cut l) \<le> unat q \<or> unat q + granted (cut k) \<le> unat p"
      using separate_apart [OF S im [OF b(1)] im [OF b(2)]] by blast
  qed
qed

text \<open>An address that the fallback has handed out once is in use or on one list.\<close>

lemma listed_address:
  assumes "lists_ok ok a B" and "i < 9" and "p \<in> set (fst a ! i)"
  shows "p \<notin> fst ` B"
proof
  note L = assms(1) [unfolded lists_ok_def]
  assume "p \<in> fst ` B"
  then obtain l where l: "(p, l) \<in> B" by auto
  have 1: "(p, class_layout i) \<in> listed (fst a)" using assms(2,3) by (auto simp: listed_def)
  have 2: "(p, cut l) \<in> cut_block ` B" using l by (force simp: cut_block_def)
  have "cut l = class_layout i" using fb.same_block [of "snd a" _ p] L 1 2 by blast
  then show False using L 1 2 by auto
qed

lemma used_address:
  assumes "lists_ok ok a B" and "(p, l) \<in> B" and "i < 9"
  shows "p \<notin> set (fst a ! i)"
  using listed_address [OF assms(1,3)] assms(2) by force

lemma lists_alloc_ok:
  assumes ok: "lists_ok ok a B" and l: "layout_ok l" and run: "lists_alloc ff l a = (p, b)"
  shows "if p = 0 then lists_ok ok b B else (p, l) \<notin> B \<and> lists_ok ok b (insert (p, l) B)"
proof (cases "\<exists>i ps. list_index l = Some i \<and> fst a ! i = p # ps \<and> b = ((fst a)[i := ps], snd a)")
  case True
  then obtain i ps where i: "list_index l = Some i" and ps: "fst a ! i = p # ps" and b: "b = ((fst a)[i := ps], snd a)" by blast
  have i9: "i < 9" using list_index_Some [OF i] by simp
  note L = ok [unfolded lists_ok_def]
  have pl: "(p, class_layout i) \<in> listed (fst a)" using i9 ps by (auto simp: listed_def)
  have new: "p \<notin> fst ` B" using listed_address [OF ok i9] ps by simp
  have ap: "lists_apart (fst a)" using L by blast
  have own: "p \<notin> set ps" "distinct ps" using ap i9 ps by (simp_all add: lists_apart_def) (metis distinct.simps(2))+
  have l1: "listed (fst a) = insert (p, class_layout i) (listed (fst b))"
    using listed_pop [OF i9 _ ps] L by (simp add: b)
  have l2: "(p, class_layout i) \<notin> listed (fst b)"
    using not_listed [OF i9, of "fst b" p] L own i9 by (simp add: b)
  have "p \<noteq> 0" using separateD(2) [OF fb.in_use_separate, of "snd a" _ p] L pl by blast
  moreover have "lists_ok ok b (insert (p, l) B)"
    unfolding lists_ok_def
  proof (intro conjI)
    show "lists_apart (fst b)"
      unfolding b fst_conv by (rule lists_apart_update [OF ap _ i9 own(2)]) (use L ps in simp_all)
    have "cut_block ` insert (p, l) B \<union> listed (fst b) = cut_block ` B \<union> listed (fst a)"
      using l1 by (auto simp: cut_block_def cut_Some [OF i])
    then show "ok (snd b) (cut_block ` insert (p, l) B \<union> listed (fst b))" using L b by simp
    show "cut_block ` insert (p, l) B \<inter> listed (fst b) = {}"
      using L l1 l2 by (auto simp: cut_block_def cut_Some [OF i])
    show "inj_on fst (insert (p, l) B)" using L new by (auto simp: inj_on_insert)
  qed (use L l b in auto)
  ultimately show ?thesis using new by force
next
  case False
  then obtain f where f: "fallback_alloc ff (cut l) (snd a) = (p, f)" and b: "b = (fst a, f)"
    using run by (auto simp: lists_alloc_def split: option.splits list.splits prod.splits)
  note L = ok [unfolded lists_ok_def] and lc = cut_ok [OF l]
  let ?S = "cut_block ` B \<union> listed (fst a)"
  have okf: "ok (snd a) ?S" using L by blast
  show ?thesis
  proof (cases "p = 0")
    case True
    then have "ok f ?S" using fb.al_null [OF okf lc] f by simp
    then show ?thesis using True L b by (simp add: lists_ok_def)
  next
    case p: False
    note A = fb.al_block [OF okf lc f p]
    have out: "p \<notin> fst ` ?S" by (rule fb.al_new_address [OF okf lc f p])
    have "p \<notin> fst ` B"
    proof
      assume "p \<in> fst ` B"
      then have "p \<in> fst ` cut_block ` B" by (auto simp: cut_block_def image_iff)
      then show False using out by blast
    qed
    then have "(p, l) \<notin> B" "inj_on fst (insert (p, l) B)" using L by (force, auto simp: inj_on_insert)
    moreover have "cut_block ` insert (p, l) B \<union> listed (fst b) = insert (p, cut l) ?S" "(p, cut l) \<notin> ?S"
      using A by (auto simp: cut_block_def b)
    ultimately show ?thesis
      using p L l A b by (auto simp: lists_ok_def cut_block_def)
  qed
qed

lemma lists_dealloc_ok:
  assumes ok: "lists_ok ok a B" and b: "(p, l) \<in> B"
  obtains c where "lists_dealloc fr p l a = (Ok (), c)" and "lists_ok ok c (B - {(p, l)})"
proof -
  note L = ok [unfolded lists_ok_def]
  have ap: "lists_apart (fst a)" and len: "length (fst a) = 9" and inj: "inj_on fst B"
    and okf: "ok (snd a) (cut_block ` B \<union> listed (fst a))"
    using L by blast+
  have cb: "(p, cut l) \<in> cut_block ` B" using b by (force simp: cut_block_def)
  have "cut_block ` (B - {(p, l)}) = cut_block ` B - {(p, cut l)}"
  proof -
    have "cut_block x \<noteq> (p, cut l)" if "x \<in> B" "x \<noteq> (p, l)" for x
      using inj_onD [OF inj _ that(1) b] that(2) by (auto simp: cut_block_def)
    then show ?thesis by (auto simp: cut_block_def)
  qed
  note rest = this
  have B': "inj_on fst (B - {(p, l)})" "\<forall>x\<in>B - {(p, l)}. layout_ok (snd x)"
    using L by (auto intro: inj_on_subset)
  show ?thesis
  proof (cases "list_index l")
    case (Some i)
    have i: "i < 9" using list_index_Some [OF Some] by simp
    let ?c = "((fst a)[i := p # fst a ! i], snd a)"
    have "lists_ok ok ?c (B - {(p, l)})"
      unfolding lists_ok_def
    proof (intro conjI B')
      show "lists_apart (fst ?c)"
        unfolding fst_conv
        by (rule lists_apart_update [OF ap len i]) (use lists_apartD(1) [OF ap i] used_address [OF ok b] i in auto)
      have "cut_block ` (B - {(p, l)}) \<union> listed (fst ?c) = cut_block ` B \<union> listed (fst a)"
        using cb by (auto simp: rest listed_push [OF i len] cut_Some [OF Some])
      then show "ok (snd ?c) (cut_block ` (B - {(p, l)}) \<union> listed (fst ?c))" using okf by simp
      show "cut_block ` (B - {(p, l)}) \<inter> listed (fst ?c) = {}"
        using L by (auto simp: rest listed_push [OF i len] cut_Some [OF Some])
    qed (simp add: len)
    then show ?thesis using that Some by (simp add: lists_dealloc_def)
  next
    case None
    then have "cut l = l" by (simp add: cut_def)
    then have pl: "(p, l) \<in> cut_block ` B \<union> listed (fst a)" "(p, l) \<notin> listed (fst a)" using cb L by auto
    obtain f where f: "fr p l (snd a) = (Ok (), f)" "ok f (cut_block ` B \<union> listed (fst a) - {(p, l)})"
      using fb.fr_block [OF okf pl(1)] by blast
    have "cut_block ` B \<union> listed (fst a) - {(p, l)} = cut_block ` (B - {(p, l)}) \<union> listed (fst a)"
      using pl(2) by (auto simp: rest \<open>cut l = l\<close>)
    then have "ok f (cut_block ` (B - {(p, l)}) \<union> listed (fst a))" using f(2) by simp
    moreover have "cut_block ` (B - {(p, l)}) \<inter> listed (fst a) = {}" using L rest by blast
    ultimately have "lists_ok ok (fst a, f) (B - {(p, l)})"
      unfolding lists_ok_def using ap len B' by simp
    then show ?thesis using that f(1) None by (simp add: lists_dealloc_def)
  qed
qed

lemma fsb_alloc_ok:
  assumes "fsb_ok ok s B" and "layout_ok l" and "fsb_alloc ff l s = (p, t)"
  shows "if p = 0 then fsb_ok ok t B else (p, l) \<notin> B \<and> fsb_ok ok t (insert (p, l) B)"
proof -
  obtain a where a: "represents s a" "lists_ok ok a B" using assms(1) by (auto simp: fsb_ok_def)
  obtain b where b: "lists_alloc ff l a = (p, b)" "represents t b" using alloc_represents [OF a(1) assms(3)] by blast
  show ?thesis using lists_alloc_ok [OF a(2) assms(2) b(1)] fsb_okI [OF b(2)] by (auto split: if_splits)
qed

lemma fsb_dealloc_ok:
  assumes "fsb_ok ok s B" and "(p, l) \<in> B"
  shows "\<exists>t. fsb_dealloc fr p l s = (Ok (), t) \<and> fsb_ok ok t (B - {(p, l)})"
proof -
  obtain a where a: "represents s a" "lists_ok ok a B" using assms(1) by (auto simp: fsb_ok_def)
  obtain c where c: "lists_dealloc fr p l a = (Ok (), c)" "lists_ok ok c (B - {(p, l)})"
    using lists_dealloc_ok [OF a(2) assms(2)] .
  have "p \<noteq> 0" using separateD(2) [OF lists_separate [OF a(2)] assms(2)] .
  from dealloc_represents [OF a(1) this used_address [OF a(2) assms(2)] c(1)]
  show ?thesis using fsb_okI c(2) by blast
qed

end

sublocale fixed_blocks \<subseteq> blocks: heap "fsb_alloc ff" "fsb_dealloc fr" "fsb_ok ok" "\<lambda>l. granted (cut l)"
proof
  show "lsize l \<le> granted (cut l)" if "layout_ok l" for l
    using fb.granted_fits [OF cut_ok [OF that]] cut_fits [of l] by simp
  show "separate (\<lambda>l. granted (cut l)) B" if "fsb_ok ok s B" for s B
    using that lists_separate by (auto simp: fsb_ok_def)
  show "(p, l) \<notin> B \<and> fsb_ok ok t (insert (p, l) B)"
    if "fsb_ok ok s B" "layout_ok l" "fsb_alloc ff l s = (p, t)" "p \<noteq> 0" for s B l p t
    using fsb_alloc_ok [OF that(1-3)] that(4) by simp
  show "fsb_ok ok t B" if "fsb_ok ok s B" "layout_ok l" "fsb_alloc ff l s = (0, t)" for s B l t
    using fsb_alloc_ok [OF that] by simp
  show "\<exists>t. fsb_dealloc fr p l s = (Ok (), t) \<and> fsb_ok ok t (B - {(p, l)})"
    if "fsb_ok ok s B" "(p, l) \<in> B" for s B p l
    using fsb_dealloc_ok [OF that] .
qed

text \<open>A new allocator has no blocks in use.\<close>

lemma fsb_new_ok: "ok (fallback s) {} \<Longrightarrow> list_heads s = replicate 9 0 \<Longrightarrow> fsb_ok ok s {}"
  by (rule fsb_okI [of _ "(replicate 9 [], fallback s)"])
    (simp_all add: represents_def lists_ok_def lists_apart_def listed_def cong: conj_cong)

section \<open>The memory of the blocks\<close>

text \<open>The allocator writes into a block only when it hands it out or takes it back, and a client that writes
  into its own blocks does not disturb the free lists.\<close>

lemma fsb_alloc_writes: "fsb_alloc ff l s = (p, t) \<Longrightarrow> x \<noteq> p \<Longrightarrow> nodes t x = nodes s x"
  by (auto simp: fsb_alloc_def Let_def split: option.splits prod.splits if_splits)

lemma fsb_dealloc_writes: "fsb_dealloc fr p l s = (r, t) \<Longrightarrow> x \<noteq> p \<Longrightarrow> nodes t x = nodes s x"
  by (auto simp: fsb_dealloc_def zoom_def modify_def panic_def split: option.splits prod.splits if_splits)

lemma represents_write:
  "represents s a \<Longrightarrow> (\<And>i. i < 9 \<Longrightarrow> x \<notin> set (fst a ! i)) \<Longrightarrow> represents (s\<lparr>nodes := (nodes s)(x := v)\<rparr>) a"
  by (simp add: represents_def)

context fixed_blocks
begin

lemma client_write:
  assumes "fsb_ok ok s B" and "(p, l) \<in> B" and "unat p \<le> unat x" and "unat x < unat p + lsize l"
  shows "fsb_ok ok (s\<lparr>nodes := (nodes s)(x := v)\<rparr>) B"
proof -
  obtain a where a: "represents s a" "lists_ok ok a B" using assms(1) by (auto simp: fsb_ok_def)
  note L = a(2) [unfolded lists_ok_def]
  have okf: "ok (snd a) (cut_block ` B \<union> listed (fst a))" using L by blast
  have S: "separate granted (cut_block ` B \<union> listed (fst a))" using fb.in_use_separate [OF okf] .
  have pl: "(p, cut l) \<in> cut_block ` B" using assms(2) by (force simp: cut_block_def)
  have lo: "layout_ok l" using L assms(2) by fastforce
  have top: "unat x < unat p + granted (cut l)"
    using assms(4) fb.granted_fits [OF cut_ok [OF lo]] cut_fits [of l] by simp
  have "x \<notin> set (fst a ! i)" if i: "i < 9" for i
  proof
    assume "x \<in> set (fst a ! i)"
    then have xl: "(x, class_layout i) \<in> listed (fst a)" using i by (auto simp: listed_def)
    have "(p, cut l) \<noteq> (x, class_layout i)" using L pl xl by auto
    from separate_apart [OF S _ _ this] have "unat p + granted (cut l) \<le> unat x \<or> unat x + granted (class_layout i) \<le> unat p"
      using pl xl by blast
    then show False using top assms(3) fb.granted_pos [OF class_layout_ok [OF i]] by linarith
  qed
  from fsb_okI [OF represents_write [OF a(1) this] a(2)] show ?thesis .
qed

end

section \<open>Clients\<close>

text \<open>What clients that keep to the rules can do from state \<open>s0\<close>: allocate, free a block they have, and write into
  their blocks. The set is the blocks they have.\<close>

inductive heap_reach :: "(layout \<Rightarrow> 'f \<Rightarrow> u64 option \<times> 'f) \<Rightarrow> (u64 \<Rightarrow> layout \<Rightarrow> ('f, unit) program) \<Rightarrow> 'f fsb
    \<Rightarrow> 'f fsb \<Rightarrow> (u64 \<times> layout) set \<Rightarrow> bool"
  for ff fr s0 where
  start: "heap_reach ff fr s0 s0 {}"
| alloc: "heap_reach ff fr s0 s B \<Longrightarrow> layout_ok l \<Longrightarrow> fsb_alloc ff l s = (p, t) \<Longrightarrow>
     heap_reach ff fr s0 t (if p = 0 then B else insert (p, l) B)"
| free: "heap_reach ff fr s0 s B \<Longrightarrow> (p, l) \<in> B \<Longrightarrow> fsb_dealloc fr p l s = (r, t) \<Longrightarrow>
     heap_reach ff fr s0 t (B - {(p, l)})"
| store: "heap_reach ff fr s0 s B \<Longrightarrow> (p, l) \<in> B \<Longrightarrow> unat p \<le> unat x \<Longrightarrow> unat x < unat p + lsize l \<Longrightarrow>
     heap_reach ff fr s0 (s\<lparr>nodes := (nodes s)(x := v)\<rparr>) B"

context fixed_blocks
begin

lemma reach_ok: "heap_reach ff fr s0 s B \<Longrightarrow> fsb_ok ok s0 {} \<Longrightarrow> fsb_ok ok s B"
proof (induction rule: heap_reach.induct)
  case (alloc s B l p t)
  then show ?case using fsb_alloc_ok [OF _ alloc(2,3)] by (auto split: if_splits)
next
  case (free s B p l r t)
  then show ?case using fsb_dealloc_ok [of s B p l] by auto
next
  case (store s B p l x v)
  then show ?case using client_write by blast
qed

text \<open>The blocks that clients have are apart as they were asked for.\<close>

lemma ok_apart:
  assumes "fsb_ok ok s B"
  shows "separate lsize B"
proof (rule separateI)
  note S = blocks.in_use_separate [OF assms]
  have size: "lsize l \<le> granted (cut l)" if "layout_ok l" for l using blocks.granted_fits [OF that] .
  show "layout_ok l \<and> p \<noteq> 0 \<and> unat p + lsize l \<le> 2 ^ 64 \<and> lalign l dvd unat p" if "(p, l) \<in> B" for p l
    using separateD [OF S that] size [of l] by simp
  show "unat p + lsize l \<le> unat q \<or> unat q + lsize k \<le> unat p"
    if "(p, l) \<in> B" "(q, k) \<in> B" "(p, l) \<noteq> (q, k)" for p l q k
    using separate_apart [OF S that] size [OF separateD(1) [OF S that(1)]] size [OF separateD(1) [OF S that(2)]] by linarith
qed

end

end
