(* ===== verification/Bump.thy ===== *)
theory Bump
  imports KHeap
begin

text \<open>
  The bump allocator of allocator/bump.rs, an allocator of the repository that keeps the contract
  \<open>heap\<close>, and so can be the fallback of the fixed-size block allocator. Its \<open>align_up\<close> is not
  defined in the repository: it is the parameter of the locale \<open>aligner\<close>, which says what the name
  promises.
\<close>

record bump =
  b_start :: u64
  b_end :: u64
  b_next :: u64
  b_count :: u64

definition bump_new :: bump where
  "bump_new = \<lparr>b_start = 0, b_end = 0, b_next = 0, b_count = 0\<rparr>"

text \<open>\<open>ck\<close> says whether the build checks arithmetic overflow.\<close>

definition bump_init :: "bool \<Rightarrow> u64 \<Rightarrow> u64 \<Rightarrow> (bump, unit) program" where
  "bump_init ck start sz = bind (modify (\<lambda>b. b\<lparr>b_start := start\<rparr>)) (\<lambda>_.
     if ck \<and> checked_add start sz = None then panic ''attempt to add with overflow''
     else modify (\<lambda>b. b\<lparr>b_end := start + sz, b_next := start\<rparr>))"

definition bump_alloc :: "(u64 \<Rightarrow> nat \<Rightarrow> u64) \<Rightarrow> layout \<Rightarrow> bump \<Rightarrow> u64 \<times> bump" where
  "bump_alloc au l b =
     (let alloc_start = au (b_next b) (lalign l) in
      case checked_add alloc_start (of_nat (lsize l)) of
        None \<Rightarrow> (0, b)
      | Some alloc_end \<Rightarrow>
          if b_end b < alloc_end then (0, b)
          else (alloc_start, b\<lparr>b_next := alloc_end, b_count := b_count b + 1\<rparr>))"

definition bump_dealloc :: "bool \<Rightarrow> u64 \<Rightarrow> layout \<Rightarrow> (bump, unit) program" where
  "bump_dealloc ck p l = bind (gets b_count) (\<lambda>n.
     if ck \<and> n = 0 then panic ''attempt to subtract with overflow''
     else bind (modify (\<lambda>b. b\<lparr>b_count := n - 1\<rparr>)) (\<lambda>_.
       if n - 1 = 0 then modify (\<lambda>b. b\<lparr>b_next := b_start b\<rparr>) else ret ()))"

definition bump_ok :: "bump \<Rightarrow> (u64 \<times> layout) set \<Rightarrow> bool" where
  "bump_ok b B \<longleftrightarrow> finite B \<and> unat (b_count b) = card B \<and> card B \<le> unat (b_next b) - unat (b_start b) \<and>
     0 < b_start b \<and> b_start b \<le> b_next b \<and> b_next b \<le> b_end b \<and> unat (b_end b) + 4096 \<le> 2 ^ 64 \<and>
     separate lsize B \<and> (\<forall>x\<in>B. unat (fst x) + lsize (snd x) \<le> unat (b_next b))"

locale aligner =
  fixes align_up :: "u64 \<Rightarrow> nat \<Rightarrow> u64"
  assumes aligned_above: "0 < n \<Longrightarrow> unat a + n \<le> 2 ^ 64 \<Longrightarrow> a \<le> align_up a n \<and> n dvd unat (align_up a n)"

lemma checked_add_nat: "checked_add (a :: u64) b = Some c \<Longrightarrow> unat c = unat a + unat b \<and> unat a + unat b < 2 ^ 64"
  using checked_add_SomeD [of a b c] by (auto simp: checked_add_def split: if_splits)

context aligner
begin

lemma bump_alloc_ok:
  assumes ok: "bump_ok b B" and l: "layout_ok l" and run: "bump_alloc align_up l b = (p, c)" and p: "p \<noteq> 0"
  shows "(p, l) \<notin> B \<and> bump_ok c (insert (p, l) B)"
proof -
  note K = ok [unfolded bump_ok_def]
  let ?a = "align_up (b_next b) (lalign l)"
  obtain e where e: "checked_add ?a (of_nat (lsize l)) = Some e" "\<not> b_end b < e" and c: "p = ?a"
      "c = b\<lparr>b_next := e, b_count := b_count b + 1\<rparr>"
    using run p by (auto simp: bump_alloc_def Let_def split: option.splits if_splits)
  have size: "unat (of_nat (lsize l) :: u64) = lsize l" "0 < lsize l"
    using l by (simp_all add: layout_ok_def unat_of_nat)
  have ue: "unat e = unat ?a + lsize l" "unat ?a + lsize l < 2 ^ 64"
    using checked_add_nat [OF e(1)] size by simp_all
  have pos: "0 < lalign l" "lalign l \<le> 4096" using l by (auto simp: layout_ok_def)
  have "unat (b_next b) + lalign l \<le> 2 ^ 64" using K pos by (auto simp: word_le_nat_alt)
  then have al: "b_next b \<le> ?a" "lalign l dvd unat ?a" using aligned_above pos(1) by blast+
  have nx: "unat (b_start b) \<le> unat (b_next b)" "unat (b_next b) \<le> unat ?a" "unat e \<le> unat (b_end b)"
      "unat (b_next b) \<le> unat e"
    using K al(1) e(2) ue by (simp_all add: word_le_nat_alt not_less)
  have below: "unat q + lsize k \<le> unat ?a" if "(q, k) \<in> B" for q k
    using bspec [of B _ "(q, k)"] K that nx(2) by fastforce
  have new: "(p, l) \<notin> B" using below [of p l] size c(1) by auto
  have "separate lsize (insert (p, l) B)"
  proof (rule separateI)
    have S: "separate lsize B" using K by blast
    show "layout_ok q \<and> x \<noteq> 0 \<and> unat x + lsize q \<le> 2 ^ 64 \<and> lalign q dvd unat x" if "(x, q) \<in> insert (p, l) B" for x q
      using that separateD [OF S, of x q] l p al(2) ue c(1) by auto
    show "unat x + lsize q \<le> unat y \<or> unat y + lsize k \<le> unat x"
      if "(x, q) \<in> insert (p, l) B" "(y, k) \<in> insert (p, l) B" "(x, q) \<noteq> (y, k)" for x q y k
      using that separate_apart [OF S, of x q y k] below [of x q] below [of y k] c(1) by auto
  qed
  moreover have "card (insert (p, l) B) = Suc (card B)" using new K by simp
  moreover have "card B < unat e - unat (b_start b)" using K nx ue(1) size(2) by auto
  moreover have "unat (b_count b + 1) = Suc (card B)"
  proof -
    have "unat (b_count b) + 1 < 2 ^ 64" using K \<open>card B < unat e - unat (b_start b)\<close> ue by auto
    then show ?thesis using K by (simp add: unat_add_lem [THEN iffD1])
  qed
  moreover have "unat (fst x) + lsize (snd x) \<le> unat e" if "x \<in> insert (p, l) B" for x
    using that below [of "fst x" "snd x"] ue(1) c(1) by auto
  ultimately show ?thesis
    using new K nx e(2) by (auto simp: bump_ok_def c(2) word_le_nat_alt not_less)
qed

lemma bump_alloc_null:
  assumes ok: "bump_ok b B" and l: "layout_ok l" and run: "bump_alloc align_up l b = (0, c)"
  shows "c = b"
proof -
  note K = ok [unfolded bump_ok_def]
  have "0 < lalign l" "lalign l \<le> 4096" using l by (auto simp: layout_ok_def)
  moreover from this have "unat (b_next b) + lalign l \<le> 2 ^ 64" using K by (auto simp: word_le_nat_alt)
  ultimately have "b_next b \<le> align_up (b_next b) (lalign l)" using aligned_above by blast
  then have "align_up (b_next b) (lalign l) \<noteq> 0" using K by (auto simp: word_le_nat_alt word_less_nat_alt)
  then show ?thesis using run by (auto simp: bump_alloc_def Let_def split: option.splits if_splits)
qed

lemma bump_dealloc_ok:
  assumes ok: "bump_ok b B" and x: "x \<in> B"
  shows "\<exists>c. bump_dealloc ck p l b = (Ok (), c) \<and> bump_ok c (B - {x})"
proof -
  note K = ok [unfolded bump_ok_def]
  have "finite B" using K by blast
  then have card: "card B = Suc (card (B - {x}))" using x by (rule card.remove)
  have count: "unat (b_count b) = card B" using K by blast
  then have nz: "b_count b \<noteq> 0" using card by auto
  have n: "unat (b_count b - 1) = card (B - {x})" using unat_minus_one [OF nz] count card by linarith
  have S: "separate lsize (B - {x})" using separate_subset K by blast
  have z: "b_count b - 1 = 0 \<longleftrightarrow> card (B - {x}) = 0" unfolding n [symmetric] by (metis unat_eq_0)
  let ?c = "b\<lparr>b_count := b_count b - 1, b_next := (if b_count b - 1 = 0 then b_start b else b_next b)\<rparr>"
  have "bump_dealloc ck p l b = (Ok (), ?c)"
    using nz by (simp add: bump_dealloc_def bind_def gets_def modify_def)
  moreover have "bump_ok ?c (B - {x})"
  proof (cases "b_count b - 1 = 0")
    case True
    then have none: "B - {x} = {}" using z \<open>finite B\<close> by (simp only: card_eq_0_iff finite_Diff) simp
    have b: "0 < b_start b" "b_start b \<le> b_next b" "b_next b \<le> b_end b" "unat (b_end b) + 4096 \<le> 2 ^ 64"
      using K by blast+
    show ?thesis using True b order_trans [OF b(2,3)] S by (simp add: bump_ok_def none)
  next
    case False
    have "card (B - {x}) \<le> unat (b_next b) - unat (b_start b)" using K card by linarith
    then show ?thesis using False K S n by (simp add: bump_ok_def)
  qed
  ultimately show ?thesis by blast
qed

end

sublocale aligner \<subseteq> bump: heap "bump_alloc align_up" "bump_dealloc True" bump_ok lsize
proof
  show "(p, l) \<notin> B \<and> bump_ok c (insert (p, l) B)"
    if "bump_ok b B" "layout_ok l" "bump_alloc align_up l b = (p, c)" "p \<noteq> 0" for b B l p c
    using bump_alloc_ok [OF that] .
  show "bump_ok c B" if "bump_ok b B" "layout_ok l" "bump_alloc align_up l b = (0, c)" for b B l c
    using bump_alloc_null [OF that] that(1) by simp
  show "\<exists>c. bump_dealloc True p l b = (Ok (), c) \<and> bump_ok c (B - {(p, l)})" if "bump_ok b B" "(p, l) \<in> B" for b B p l
    using bump_dealloc_ok [OF that] .
qed (simp_all add: bump_ok_def)

text \<open>Rounding up to a multiple.\<close>

definition round_up :: "u64 \<Rightarrow> nat \<Rightarrow> u64" where
  "round_up a n = of_nat ((unat a + n - 1) div n * n)"

interpretation round: aligner round_up
proof
  fix n :: nat and a :: u64
  assume n: "0 < n" and fit: "unat a + n \<le> 2 ^ 64"
  let ?m = "(unat a + n - 1) div n * n"
  have "?m \<le> unat a + n - 1" by simp
  then have "?m < 2 ^ 64" using fit n by linarith
  then have u: "unat (round_up a n) = ?m"
    by (simp add: round_up_def unat_of_nat del: of_nat_mult)
  have "unat a + n - 1 < ?m + n"
    using n div_mult_mod_eq [of "unat a + n - 1" n] mod_less_divisor [OF n, of "unat a + n - 1"] by linarith
  then have "unat a \<le> ?m" using n by linarith
  then show "a \<le> round_up a n \<and> n dvd unat (round_up a n)"
    by (simp add: word_le_nat_alt u)
qed

lemma fallback_alloc_as_option: "fallback_alloc (as_option al) = al"
  by (auto simp: fallback_alloc_def as_option_def fun_eq_iff split: prod.splits)

interpretation kheap: fixed_blocks "as_option (bump_alloc round_up)" "bump_dealloc True" bump_ok lsize
  unfolding fixed_blocks_def fallback_alloc_as_option by (rule round.bump.heap_axioms)

end
