(* ===== verification/LinkedList.thy ===== *)
theory LinkedList
  imports Bump
begin

text \<open>
  The first-fit allocator of allocator/linked_list.rs. The free regions form a linked list whose
  nodes, a size and a pointer, lie at the start of the regions. \<open>find_region\<close> walks the list in
  memory, so it is a partial function: that it returns on every list the allocator builds is part of
  the result. The allocator keeps the contract \<open>heap\<close>. \<open>align_up\<close>, which the file imports, is defined
  nowhere in the repository: it is the parameter of \<open>exact_aligner\<close>.
\<close>

section \<open>The allocator\<close>

text \<open>\<open>ll_head\<close> is \<open>head.next\<close>, 0 for \<open>None\<close>. The node at \<open>a\<close> has its size at \<open>a\<close> and its successor at \<open>a + 8\<close>.\<close>

record linked_list =
  ll_head :: u64
  ll_mem :: kmemory

definition ll_new :: "kmemory \<Rightarrow> linked_list" where
  "ll_new m = \<lparr>ll_head = 0, ll_mem = m\<rparr>"

definition LIST_NODE_SIZE :: nat where "LIST_NODE_SIZE = 16"
definition LIST_NODE_ALIGN :: nat where "LIST_NODE_ALIGN = 8"

definition end_addr :: "u64 \<Rightarrow> u64 \<Rightarrow> u64" where
  "end_addr a n = a + n"

definition add_free_region :: "(u64 \<Rightarrow> nat \<Rightarrow> u64) \<Rightarrow> u64 \<Rightarrow> u64 \<Rightarrow> (linked_list, unit) program" where
  "add_free_region au addr n = (\<lambda>s.
     if au addr LIST_NODE_ALIGN \<noteq> addr then (Panic ''assertion failed: align_up'', s)
     else if unat n < LIST_NODE_SIZE then (Panic ''assertion failed: size'', s)
     else (Ok (), s\<lparr>ll_head := addr, ll_mem := (ll_mem s)(addr := n, addr + 8 := ll_head s)\<rparr>))"

definition ll_init :: "(u64 \<Rightarrow> nat \<Rightarrow> u64) \<Rightarrow> u64 \<Rightarrow> u64 \<Rightarrow> (linked_list, unit) program" where
  "ll_init au start n = add_free_region au start n"

definition alloc_from_region :: "(u64 \<Rightarrow> nat \<Rightarrow> u64) \<Rightarrow> u64 \<Rightarrow> u64 \<Rightarrow> u64 \<Rightarrow> nat \<Rightarrow> u64 option" where
  "alloc_from_region au a n sz al =
     (let start = au a al in
      case checked_add start sz of
        None \<Rightarrow> None
      | Some e \<Rightarrow>
          if end_addr a n < e then None
          else let excess = end_addr a n - e in
            if 0 < excess \<and> unat excess < LIST_NODE_SIZE then None else Some start)"

text \<open>\<open>current.next\<close>, where \<open>current\<close> is the head (0) or a node.\<close>

definition next_of :: "u64 \<Rightarrow> linked_list \<Rightarrow> u64" where
  "next_of cur s = (if cur = 0 then ll_head s else ll_mem s (cur + 8))"

definition set_next :: "u64 \<Rightarrow> u64 \<Rightarrow> linked_list \<Rightarrow> linked_list" where
  "set_next cur p s = (if cur = 0 then s\<lparr>ll_head := p\<rparr> else s\<lparr>ll_mem := (ll_mem s)(cur + 8 := p)\<rparr>)"

text \<open>The loop of \<open>find_region\<close>; \<open>None\<close> is a loop that does not end.\<close>

partial_function (option) find_region ::
  "(u64 \<Rightarrow> nat \<Rightarrow> u64) \<Rightarrow> u64 \<Rightarrow> nat \<Rightarrow> u64 \<Rightarrow> linked_list \<Rightarrow> ((u64 \<times> u64) option \<times> linked_list) option"
where
  "find_region au sz al cur s =
     (if next_of cur s = 0 then Some (None, s)
      else case alloc_from_region au (next_of cur s) (ll_mem s (next_of cur s)) sz al of
        Some start \<Rightarrow> Some (Some (next_of cur s, start),
          set_next cur (ll_mem s (next_of cur s + 8)) (set_next (next_of cur s) 0 s))
      | None \<Rightarrow> find_region au sz al (next_of cur s) s)"

text \<open>\<open>layout.align_to(8).pad_to_align()\<close>, which fails when the padded size is beyond \<open>isize::MAX\<close>.\<close>

definition size_align :: "layout \<Rightarrow> (nat \<times> nat) option" where
  "size_align l = (let al = max (lalign l) LIST_NODE_ALIGN; sz = (lsize l + al - 1) div al * al in
     if 2 ^ 63 \<le> sz then None else Some (max sz LIST_NODE_SIZE, al))"

definition ll_alloc :: "(u64 \<Rightarrow> nat \<Rightarrow> u64) \<Rightarrow> layout \<Rightarrow> linked_list \<Rightarrow> (u64 res \<times> linked_list) option" where
  "ll_alloc au l s = (case size_align l of
       None \<Rightarrow> Some (Panic ''adjusting alignment failed'', s)
     | Some (sz, al) \<Rightarrow> (case find_region au (of_nat sz) al 0 s of
         None \<Rightarrow> None
       | Some (None, t) \<Rightarrow> Some (Ok 0, t)
       | Some (Some (region, start), t) \<Rightarrow> Some (
           bind (expect ''overflow'' (checked_add start (of_nat sz))) (\<lambda>e.
           let excess = end_addr region (ll_mem t region) - e in
           bind (if 0 < excess then add_free_region au e excess else ret ()) (\<lambda>_.
           ret start)) t)))"

definition ll_dealloc :: "(u64 \<Rightarrow> nat \<Rightarrow> u64) \<Rightarrow> u64 \<Rightarrow> layout \<Rightarrow> (linked_list, unit) program" where
  "ll_dealloc au p l = bind (expect ''adjusting alignment failed'' (size_align l)) (\<lambda>(sz, al).
     add_free_region au p (of_nat sz))"

section \<open>The free list\<close>

text \<open>The nodes from \<open>p\<close> on are the regions \<open>rs\<close>, an address and a size each.\<close>

primrec region_chain :: "kmemory \<Rightarrow> u64 \<Rightarrow> (u64 \<times> u64) list \<Rightarrow> bool" where
  "region_chain m p [] \<longleftrightarrow> p = 0"
| "region_chain m p (x # rs) \<longleftrightarrow> p = fst x \<and> p \<noteq> 0 \<and> m p = snd x \<and> region_chain m (m (p + 8)) rs"

text \<open>The words that the nodes of \<open>rs\<close> occupy.\<close>

definition node_words :: "(u64 \<times> u64) list \<Rightarrow> u64 set" where
  "node_words rs = fst ` set rs \<union> (\<lambda>x. x + 8) ` fst ` set rs"

lemma chain_cong:
  "(\<And>w. w \<in> node_words rs \<Longrightarrow> m w = m' w) \<Longrightarrow> region_chain m p rs \<longleftrightarrow> region_chain m' p rs"
proof (induction rs arbitrary: p)
  case (Cons x rs)
  have x: "m (fst x) = m' (fst x)" "m (fst x + 8) = m' (fst x + 8)" using Cons.prems by (simp_all add: node_words_def)
  have "region_chain m q rs = region_chain m' q rs" for q
    by (rule Cons.IH, rule Cons.prems) (auto simp: node_words_def)
  then show ?case by (cases "p = fst x") (simp_all add: x)
qed simp

text \<open>Two nodes do not share words.\<close>

definition nodes_apart :: "u64 set \<Rightarrow> bool" where
  "nodes_apart A \<longleftrightarrow> (\<forall>x\<in>A. \<forall>y\<in>A. x \<noteq> y + 8)"

lemma nodes_apartD: "nodes_apart A \<Longrightarrow> x \<in> A \<Longrightarrow> y \<in> A \<Longrightarrow> x \<noteq> y + 8"
  by (simp add: nodes_apart_def)

lemma chain_unique: "region_chain m p rs \<Longrightarrow> region_chain m p qs \<Longrightarrow> rs = qs"
proof (induction rs arbitrary: p qs)
  case Nil
  then show ?case by (cases qs) auto
next
  case (Cons x rs)
  then show ?case by (cases qs) (auto simp: prod_eq_iff)
qed

lemma plus8_image [simp]: "(x :: u64) + 8 \<in> (\<lambda>x. x + 8) ` A \<longleftrightarrow> x \<in> A"
  by auto

lemma find_region_run:
  assumes "region_chain (ll_mem s) (next_of cur s) rs" and "distinct (map fst rs)" and "cur \<notin> fst ` set rs"
    and "nodes_apart (insert cur (fst ` set rs))"
  shows "\<exists>r t. find_region au sz al cur s = Some (r, t) \<and> (case r of
      None \<Rightarrow> t = s \<and> (\<forall>(a, n)\<in>set rs. alloc_from_region au a n sz al = None)
    | Some (a, start) \<Rightarrow> (\<exists>n xs ys. rs = xs @ (a, n) # ys \<and> alloc_from_region au a n sz al = Some start \<and>
        (\<forall>(b, k)\<in>set xs. alloc_from_region au b k sz al = None) \<and>
        region_chain (ll_mem t) (next_of cur t) (xs @ ys) \<and> ll_mem t a = n \<and> (cur \<noteq> 0 \<longrightarrow> ll_head t = ll_head s) \<and>
        (\<forall>w. w \<notin> (\<lambda>x. x + 8) ` (insert cur (fst ` set rs)) \<longrightarrow> ll_mem t w = ll_mem s w)))"
  using assms
proof (induction rs arbitrary: cur)
  case Nil
  then show ?case by (subst find_region.simps) simp
next
  case (Cons x rs)
  obtain b k where x: "x = (b, k)" by fastforce
  let ?m = "ll_mem s"
  have c: "next_of cur s = b" "b \<noteq> 0" "?m b = k" "region_chain ?m (?m (b + 8)) rs" using Cons.prems(1) by (auto simp: x)
  have d: "b \<notin> fst ` set rs" "distinct (map fst rs)" "cur \<noteq> b" "cur \<notin> fst ` set rs" using Cons.prems(2,3) by (auto simp: x)
  note ap = nodes_apartD [OF Cons.prems(4)]
  show ?case
  proof (cases "alloc_from_region au b k sz al")
    case None
    have "region_chain ?m (next_of b s) rs" using c by (simp add: next_of_def)
    moreover have "nodes_apart (insert b (fst ` set rs))"
      using Cons.prems(4) by (auto simp: nodes_apart_def x)
    ultimately obtain r t where f: "find_region au sz al b s = Some (r, t)" and post: "case r of
        None \<Rightarrow> t = s \<and> (\<forall>(a, n)\<in>set rs. alloc_from_region au a n sz al = None)
      | Some (a, start) \<Rightarrow> (\<exists>n xs ys. rs = xs @ (a, n) # ys \<and> alloc_from_region au a n sz al = Some start \<and>
          (\<forall>(b, k)\<in>set xs. alloc_from_region au b k sz al = None) \<and>
          region_chain (ll_mem t) (next_of b t) (xs @ ys) \<and> ll_mem t a = n \<and> (b \<noteq> 0 \<longrightarrow> ll_head t = ll_head s) \<and>
          (\<forall>w. w \<notin> (\<lambda>x. x + 8) ` (insert b (fst ` set rs)) \<longrightarrow> ll_mem t w = ll_mem s w))"
      using Cons.IH [of b] d by blast
    have run: "find_region au sz al cur s = Some (r, t)"
      using None f c by (subst find_region.simps) simp
    show ?thesis
    proof (cases r)
      case N: None
      then show ?thesis using run post None by (auto simp: x)
    next
      case (Some y)
      obtain a start where y: "y = (a, start)" by fastforce
      from post [unfolded Some y option.case prod.case] obtain n xs ys where
        P: "rs = xs @ (a, n) # ys" "alloc_from_region au a n sz al = Some start"
          "\<forall>(b, k)\<in>set xs. alloc_from_region au b k sz al = None" "region_chain (ll_mem t) (next_of b t) (xs @ ys)"
          "ll_mem t a = n" "ll_head t = ll_head s"
        and fr: "\<And>w. w \<notin> (\<lambda>x. x + 8) ` (insert b (fst ` set rs)) \<Longrightarrow> ll_mem t w = ?m w"
        using c(2) by blast
      have "cur + 8 \<notin> (\<lambda>x. x + 8) ` (insert b (fst ` set rs))" unfolding plus8_image using d by simp
      from fr [OF this] have nx: "next_of cur t = b" using c(1) P(6) by (auto simp: next_of_def)
      have "b \<notin> (\<lambda>x. x + 8) ` (insert b (fst ` set rs))" using ap [of b] x by auto
      from fr [OF this] have "ll_mem t b = k" using c(3) by simp
      then have ch: "region_chain (ll_mem t) (next_of cur t) ((x # xs) @ ys)"
        using P(4) c(2) unfolding nx next_of_def [of b] by (simp add: x)
      have split: "x # rs = (x # xs) @ (a, n) # ys" using P(1) by simp
      have skip: "\<forall>(b, k)\<in>set (x # xs). alloc_from_region au b k sz al = None" using P(3) None by (simp add: x)
      have frame: "\<forall>w. w \<notin> (\<lambda>x. x + 8) ` (insert cur (fst ` set (x # rs))) \<longrightarrow> ll_mem t w = ?m w"
      proof (intro allI impI)
        fix w assume "w \<notin> (\<lambda>x. x + 8) ` (insert cur (fst ` set (x # rs)))"
        then have "w \<notin> (\<lambda>x. x + 8) ` (insert b (fst ` set rs))" by (auto simp: x)
        then show "ll_mem t w = ?m w" by (rule fr)
      qed
      show ?thesis
        unfolding run Some y
        by (intro exI [of _ "Some (a, start)"] exI [of _ t] conjI refl, unfold option.case prod.case,
            intro exI [of _ n] exI [of _ "x # xs"] exI [of _ ys] conjI split P(2) skip ch P(5) impI P(6) frame)
    qed
  next
    case (Some start)
    let ?t = "set_next cur (?m (b + 8)) (set_next b 0 s)"
    have run: "find_region au sz al cur s = Some (Some (b, start), ?t)"
      using Some c by (subst find_region.simps) simp
    have mt: "ll_mem ?t = (if cur = 0 then ?m(b + 8 := 0) else (?m(b + 8 := 0))(cur + 8 := ?m (b + 8)))"
      using c(2) by (simp add: set_next_def)
    have nx: "next_of cur ?t = ?m (b + 8)" using c(2) by (simp add: next_of_def set_next_def)
    have "ll_mem ?t w = ?m w" if "w \<in> node_words rs" for w
    proof -
      have "c + 8 \<notin> fst ` set rs" if "c = b \<or> c = cur" for c
      proof
        assume "c + 8 \<in> fst ` set rs"
        then have "c + 8 \<noteq> c + 8" using that by (intro ap) (auto simp: x)
        then show False by simp
      qed
      then have "b + 8 \<notin> node_words rs" "cur + 8 \<notin> node_words rs"
        unfolding node_words_def Un_iff plus8_image using d by blast+
      then have "w \<noteq> b + 8" "w \<noteq> cur + 8" using that by blast+
      then show ?thesis by (simp add: mt)
    qed
    then have "region_chain (ll_mem ?t) (next_of cur ?t) rs"
      unfolding nx using chain_cong [of rs "ll_mem ?t" ?m] c(4) by blast
    then have ch: "region_chain (ll_mem ?t) (next_of cur ?t) ([] @ rs)" by simp
    have "b \<noteq> b + 8" "b \<noteq> cur + 8" using ap [of b b] ap [of b cur] by (simp_all add: x)
    then have node: "ll_mem ?t b = k" using c(3) by (simp add: mt)
    have head: "cur \<noteq> 0 \<longrightarrow> ll_head ?t = ll_head s" using c(2) by (simp add: set_next_def)
    have frame: "\<forall>w. w \<notin> (\<lambda>x. x + 8) ` (insert cur (fst ` set (x # rs))) \<longrightarrow> ll_mem ?t w = ?m w"
      by (auto simp: mt x)
    have split: "x # rs = [] @ (b, k) # rs" by (simp add: x)
    have skip: "\<forall>(b, k)\<in>set []. alloc_from_region au b k sz al = None" by simp
    show ?thesis
      unfolding run
      by (intro exI [of _ "Some (b, start)"] exI [of _ ?t] conjI refl, unfold option.case prod.case,
          intro exI [of _ k] exI [of _ "[]"] exI [of _ rs] conjI split Some skip ch node head frame)
  qed
qed

text \<open>A region of \<open>n\<close> bytes at \<open>a\<close>, and two of them that do not overlap.\<close>

definition span_ok :: "nat \<Rightarrow> nat \<Rightarrow> bool" where
  "span_ok a n \<longleftrightarrow> 16 \<le> a \<and> 8 dvd a \<and> 16 \<le> n \<and> a + n + 4096 \<le> 2 ^ 64"

definition clear_of :: "nat \<Rightarrow> nat \<Rightarrow> nat \<Rightarrow> nat \<Rightarrow> bool" where
  "clear_of a n b k \<longleftrightarrow> a + n \<le> b \<or> b + k \<le> a"

lemma clear_of_sym: "clear_of a n b k = clear_of b k a n"
  by (auto simp: clear_of_def)

lemma clear_of_inside: "clear_of a n b k \<Longrightarrow> a \<le> c \<Longrightarrow> c + m \<le> a + n \<Longrightarrow> clear_of c m b k"
  by (auto simp: clear_of_def)

definition regions_ok :: "(u64 \<times> u64) list \<Rightarrow> bool" where
  "regions_ok rs \<longleftrightarrow> distinct (map fst rs) \<and> (\<forall>(a, n)\<in>set rs. span_ok (unat a) (unat n)) \<and>
     (\<forall>(a, n)\<in>set rs. \<forall>(b, k)\<in>set rs. a \<noteq> b \<longrightarrow> clear_of (unat a) (unat n) (unat b) (unat k))"

lemma find_first: "(\<And>x. x \<in> set xs \<Longrightarrow> \<not> P x) \<Longrightarrow> P y \<Longrightarrow> List.find P (xs @ y # ys) = Some y"
  by (induction xs) auto

lemma regions_okD:
  assumes "regions_ok rs" and "(a, n) \<in> set rs"
  shows "span_ok (unat a) (unat n)"
    and "(b, k) \<in> set rs \<Longrightarrow> a \<noteq> b \<Longrightarrow> clear_of (unat a) (unat n) (unat b) (unat k)"
  using assms by (auto simp: regions_ok_def)

lemma span_not_clear: "span_ok a n \<Longrightarrow> span_ok a k \<Longrightarrow> \<not> clear_of a n a k"
  by (simp add: span_ok_def clear_of_def)

lemma regions_ok_Cons: "regions_ok ((a, n) # rs) \<longleftrightarrow> span_ok (unat a) (unat n) \<and> regions_ok rs \<and>
    (\<forall>(b, k)\<in>set rs. clear_of (unat a) (unat n) (unat b) (unat k))" (is "?l \<longleftrightarrow> ?r")
proof
  assume l: ?l
  have "a \<noteq> b" if "(b, k) \<in> set rs" for b k using l that by (force simp: regions_ok_def)
  then show ?r using l by (fastforce simp: regions_ok_def)
next
  assume r: ?r
  have "a \<noteq> b" if "(b, k) \<in> set rs" for b k
    using span_not_clear [of "unat a" "unat n" "unat k"] regions_okD(1) [of rs b k] r that by blast
  then have "a \<notin> fst ` set rs" by fastforce
  then show ?l using r clear_of_sym by (fastforce simp: regions_ok_def)
qed

lemma regions_ok_remove:
  "regions_ok (xs @ (a, n) # ys) \<longleftrightarrow> span_ok (unat a) (unat n) \<and> regions_ok (xs @ ys) \<and>
    (\<forall>(b, k)\<in>set (xs @ ys). clear_of (unat a) (unat n) (unat b) (unat k))"
proof (induction xs)
  case (Cons x xs)
  obtain b k where x: "x = (b, k)" by fastforce
  show ?case
    unfolding append_Cons x regions_ok_Cons Cons.IH
    using clear_of_sym [of "unat a" "unat n" "unat b" "unat k"] by auto
qed (simp add: regions_ok_Cons)

lemma unat_plus_8: "unat x + 8 < 2 ^ 64 \<Longrightarrow> unat ((x :: u64) + 8) = unat x + 8"
  by (simp add: unat_add_lem [THEN iffD1])

lemma regions_nodes_apart:
  assumes ok: "regions_ok rs"
  shows "nodes_apart (insert 0 (fst ` set rs))"
  unfolding nodes_apart_def
proof (intro ballI)
  fix x y assume xy: "x \<in> insert 0 (fst ` set rs)" "y \<in> insert 0 (fst ` set rs)"
  have span: "16 \<le> unat z" "unat z + 16 < 2 ^ 64" if "z \<in> fst ` set rs" for z
    using ok that by (auto simp: regions_ok_def span_ok_def)
  have "unat x \<noteq> unat y + 8"
  proof (cases "y = 0 \<or> x = 0 \<or> x = y")
    case True
    then show ?thesis using span [of x] xy(1) by fastforce
  next
    case False
    then obtain n k where m: "(x, n) \<in> set rs" "(y, k) \<in> set rs" using xy by auto
    have "clear_of (unat x) (unat n) (unat y) (unat k)" using regions_okD(2) [OF ok m] False by blast
    then show ?thesis
      using regions_okD(1) [OF ok m(1)] regions_okD(1) [OF ok m(2)] by (auto simp: span_ok_def clear_of_def)
  qed
  moreover have "unat (y + 8) = unat y + 8"
    using xy(2) span(2) [of y] by (intro unat_plus_8) force
  ultimately show "x \<noteq> y + 8" by auto
qed

text \<open>A node in a region of its own is none of the words of other nodes.\<close>

lemma node_words_apart:
  assumes ok: "regions_ok rs" and apart: "\<forall>(b, k)\<in>set rs. clear_of (unat a) (unat n) (unat b) (unat k)"
    and span: "span_ok (unat a) (unat n)"
  shows "a \<notin> node_words rs" and "a + 8 \<notin> node_words rs"
proof -
  have a8: "unat (a + 8) = unat a + 8" using span by (intro unat_plus_8) (simp add: span_ok_def)
  have *: "a \<noteq> b \<and> a \<noteq> b + 8 \<and> a + 8 \<noteq> b \<and> a + 8 \<noteq> b + 8" if "(b, k) \<in> set rs" for b k
  proof -
    have b: "span_ok (unat b) (unat k)" "clear_of (unat a) (unat n) (unat b) (unat k)"
      using ok apart that by (auto simp: regions_ok_def)
    have b8: "unat (b + 8) = unat b + 8" using b(1) by (intro unat_plus_8) (simp add: span_ok_def)
    show ?thesis
      unfolding word_unat_eq_iff a8 b8 using b span by (auto simp: span_ok_def clear_of_def)
  qed
  show "a \<notin> node_words rs" "a + 8 \<notin> node_words rs"
    unfolding node_words_def using * by fastforce+
qed

text \<open>The size of the block for a layout.\<close>

definition block_size :: "layout \<Rightarrow> nat" where
  "block_size l = (case size_align l of Some (sz, al) \<Rightarrow> sz | None \<Rightarrow> lsize l)"

definition ll_ok :: "linked_list \<Rightarrow> (u64 \<times> layout) set \<Rightarrow> bool" where
  "ll_ok s B \<longleftrightarrow> separate block_size B \<and> (\<forall>(p, l)\<in>B. size_align l \<noteq> None \<and> span_ok (unat p) (block_size l)) \<and>
     (\<exists>rs. region_chain (ll_mem s) (ll_head s) rs \<and> regions_ok rs \<and>
       (\<forall>(a, n)\<in>set rs. \<forall>(p, l)\<in>B. clear_of (unat a) (unat n) (unat p) (block_size l)))"

lemma size_align_Some:
  assumes "size_align l = Some (sz, al)" and "layout_ok l"
  shows "sz = block_size l" and "16 \<le> sz" and "lsize l \<le> sz" and "8 dvd sz" and "sz < 2 ^ 63" and "8 dvd al"
    and "lalign l dvd al" and "0 < al" and "al \<le> 4096"
proof -
  let ?pad = "(lsize l + al - 1) div al * al"
  have sz: "sz = max ?pad 16" "?pad < 2 ^ 63" and al: "al = max (lalign l) 8"
    using assms(1) by (auto simp: size_align_def Let_def LIST_NODE_SIZE_def LIST_NODE_ALIGN_def split: if_splits)
  obtain k where k: "lalign l = 2 ^ k" "lalign l \<le> 4096" using assms(2) by (auto simp: layout_ok_def)
  have "(8 :: nat) dvd 2 ^ k \<and> max (2 ^ k) (8 :: nat) = 2 ^ k \<or> (2 :: nat) ^ k dvd 8 \<and> max (2 ^ k) (8 :: nat) = 8"
  proof (cases "3 \<le> k")
    case True
    have "(2 :: nat) ^ 3 dvd 2 ^ k" using True by (rule le_imp_power_dvd)
    moreover have "(2 :: nat) ^ 3 \<le> 2 ^ k" using True by (rule power_increasing) simp
    ultimately show ?thesis by simp
  next
    case False
    then have k3: "k \<le> 3" by simp
    have "(2 :: nat) ^ k dvd 2 ^ 3" using k3 by (rule le_imp_power_dvd)
    moreover have "(2 :: nat) ^ k \<le> 2 ^ 3" using k3 by (rule power_increasing) simp
    ultimately show ?thesis by simp
  qed
  then show eight: "8 dvd al" and "lalign l dvd al" using k by (auto simp: al)
  show "0 < al" "al \<le> 4096" using k by (simp_all add: al)
  show "sz = block_size l" using assms(1) by (simp add: block_size_def)
  show "16 \<le> sz" "sz < 2 ^ 63" using sz by simp_all
  have "8 dvd ?pad" using eight by simp
  then show "8 dvd sz" using sz(1) by (auto simp: max_def)
  have "lsize l + al - 1 < ?pad + al"
    using \<open>0 < al\<close> div_mult_mod_eq [of "lsize l + al - 1" al] mod_less_divisor [of al "lsize l + al - 1"] by linarith
  then show "lsize l \<le> sz" using sz(1) \<open>0 < al\<close> by linarith
qed

section \<open>Adding and taking regions\<close>

locale exact_aligner = aligner +
  assumes exact: "0 < n \<Longrightarrow> n dvd unat a \<Longrightarrow> align_up a n = a"
begin

lemma add_region:
  assumes chain: "region_chain (ll_mem s) (ll_head s) rs" and ok: "regions_ok ((a, n) # rs)"
  shows "\<exists>t. add_free_region align_up a n s = (Ok (), t) \<and> region_chain (ll_mem t) (ll_head t) ((a, n) # rs)"
proof -
  have span: "span_ok (unat a) (unat n)" and apart: "\<forall>(b, k)\<in>set rs. clear_of (unat a) (unat n) (unat b) (unat k)"
    and rs: "regions_ok rs" using ok by (simp_all add: regions_ok_Cons)
  have "align_up a 8 = a" using span by (intro exact) (simp_all add: span_ok_def)
  moreover have "a \<noteq> 0" "\<not> unat n < 16" using span by (auto simp: span_ok_def)
  moreover have "a \<noteq> a + 8" by simp
  moreover note node_words_apart [OF rs apart span]
  then have "region_chain ((ll_mem s)(a := n, a + 8 := ll_head s)) (ll_head s) rs"
    using chain_cong [of rs "ll_mem s" "(ll_mem s)(a := n, a + 8 := ll_head s)"] chain by fastforce
  ultimately show ?thesis
    by (simp add: add_free_region_def LIST_NODE_ALIGN_def LIST_NODE_SIZE_def)
qed

lemma taken_region:
  assumes al: "0 < al" "al \<le> 4096" "8 dvd al" and sz: "8 dvd sz" "16 \<le> sz" "sz < 2 ^ 63"
    and span: "span_ok (unat a) (unat n)" and take: "alloc_from_region align_up a n (of_nat sz) al = Some start"
  obtains e where "checked_add start (of_nat sz) = Some e" and "unat e = unat start + sz" and "al dvd unat start"
    and "unat a \<le> unat start" and "unat e \<le> unat a + unat n" and "8 dvd unat e"
    and "unat (end_addr a n - e) = unat a + unat n - unat e"
    and "e = end_addr a n \<or> 16 \<le> unat (end_addr a n - e)"
proof -
  obtain e where e: "checked_add start (of_nat sz) = Some e" "start = align_up a al" "e \<le> end_addr a n"
      "0 < end_addr a n - e \<longrightarrow> 16 \<le> unat (end_addr a n - e)"
    using take by (auto simp: alloc_from_region_def Let_def LIST_NODE_SIZE_def not_less split: option.splits if_splits)
  have "unat (of_nat sz :: u64) = sz" using sz(3) by (simp add: unat_of_nat)
  then have ue: "unat e = unat start + sz" using checked_add_nat [OF e(1)] by simp
  have "unat a + al \<le> 2 ^ 64" using span al(2) by (simp add: span_ok_def)
  then have start: "a \<le> start" "al dvd unat start" using aligned_above [OF al(1)] e(2) by simp_all
  have "unat a + unat n < 2 ^ 64" using span by (simp add: span_ok_def)
  then have ua: "unat (end_addr a n) = unat a + unat n" by (simp add: end_addr_def unat_add_lem [THEN iffD1])
  have "8 dvd unat start" using al(3) start(2) by (rule dvd_trans)
  then have "8 dvd unat e" using sz(1) ue by simp
  moreover have "unat (end_addr a n - e) = unat a + unat n - unat e" using e(3) by (simp add: unat_sub ua)
  moreover have "e = end_addr a n \<or> 16 \<le> unat (end_addr a n - e)" using e(4) word_neq_0_conv by fastforce
  moreover have "unat a \<le> unat start" "unat e \<le> unat a + unat n" using start(1) e(3) ua by (simp_all add: word_le_nat_alt)
  ultimately show ?thesis using that e(1) ue start(2) by blast
qed

text \<open>An allocation takes the first region that fits, and puts its rest back.\<close>

lemma ll_alloc_run:
  assumes chain: "region_chain (ll_mem s) (ll_head s) rs" and ok: "regions_ok rs"
    and l: "layout_ok l" and sa: "size_align l = Some (sz, al)"
  shows "(\<forall>(a, n)\<in>set rs. alloc_from_region align_up a n (of_nat sz) al = None) \<and> ll_alloc align_up l s = Some (Ok 0, s) \<or>
    (\<exists>a n start xs ys t qs. rs = xs @ (a, n) # ys \<and> alloc_from_region align_up a n (of_nat sz) al = Some start \<and>
      (\<forall>(b, k)\<in>set xs. alloc_from_region align_up b k (of_nat sz) al = None) \<and>
      ll_alloc align_up l s = Some (Ok start, t) \<and> region_chain (ll_mem t) (ll_head t) (qs @ xs @ ys) \<and>
      (qs = [] \<and> unat start + sz = unat a + unat n \<or>
       (\<exists>e k. qs = [(e, k)] \<and> unat e = unat start + sz \<and> unat e + unat k = unat a + unat n \<and> span_ok (unat e) (unat k))))"
proof -
  note sizes = size_align_Some [OF sa l]
  have "distinct (map fst rs)" "0 \<notin> fst ` set rs" using ok by (auto simp: regions_ok_def span_ok_def)
  moreover have "next_of 0 s = ll_head s" by (simp add: next_of_def)
  ultimately obtain r t where f: "find_region align_up (of_nat sz) al 0 s = Some (r, t)" and post: "case r of
      None \<Rightarrow> t = s \<and> (\<forall>(a, n)\<in>set rs. alloc_from_region align_up a n (of_nat sz) al = None)
    | Some (a, start) \<Rightarrow> (\<exists>n xs ys. rs = xs @ (a, n) # ys \<and> alloc_from_region align_up a n (of_nat sz) al = Some start \<and>
        (\<forall>(b, k)\<in>set xs. alloc_from_region align_up b k (of_nat sz) al = None) \<and>
        region_chain (ll_mem t) (next_of 0 t) (xs @ ys) \<and> ll_mem t a = n \<and> ((0 :: u64) \<noteq> 0 \<longrightarrow> ll_head t = ll_head s) \<and>
        (\<forall>w. w \<notin> (\<lambda>x. x + 8) ` (insert 0 (fst ` set rs)) \<longrightarrow> ll_mem t w = ll_mem s w))"
    using find_region_run [of s 0 rs align_up "of_nat sz" al] chain regions_nodes_apart [OF ok] by auto
  show ?thesis
  proof (cases r)
    case None
    then show ?thesis using post f by (simp add: ll_alloc_def sa)
  next
    case (Some y)
    obtain a start where y: "y = (a, start)" by fastforce
    from post [unfolded Some y option.case prod.case] obtain n xs ys where
      P: "rs = xs @ (a, n) # ys" "alloc_from_region align_up a n (of_nat sz) al = Some start"
        "\<forall>(b, k)\<in>set xs. alloc_from_region align_up b k (of_nat sz) al = None"
        "region_chain (ll_mem t) (ll_head t) (xs @ ys)" "ll_mem t a = n"
      by (auto simp: next_of_def)
    have R: "span_ok (unat a) (unat n)" "regions_ok (xs @ ys)"
        "\<forall>(b, k)\<in>set (xs @ ys). clear_of (unat a) (unat n) (unat b) (unat k)"
      using ok unfolding P(1) regions_ok_remove by blast+
    obtain e where e: "checked_add start (of_nat sz) = Some e" "unat e = unat start + sz" "unat a \<le> unat start"
        "unat e \<le> unat a + unat n" "8 dvd unat e" "unat (end_addr a n - e) = unat a + unat n - unat e"
        "e = end_addr a n \<or> 16 \<le> unat (end_addr a n - e)"
      by (rule taken_region [OF sizes(8,9,6,4,2,5) R(1) P(2)])
    let ?k = "end_addr a n - e"
    have run: "ll_alloc align_up l s = Some
        (bind (if 0 < ?k then add_free_region align_up e ?k else ret ()) (\<lambda>_. ret start) t)"
      using e(1) P(5) by (simp add: ll_alloc_def sa f Some y)
    have finish: ?thesis if "ll_alloc align_up l s = Some (Ok start, u)" "region_chain (ll_mem u) (ll_head u) (qs @ xs @ ys)"
        "qs = [] \<and> unat start + sz = unat a + unat n \<or>
          (\<exists>e k. qs = [(e, k)] \<and> unat e = unat start + sz \<and> unat e + unat k = unat a + unat n \<and> span_ok (unat e) (unat k))"
      for u qs
      by (rule disjI2, rule exI [of _ a], rule exI [of _ n], rule exI [of _ start], rule exI [of _ xs], rule exI [of _ ys],
          rule exI [of _ u], rule exI [of _ qs], intro conjI P(1-3) that)
    show ?thesis
    proof (cases "e = end_addr a n")
      case True
      have "ll_alloc align_up l s = Some (Ok start, t)" unfolding run by (simp add: True ret_def)
      moreover have "unat start + sz = unat a + unat n" using e(2,4,6) True by simp
      ultimately show ?thesis using finish [of t "[]"] P(4) by simp
    next
      case False
      then have k: "16 \<le> unat ?k" "0 < ?k" using e(7) by (auto simp: word_gt_0)
      have end': "unat e + unat ?k = unat a + unat n" using e(4,6) by simp
      have span: "span_ok (unat e) (unat ?k)"
        using R(1) e(2,3,5) end' k(1) sizes(2) by (simp add: span_ok_def)
      moreover have "\<forall>(b, k)\<in>set (xs @ ys). clear_of (unat e) (unat ?k) (unat b) (unat k)"
        using R(3) e(2,3) end' clear_of_inside [of "unat a" "unat n" _ _ "unat e" "unat ?k"] by fastforce
      ultimately have "regions_ok ((e, ?k) # xs @ ys)" using R(2) by (simp add: regions_ok_Cons)
      then obtain u where u: "add_free_region align_up e ?k t = (Ok (), u)" "region_chain (ll_mem u) (ll_head u) ([(e, ?k)] @ xs @ ys)"
        using add_region [OF P(4)] by auto
      have alloc: "ll_alloc align_up l s = Some (Ok start, u)"
        unfolding run using k(2) u(1) by (simp add: ret_def)
      have rest: "[(e, ?k)] = [] \<and> unat start + sz = unat a + unat n \<or>
          (\<exists>e' k. [(e, ?k)] = [(e', k)] \<and> unat e' = unat start + sz \<and> unat e' + unat k = unat a + unat n \<and> span_ok (unat e') (unat k))"
        using e(2) end' span by simp
      show ?thesis using alloc u(2) rest by (rule finish)
    qed
  qed
qed

lemma block_not_null:
  assumes ok: "regions_ok rs" and r: "(a, n) \<in> set rs" and l: "layout_ok l" and sa: "size_align l = Some (sz, al)"
    and take: "alloc_from_region align_up a n (of_nat sz) al = Some p"
  shows "p \<noteq> 0"
proof -
  note sizes = size_align_Some [OF sa l]
  have span: "span_ok (unat a) (unat n)" by (rule regions_okD(1) [OF ok r])
  have "unat a \<le> unat p" by (rule taken_region [OF sizes(8,9,6,4,2,5) span take]) blast
  then show ?thesis using span by (auto simp: span_ok_def)
qed

lemma ll_alloc_ok:
  assumes ok: "ll_ok s B" and l: "layout_ok l" and sa: "size_align l \<noteq> None"
  shows "\<exists>p t. ll_alloc align_up l s = Some (Ok p, t) \<and>
    (p = 0 \<and> t = s \<or> p \<noteq> 0 \<and> (p, l) \<notin> B \<and> ll_ok t (insert (p, l) B))"
proof -
  obtain sz al where sza: "size_align l = Some (sz, al)" using sa by auto
  note sizes = size_align_Some [OF sza l]
  obtain rs where chain: "region_chain (ll_mem s) (ll_head s) rs" and rs: "regions_ok rs"
    and apart: "\<And>a n p k. (a, n) \<in> set rs \<Longrightarrow> (p, k) \<in> B \<Longrightarrow> clear_of (unat a) (unat n) (unat p) (block_size k)"
    and S: "separate block_size B" and B: "\<And>p k. (p, k) \<in> B \<Longrightarrow> size_align k \<noteq> None \<and> span_ok (unat p) (block_size k)"
    using ok by (fastforce simp: ll_ok_def)
  from ll_alloc_run [OF chain rs l sza] show ?thesis
  proof (rule disjE, goal_cases)
    case 1
    then show ?case by blast
  next
    case 2
    then show ?case
    proof (elim exE conjE, goal_cases)
      case (1 a n start xs ys t qs)
      note 2 = 1
      have R: "span_ok (unat a) (unat n)" "regions_ok (xs @ ys)"
          "\<forall>(b, k)\<in>set (xs @ ys). clear_of (unat a) (unat n) (unat b) (unat k)"
        using rs unfolding 2(1) regions_ok_remove by blast+
      obtain e :: u64 where e: "unat e = unat start + sz" "al dvd unat start" "unat a \<le> unat start" "unat e \<le> unat a + unat n"
        by (rule taken_region [OF sizes(8,9,6,4,2,5) R(1) 2(2)]) blast
      have "8 dvd unat start" using sizes(6) e(2) by (rule dvd_trans)
      then have span: "span_ok (unat start) (block_size l)"
        using R(1) e sizes(1,2) by (simp add: span_ok_def)
      then have start: "start \<noteq> 0" by (auto simp: span_ok_def)
      have new: "clear_of (unat start) (block_size l) (unat q) (block_size k)" if "(q, k) \<in> B" for q k
        using clear_of_inside [OF apart [of a n q k]] that e sizes(1) unfolding 2(1) by simp
      have fresh: "(start, l) \<notin> B" using new [of start l] span span_not_clear by blast
      have "lalign l dvd unat start" using sizes(7) e(2) by (rule dvd_trans)
      have "separate block_size (insert (start, l) B)"
      proof (rule separateI)
        show "layout_ok k \<and> q \<noteq> 0 \<and> unat q + block_size k \<le> 2 ^ 64 \<and> lalign k dvd unat q" if "(q, k) \<in> insert (start, l) B" for q k
          using that separateD [OF S, of q k] l start span \<open>lalign l dvd unat start\<close> by (auto simp: span_ok_def)
        show "unat q + block_size k \<le> unat r \<or> unat r + block_size j \<le> unat q"
          if "(q, k) \<in> insert (start, l) B" "(r, j) \<in> insert (start, l) B" "(q, k) \<noteq> (r, j)" for q k r j
          using that separate_apart [OF S, of q k r j] new [of q k] new [of r j] by (auto simp: clear_of_def)
      qed
      moreover have "\<forall>(q, k)\<in>insert (start, l) B. size_align k \<noteq> None \<and> span_ok (unat q) (block_size k)"
        using B span sa by auto
      moreover have "regions_ok (qs @ xs @ ys) \<and>
          (\<forall>(b, m)\<in>set (qs @ xs @ ys). \<forall>(q, k)\<in>insert (start, l) B. clear_of (unat b) (unat m) (unat q) (block_size k))"
      proof -
        have old: "clear_of (unat b) (unat m) (unat q) (block_size k)" if "(b, m) \<in> set (xs @ ys)" "(q, k) \<in> insert (start, l) B" for b m q k
        proof (cases "(q, k) = (start, l)")
          case True
          have "clear_of (unat a) (unat n) (unat b) (unat m)" using R(3) that(1) by blast
          then have "clear_of (unat start) (block_size l) (unat b) (unat m)"
            by (rule clear_of_inside) (use e sizes(1) in simp_all)
          then show ?thesis using True clear_of_sym by simp
        next
          case False
          then have "(q, k) \<in> B" using that(2) by blast
          moreover have "(b, m) \<in> set rs" using that(1) unfolding 2(1) by auto
          ultimately show ?thesis using apart by blast
        qed
        from 2(6) show ?thesis
        proof (elim disjE exE conjE, goal_cases)
          case 1
          then show ?case using R(2) old by auto
        next
          case (2 f k)
          have ek: "unat f = unat start + sz" "unat f + unat k = unat a + unat n" using 2 by simp_all
          have "\<forall>(b, m)\<in>set (xs @ ys). clear_of (unat f) (unat k) (unat b) (unat m)"
            using R(3) e(3) ek clear_of_inside [of "unat a" "unat n" _ _ "unat f" "unat k"] by fastforce
          then have "regions_ok (qs @ xs @ ys)" using 2 R(2) by (simp add: regions_ok_Cons)
          moreover have "clear_of (unat f) (unat k) (unat q) (block_size j)" if "(q, j) \<in> insert (start, l) B" for q j
          proof (cases "(q, j) = (start, l)")
            case True
            then show ?thesis using ek(1) sizes(1) by (simp add: clear_of_def)
          next
            case False
            then have "(q, j) \<in> B" using that by blast
            then have "clear_of (unat a) (unat n) (unat q) (block_size j)"
              using apart [of a n q j] unfolding \<open>rs = xs @ (a, n) # ys\<close> by simp
            then show ?thesis by (rule clear_of_inside) (use e(3) ek in simp_all)
          qed
          ultimately show ?case using old 2 by auto
        qed
      qed
      ultimately have "ll_ok t (insert (start, l) B)" using 2(5) unfolding ll_ok_def by blast
      then show ?case using 2(4) start fresh by blast
    qed
  qed
qed

lemma ll_dealloc_ok:
  assumes ok: "ll_ok s B" and b: "(p, l) \<in> B"
  shows "\<exists>t. ll_dealloc align_up p l s = (Ok (), t) \<and> ll_ok t (B - {(p, l)})"
proof -
  obtain rs where chain: "region_chain (ll_mem s) (ll_head s) rs" and rs: "regions_ok rs"
    and apart: "\<And>a n p k. (a, n) \<in> set rs \<Longrightarrow> (p, k) \<in> B \<Longrightarrow> clear_of (unat a) (unat n) (unat p) (block_size k)"
    and S: "separate block_size B" and B: "\<And>p k. (p, k) \<in> B \<Longrightarrow> size_align k \<noteq> None \<and> span_ok (unat p) (block_size k)"
    using ok by (fastforce simp: ll_ok_def)
  obtain sz al where sza: "size_align l = Some (sz, al)" using B [OF b] by auto
  note sizes = size_align_Some [OF sza separateD(1) [OF S b]]
  have u: "unat (of_nat sz :: u64) = block_size l" using sizes(1,5) by (simp add: unat_of_nat)
  have "clear_of (unat p) (block_size l) (unat a) (unat n)" if "(a, n) \<in> set rs" for a n
    using apart [OF that b] clear_of_sym by simp
  then have reg: "regions_ok ((p, of_nat sz) # rs)" using B [OF b] rs by (auto simp: regions_ok_Cons u)
  obtain t where t: "add_free_region align_up p (of_nat sz) s = (Ok (), t)"
      "region_chain (ll_mem t) (ll_head t) ((p, of_nat sz) # rs)"
    using add_region [OF chain reg] by blast
  have "clear_of (unat a) (unat n) (unat q) (block_size k)"
    if "(a, n) \<in> set ((p, of_nat sz) # rs)" "(q, k) \<in> B - {(p, l)}" for a n q k
  proof (cases "(a, n) \<in> set rs")
    case True
    then show ?thesis using apart that(2) by blast
  next
    case False
    then have "a = p" "unat n = block_size l" using that(1) u by auto
    moreover have "(p, l) \<noteq> (q, k)" "(q, k) \<in> B" using that(2) by auto
    ultimately show ?thesis
      using separate_apart [OF S b, of q k] by (simp add: clear_of_def)
  qed
  then have "ll_ok t (B - {(p, l)})"
    unfolding ll_ok_def using t(2) reg B separate_subset [OF S, of "B - {(p, l)}"] by blast
  then show ?thesis using t(1) by (simp add: ll_dealloc_def sza bind_def expect_def ret_def)
qed

end

text \<open>The allocator as a function, for layouts whose padded size is not too big; a null pointer for the others.\<close>

definition ll_block :: "(u64 \<Rightarrow> nat \<Rightarrow> u64) \<Rightarrow> layout \<Rightarrow> linked_list \<Rightarrow> u64 \<times> linked_list" where
  "ll_block au l s = (case ll_alloc au l s of Some (Ok p, t) \<Rightarrow> (p, t) | _ \<Rightarrow> (0, s))"

sublocale exact_aligner \<subseteq> ll: heap "ll_block align_up" "ll_dealloc align_up" ll_ok block_size
proof
  fix l s B p t
  show "lsize l \<le> block_size l" if "layout_ok l"
    using size_align_Some(1,3) [OF _ that] by (cases "size_align l") (auto simp: block_size_def)
  show "separate block_size B" if "ll_ok s B" using that by (simp add: ll_ok_def)
  assume ok: "ll_ok s B"
  show "(p, l) \<notin> B \<and> ll_ok t (insert (p, l) B)" if "layout_ok l" "ll_block align_up l s = (p, t)" "p \<noteq> 0"
  proof (cases "size_align l")
    case None
    then show ?thesis using that by (simp add: ll_block_def ll_alloc_def)
  next
    case (Some x)
    then show ?thesis using ll_alloc_ok [OF ok that(1)] that by (auto simp: ll_block_def)
  qed
  show "ll_ok t B" if "layout_ok l" "ll_block align_up l s = (0, t)"
  proof (cases "size_align l")
    case None
    then show ?thesis using that ok by (simp add: ll_block_def ll_alloc_def)
  next
    case (Some x)
    then show ?thesis using ll_alloc_ok [OF ok that(1)] that ok by (auto simp: ll_block_def)
  qed
  show "\<exists>t. ll_dealloc align_up p l s = (Ok (), t) \<and> ll_ok t (B - {(p, l)})" if "(p, l) \<in> B"
    using ll_dealloc_ok [OF ok that] .
qed

interpretation exact: exact_aligner round_up
proof
  fix n :: nat and a :: u64
  assume n: "0 < n" and d: "n dvd unat a"
  obtain m where m: "unat a = n * m" using d by auto
  have "(unat a + n - 1) div n = m"
    using n unfolding m by (intro div_nat_eqI) (simp_all add: algebra_simps)
  then have "(unat a + n - 1) div n * n = unat a" by (simp add: m)
  then show "round_up a n = a" unfolding round_up_def by simp
qed

text \<open>The empty allocator with one region is in order.\<close>

lemma ll_init_ok:
  assumes "span_ok (unat start) (unat n)"
  shows "\<exists>s. ll_init round_up start n (ll_new m) = (Ok (), s) \<and> ll_ok s {}"
proof -
  have "regions_ok [(start, n)]" using assms by (simp add: regions_ok_def)
  then obtain s where "add_free_region round_up start n (ll_new m) = (Ok (), s)" "region_chain (ll_mem s) (ll_head s) [(start, n)]"
    using exact.add_region [of "ll_new m" "[]" start n] by (auto simp: ll_new_def)
  then show ?thesis
    using \<open>regions_ok [(start, n)]\<close> by (auto simp: ll_init_def ll_ok_def separate_def intro!: exI [of _ "[(start, n)]"])
qed

end
