(* ===== verification/HeapProps.thy ===== *)
theory HeapProps
  imports LinkedList
begin

text \<open>
  The properties of the kernel heap: the blocks in use are aligned and apart whatever clients do that
  keep to the rules, a freed block is the next one of its size class, and the free lists in memory
  behave as lists. The concrete heap of the witnesses has the bump allocator behind the free lists.
\<close>

section \<open>Safety\<close>


text \<open>A heap whose mapper accepts every page, from enough frames.\<close>

definition accept_page :: "u64 \<Rightarrow> u64 \<Rightarrow> u64 \<Rightarrow> (frame_alloc mem, unit) program" where
  "accept_page page frame fl = ret ()"

definition many_frames :: "frame_alloc mem" where
  "many_frames = \<lparr>pm = (\<lambda>_ _. 0), fa = \<lparr>memory_map = [], next_frame = 0, recycled_frames = replicate 256 0\<rparr>, phys_offset = Some 0\<rparr>"

definition bump_start :: "u64 \<Rightarrow> u64 \<Rightarrow> bump \<Rightarrow> bump" where
  "bump_start start sz b = snd (bump_init True start sz b)"

definition bump_fallback :: "layout \<Rightarrow> bump \<Rightarrow> u64 option \<times> bump" where
  "bump_fallback = as_option (bump_alloc round_up)"

definition bump_heap :: "bump fsb" where
  "bump_heap = fsb_init bump_start HEAP_START HEAP_SIZE (fsb_new bump_new (\<lambda>_. 0))"

lemma take_frames:
  assumes "recycled_frames (fa m) = replicate (length xs + n) f"
  shows "\<exists>m'. foreach xs (\<lambda>page. bind (take_frame allocate_frame msg) (\<lambda>frame. accept_page page frame fl)) m = (Ok (), m')"
  using assms
proof (induction xs arbitrary: m)
  case (Cons x xs)
  let ?r = "replicate (length xs + n) f"
  let ?m = "m\<lparr>fa := (fa m)\<lparr>recycled_frames := ?r\<rparr>\<rparr>"
  have "recycled_frames (fa m) = ?r @ [f]" using Cons(2) by (simp add: replicate_append_same)
  then have "take_frame allocate_frame msg m = (Ok f, ?m)"
    by (simp add: take_frame_def allocate_frame_def)
  moreover obtain m' where "foreach xs (\<lambda>page. bind (take_frame allocate_frame msg) (\<lambda>frame. accept_page page frame fl)) ?m = (Ok (), m')"
    using Cons(1) [of ?m] by auto
  ultimately show ?case by (simp add: bind_def accept_page_def ret_def)
qed (simp add: ret_def)

lemma heap_addresses: "virt_ok x86_bits HEAP_START" "virt_ok x86_bits (HEAP_START + HEAP_SIZE)"
  "virt_ok x86_bits (HEAP_START + HEAP_SIZE - 1)" "containing_frame HEAP_START = HEAP_START"
  "containing_frame (HEAP_START + HEAP_SIZE - 1) = HEAP_START + 0xFF000"
  by (simp_all add: x86_bits_def HEAP_START_def HEAP_SIZE_def containing_frame_def mask_eq_exp_minus_1)

lemma heap_pages: "length (pages_between HEAP_START (HEAP_START + 0xFF000)) = 256"
  by (simp add: pages_between_def HEAP_START_def)

lemma many_frames_init:
  "\<exists>m'. init_heap x86_bits accept_page bump_start (many_frames, fsb_new bump_new (\<lambda>_. 0)) = (Ok (), m', bump_heap)"
proof -
  have "recycled_frames (fa many_frames) = replicate (length (pages_between HEAP_START (HEAP_START + 0xFF000)) + 0) 0"
    by (simp add: heap_pages many_frames_def)
  from take_frames [OF this, of "''FrameAllocationFailed''" "PRESENT OR WRITABLE"]
  show ?thesis
    by (auto simp: init_heap_def virt_new_def heap_addresses bind_def ret_def zoom_def modify_def bump_heap_def)
qed

lemma bump_heap_fallback: "bump_start HEAP_START HEAP_SIZE b =
    b\<lparr>b_start := HEAP_START, b_end := HEAP_START + HEAP_SIZE, b_next := HEAP_START\<rparr>"
  by (simp add: bump_start_def bump_init_def bind_def modify_def checked_add_def HEAP_START_def HEAP_SIZE_def)

lemma bump_heap_ok: "bump_ok (bump_start HEAP_START HEAP_SIZE bump_new) {}"
  unfolding bump_heap_fallback by (simp add: bump_ok_def bump_new_def HEAP_START_def HEAP_SIZE_def separate_def)

lemma bump_contract: "heap (fallback_alloc bump_fallback) (bump_dealloc True) bump_ok lsize"
  unfolding bump_fallback_def by (rule kheap.fb.heap_axioms)

lemma bump_heap_run: "\<exists>t. heap_reach bump_fallback (bump_dealloc True) bump_heap t {(HEAP_START, \<lparr>lsize = 10, lalign = 4\<rparr>)} \<and>
    fsb_alloc bump_fallback \<lparr>lsize = 10, lalign = 4\<rparr> bump_heap = (HEAP_START, t)"
proof -
  let ?l = "\<lparr>lsize = 10, lalign = 4\<rparr>"
  have i: "list_index ?l = Some 1"
    by (simp add: list_index_def first_index_Some_iff BLOCK_SIZES_def less_Suc_eq)
  have "round_up HEAP_START 16 = HEAP_START" by (simp add: round_up_def HEAP_START_def)
  then obtain t where t: "fsb_alloc bump_fallback ?l bump_heap = (HEAP_START, t)"
    using i by (simp add: fsb_alloc_def bump_heap_def fsb_new_def fsb_init_def bump_fallback_def fallback_alloc_as_option
        bump_heap_fallback bump_alloc_def class_layout_def BLOCK_SIZES_def checked_add_def)
      (simp add: HEAP_START_def HEAP_SIZE_def)
  have "layout_ok ?l" by (auto simp: layout_ok_def intro: exI [of _ 2])
  from heap_reach.alloc [OF heap_reach.start this t] t show ?thesis by (auto simp: HEAP_START_def)
qed


section \<open>Reuse\<close>

text \<open>C37. A freed block is reused first. Freeing a block that is in use and has a size class, and then
  allocating any layout of the same class, returns the same block and leaves the free lists, the fallback
  allocator and all other memory as they were before both; the block's node word is cleared.\<close>

theorem free_then_alloc:
  assumes crate: "heap (fallback_alloc ff) fr ok granted"
    and ok: "fsb_ok ok s B" and b: "(p, l) \<in> B" and class_of: "list_index l = Some i" "list_index k = Some i"
  shows "\<exists>t u. fsb_dealloc fr p l s = (Ok (), t) \<and> fsb_ok ok t (B - {(p, l)}) \<and> fsb_alloc ff k t = (p, u) \<and>
     list_heads u = list_heads s \<and> fallback u = fallback s \<and> nodes u = (nodes s)(p := 0)"
proof -
  have f: "fixed_blocks ff fr ok granted" using crate by (simp add: fixed_blocks_def)
  obtain t where t: "fsb_dealloc fr p l s = (Ok (), t)" "fsb_ok ok t (B - {(p, l)})"
    using fixed_blocks.fsb_dealloc_ok [OF f ok b] by blast
  have i: "i < 9" using list_index_Some [OF class_of(1)] by simp
  have "p \<noteq> 0" by (rule separateD(2) [OF fixed_blocks.ok_apart [OF f ok] b])
  moreover have "length (list_heads s) = 9" using ok by (auto simp: fsb_ok_def represents_def)
  moreover have "t = s\<lparr>nodes := (nodes s)(p := list_heads s ! i), list_heads := (list_heads s)[i := p]\<rparr>"
    using t(1) class_of(1) by (auto simp: fsb_dealloc_def modify_def panic_def split: if_splits)
  ultimately show ?thesis
    using t i class_of(2) by (simp add: fsb_alloc_def)
qed

theorem free_then_alloc_witness:
  "\<exists>s t u. fsb_dealloc (bump_dealloc True) HEAP_START \<lparr>lsize = 10, lalign = 4\<rparr> s = (Ok (), t) \<and>
     fsb_alloc bump_fallback \<lparr>lsize = 16, lalign = 16\<rparr> t = (HEAP_START, u)"
proof -
  obtain s where s: "heap_reach bump_fallback (bump_dealloc True) bump_heap s {(HEAP_START, \<lparr>lsize = 10, lalign = 4\<rparr>)}"
    using bump_heap_run by blast
  have f: "fixed_blocks bump_fallback (bump_dealloc True) bump_ok lsize" using bump_contract by (simp add: fixed_blocks_def)
  have "fsb_ok bump_ok bump_heap {}"
    using bump_heap_ok by (intro fsb_new_ok) (simp_all add: bump_heap_def fsb_init_def fsb_new_def)
  from fixed_blocks.reach_ok [OF f s this]
  have ok: "fsb_ok bump_ok s {(HEAP_START, \<lparr>lsize = 10, lalign = 4\<rparr>)}" .
  have i: "list_index \<lparr>lsize = 10, lalign = 4\<rparr> = Some 1" "list_index \<lparr>lsize = 16, lalign = 16\<rparr> = Some 1"
    by (simp_all add: list_index_def first_index_Some_iff BLOCK_SIZES_def less_Suc_eq)
  show ?thesis using free_then_alloc [OF bump_contract ok _ i] by blast
qed

section \<open>Refinement\<close>

text \<open>C38. The free lists kept in the freed memory implement nine lists of blocks. When the memory represents the
  lists, every allocation returns what the allocator on lists returns, every free of a block that is on no
  list has the result it has there, and the memory represents the lists afterwards.\<close>

theorem fsb_refines_lists:
  assumes R: "represents s a"
  shows "fst (fsb_alloc ff l s) = fst (lists_alloc ff l a) \<and>
    represents (snd (fsb_alloc ff l s)) (snd (lists_alloc ff l a)) \<and>
    (p \<noteq> 0 \<and> (\<forall>j<9. p \<notin> set (fst a ! j)) \<longrightarrow>
       fst (fsb_dealloc fr p l s) = fst (lists_dealloc fr p l a) \<and>
       represents (snd (fsb_dealloc fr p l s)) (snd (lists_dealloc fr p l a)))"
proof -
  obtain q t where run: "fsb_alloc ff l s = (q, t)" by fastforce
  obtain r b where abs: "lists_dealloc fr p l a = (r, b)" by (cases "lists_dealloc fr p l a")
  show ?thesis
    using alloc_represents [OF R run] run dealloc_represents [OF R _ _ abs] abs by auto
qed

theorem fsb_refines_lists_witness:
  "represents (snd (fsb_dealloc (bump_dealloc True) 0xFFFF888000000040 \<lparr>lsize = 64, lalign = 8\<rparr> bump_heap))
     ((replicate 9 []) [3 := [0xFFFF888000000040]], fallback bump_heap)"
proof -
  have R: "represents bump_heap (replicate 9 [], fallback bump_heap)"
    by (simp add: represents_def lists_apart_def bump_heap_def fsb_init_def fsb_new_def)
  have "list_index \<lparr>lsize = 64, lalign = 8\<rparr> = Some 3"
    by (simp add: list_index_def first_index_Some_iff BLOCK_SIZES_def less_Suc_eq numeral_eq_Suc)
  then show ?thesis
    using fsb_refines_lists [OF R, of bump_fallback "\<lparr>lsize = 64, lalign = 8\<rparr>" "0xFFFF888000000040" "bump_dealloc True"]
    by (simp add: lists_dealloc_def)
qed

section \<open>The linked-list allocator\<close>



end
