(* ===== verification/Loading.thy ===== *)
theory Loading
  imports Exec Duplicate
begin

text \<open>
  What program loading does to the new address space. The locale \<open>mapper\<close> is the contract of
  \<open>OffsetPageTable::map_to\<close>. Under it \<open>map_page\<close> adds one zeroed page, a LOAD segment adds its pages and
  its bytes, and \<open>setup_user_stack\<close> lays out the arguments; \<open>confined\<close> says that nothing outside the new
  space and the free frames is touched, also on the error exits.
\<close>

section \<open>Staying inside an address space\<close>

text \<open>As \<open>evolves\<close>, but frames may be lost: \<open>map_page\<close> does not give its frame back when \<open>map_to\<close> fails.\<close>

definition confined :: "x86 \<Rightarrow> u64 \<Rightarrow> frame_alloc mem \<Rightarrow> frame_alloc mem \<Rightarrow> bool" where
  "confined X r s t \<longleftrightarrow> space_ok X avail_frames frame_alloc_ok t r \<and>
     space_frames X (pm t) r \<union> avail_frames (fa t) \<subseteq> space_frames X (pm s) r \<union> avail_frames (fa s) \<and>
     avail_frames (fa t) \<subseteq> avail_frames (fa s) \<and>
     (\<forall>f. f \<notin> space_frames X (pm s) r \<union> avail_frames (fa s) \<longrightarrow> pm t f = pm s f) \<and>
     (\<forall>i\<ge>256. pm t r i = pm s r i)"

lemma confined_refl: "space_ok X avail_frames frame_alloc_ok s r \<Longrightarrow> confined X r s s"
  by (simp add: confined_def)

lemma confined_trans: "confined X r s t \<Longrightarrow> confined X r t u \<Longrightarrow> confined X r s u"
proof -
  assume st: "confined X r s t" and tu: "confined X r t u"
  have "pm u f = pm s f" if f: "f \<notin> space_frames X (pm s) r \<union> avail_frames (fa s)" for f
  proof -
    have "f \<notin> space_frames X (pm t) r \<union> avail_frames (fa t)" using st f unfolding confined_def by blast
    then have "pm u f = pm t f" using tu by (simp add: confined_def)
    then show ?thesis using st f by (simp add: confined_def)
  qed
  then show ?thesis using st tu by (auto simp: confined_def)
qed

lemma evolves_confined:
  "evolves X avail_frames frame_alloc_ok r s t \<Longrightarrow> avail_frames (fa t) \<subseteq> avail_frames (fa s) \<Longrightarrow> confined X r s t"
  unfolding evolves_def confined_def by blast

lemma wrote_confined: "wrote X avail_frames frame_alloc_ok r a bs s t \<Longrightarrow> confined X r s t"
  by (rule evolves_confined) (simp_all add: wrote_def)

text \<open>Only memory and the console change.\<close>

definition memory_only :: "'h env \<Rightarrow> u64 \<Rightarrow> 'h kernel \<Rightarrow> 'h kernel \<Rightarrow> bool" where
  "memory_only E r s t \<longleftrightarrow> (\<exists>m o'. t = s\<lparr>k_mem := m, k_out := o'\<rparr>) \<and> confined (crate E) r (k_mem s) (k_mem t)"

lemma memory_only_refl: "user_space E s r \<Longrightarrow> memory_only E r s s"
  unfolding memory_only_def by (intro conjI exI [of _ "k_mem s"] exI [of _ "k_out s"] confined_refl) simp_all

lemma memory_only_trans: "memory_only E r s t \<Longrightarrow> memory_only E r t u \<Longrightarrow> memory_only E r s u"
  unfolding memory_only_def using confined_trans by fastforce

lemma memory_only_mem: "confined (crate E) r (k_mem s) m \<Longrightarrow> memory_only E r s (s\<lparr>k_mem := m\<rparr>)"
  unfolding memory_only_def by (intro conjI exI [of _ m] exI [of _ "k_out s"]) simp_all

lemma memory_only_space: "memory_only E r s t \<Longrightarrow> user_space E t r"
  by (simp add: memory_only_def confined_def)

lemma memory_only_frames: "memory_only E r s t \<Longrightarrow> avail_frames (fa (k_mem t)) \<subseteq> avail_frames (fa (k_mem s))"
  by (simp add: memory_only_def confined_def)

lemma written_memory_only: "written E r a bs s t \<Longrightarrow> memory_only E r s t"
  unfolding written_def memory_only_def using wrote_confined by fastforce

section \<open>The contract of the mapper\<close>

locale mapper =
  fixes E :: "'h env"
  assumes crate_laws: "paging_crate (crate E)"
    and map_to_outcome: "space_ok (crate E) avail_frames frame_alloc_ok s r \<Longrightarrow> k < 2 ^ 35 \<Longrightarrow> flag_word fl \<Longrightarrow>
      contains fl PRESENT \<Longrightarrow> allocate_frame (fa s) = (Some f, a) \<Longrightarrow>
      ends
        (\<lambda>_ t. page_view (crate E) (pm s) r k = None \<and> evolves (crate E) avail_frames frame_alloc_ok r s t \<and>
           avail_frames (fa t) \<subseteq> avail_frames (fa s) \<and> card (avail_frames (fa s)) \<le> card (avail_frames (fa t)) + 4 \<and>
           (\<forall>j<2 ^ 35. page_view (crate E) (pm t) r j =
             (if j = k then Some (f, fl, \<lambda>_. 0) else page_view (crate E) (pm s) r j)))
        (\<lambda>e t. confined (crate E) r s t \<and>
           (page_view (crate E) (pm s) r k \<noteq> None \<or> card (avail_frames (fa s)) < 4))
        (map_to E r (page_addr k) f fl (zero_frame f (s\<lparr>fa := a\<rparr>)))"

section \<open>Mapping pages\<close>

abbreviation free_frames :: "'h kernel \<Rightarrow> nat" where
  "free_frames s \<equiv> card (avail_frames (fa (k_mem s)))"

context mapper
begin

lemma map_page_run:
  assumes sp: "user_space E s r" and k: "k < 2 ^ 35" and fl: "flag_word fl" "contains fl PRESENT"
  shows "ends
    (\<lambda>_ t. memory_only E r s t \<and> free_frames s \<le> free_frames t + 4 \<and> user_page E s r k = None \<and>
       (\<exists>f. \<forall>j<2 ^ 35. user_page E t r j = (if j = k then Some (f, fl, \<lambda>_. 0) else user_page E s r j)))
    (\<lambda>e t. memory_only E r s t \<and> (user_page E s r k \<noteq> None \<or> free_frames s < 4))
    (map_page E r (page_addr k) fl s)"
proof -
  note o' = sp [unfolded space_ok_def]
  obtain x a where al: "allocate_frame (fa (k_mem s)) = (x, a)" by fastforce
  show ?thesis
  proof (cases x)
    case None
    have B: "avail_frames (fa (k_mem s)) = {}" "avail_frames a = {}" "frame_alloc_ok a"
      using boot.alloc_None [OF _ al [unfolded None]] o' by blast+
    have "confined (crate E) r (k_mem s) ((k_mem s)\<lparr>fa := a\<rparr>)"
      using B o' by (simp add: confined_def space_ok_def)
    then show ?thesis
      using al None B memory_only_mem [of E r s]
      by (simp add: map_page_def on_mem_def zoom_def take_frame_def ok_or_def throw_def ends_def bind_def)
  next
    case (Some f)
    let ?m = "zero_frame f ((k_mem s)\<lparr>fa := a\<rparr>)"
    obtain po where po: "phys_offset (k_mem s) = Some po" using o' by auto
    obtain res m where run: "map_to E r (page_addr k) f fl ?m = (res, m)" by fastforce
    have "map_page E r (page_addr k) fl s = (case res of Ok u \<Rightarrow> (Ok u, s\<lparr>k_mem := m\<rparr>)
        | Err e \<Rightarrow> (Err ''map_page: map_to failed'', s\<lparr>k_mem := m\<rparr>) | Panic e \<Rightarrow> (Panic e, s\<lparr>k_mem := m\<rparr>))"
      using al Some po run
      by (simp add: map_page_def on_mem_def zoom_def take_frame_def bind_def offset_set_def prog split: res.split unit.split)
    then show ?thesis
      using map_to_outcome [OF sp k fl al [unfolded Some]] memory_only_mem [of E r s m] evolves_confined
      unfolding run by (auto simp: ends_def split: res.splits)
  qed
qed

end

text \<open>Setting flags in the entry of a page changes the page's flags only.\<close>

lemma contains_HUGE: "contains fl HUGE_PAGE \<longleftrightarrow> bit fl 7"
proof -
  have e: "HUGE_PAGE = 2 ^ 7" by (simp add: HUGE_PAGE_def)
  have "bit HUGE_PAGE n \<longleftrightarrow> n = 7" for n unfolding e bit_exp_iff by auto
  then show ?thesis by (simp add: contains_bits)
qed

lemma flag_word_or: "flag_word a \<Longrightarrow> flag_word b \<Longrightarrow> flag_word (a OR b)"
  by (simp add: flag_word_def bit.conj_disj_distrib2 contains_HUGE bit_or_iff)

lemma contains_orI: "contains a x \<Longrightarrow> contains (a OR b) x"
  by (simp add: contains_bits bit_or_iff)

lemma reflag:
  assumes ok: "space_ok X av ok s r" and k: "k < 2 ^ 35" and p: "page_path k = p @ [i]"
    and t: "tbl X (pm s) r p = Some t" and e: "present X (pm s t i)"
    and e': "pte_addr X e' = pte_addr X (pm s t i)" "present X e'" "\<not> contains (pte_flags X e') HUGE_PAGE"
  shows "evolves X av ok r s (set_entry t i e' s)"
    and "j < 2 ^ 35 \<Longrightarrow> page_view X (pm (set_entry t i e' s)) r j =
      (if j = k then map_option (\<lambda>(f, fl, d). (f, pte_flags X e', d)) (page_view X (pm s) r k) else page_view X (pm s) r j)"
proof -
  let ?m = "pm s" and ?m' = "pm (set_entry t i e' s)"
  have m': "?m' u j = (if u = t \<and> j = i then e' else ?m u j)" for u j by (simp add: set_entry_def)
  have T: "user_tree X ?m r" using ok by (simp add: space_ok_def)
  have up: "upath (p @ [i])" using upath_page [OF k] p by simp
  have tbl: "tbl X ?m' r q = tbl X ?m r q" for q
  proof (induction q rule: rev_induct)
    case (snoc j q)
    then show ?case using e e' by (auto simp: tbl_snoc m' split: option.splits)
  qed simp
  then have "space_frames X ?m' r = space_frames X ?m r" "user_tree X ?m' r"
    using T by (simp_all add: space_frames_def user_tree_def)
  moreover have "no_huge X ?m' r"
    using ok e'(3) unfolding no_huge_def space_ok_def tbl m' by auto
  moreover have "t \<in> space_frames X ?m r" using space_framesI [OF _ t] upath_snocD [OF up] by blast
  moreover have "(r, j) \<noteq> (t, i)" if "256 \<le> j" for j by (rule upper_entry [OF T up t that])
  ultimately show "evolves X av ok r s (set_entry t i e' s)"
    using ok by (auto simp: evolves_def space_ok_def m' set_entry_def)
  show "page_view X ?m' r j = (if j = k then map_option (\<lambda>(f, fl, d). (f, pte_flags X e', d)) (page_view X ?m r k)
      else page_view X ?m r j)" if j: "j < 2 ^ 35"
  proof -
    have upj: "upath (butlast (page_path j) @ [last (page_path j)])" using upath_page [OF j] page_path_snoc by metis
    have data: "?m' (pte_addr X (?m u (last (page_path j)))) = ?m (pte_addr X (?m u (last (page_path j))))"
      if u: "tbl X ?m r (butlast (page_path j)) = Some u" "present X (?m u (last (page_path j)))" for u
    proof -
      have "tbl X ?m r (page_path j) = Some (pte_addr X (?m u (last (page_path j))))"
        using u page_path_snoc [of j] tbl_snoc [of X ?m r "butlast (page_path j)" "last (page_path j)"] by simp
      then have "t \<noteq> pte_addr X (?m u (last (page_path j)))" by (rule leaf_write_table [OF T j _ up t])
      then show ?thesis by (auto simp: m')
    qed
    show ?thesis
    proof (cases "tbl X ?m r (butlast (page_path j))")
      case None
      then show ?thesis using t p by (auto simp: page_view_tbl tbl)
    next
      case (Some u)
      show ?thesis
      proof (cases "j = k")
        case True
        then have "u = t" "last (page_path j) = i" using Some t p by simp_all
        then show ?thesis using True Some e e' data [OF Some] by (simp add: page_view_tbl tbl m' Let_def)
      next
        case False
        have "\<not> (u = t \<and> last (page_path j) = i)"
        proof
          assume a: "u = t \<and> last (page_path j) = i"
          then have "butlast (page_path j) = p"
            using user_treeD [OF T _ t] Some upath_snocD [OF upj] upath_snocD [OF up] by blast
          then have "page_path j = page_path k" using a p page_path_snoc [of j] by simp
          then show False using page_path_inj [OF j k] False by simp
        qed
        then have "?m' u (last (page_path j)) = ?m u (last (page_path j))" by (auto simp: m')
        then show ?thesis using False Some data [OF Some] by (simp add: page_view_tbl tbl Let_def)
      qed
    qed
  qed
qed

text \<open>A page is mapped with the flags \<open>fl\<close>: a new page is zeroed, a page that was there keeps its frame and
  contents and gains the flags.\<close>

definition page_gains :: "u64 \<Rightarrow> (u64 \<times> u64 \<times> (nat \<Rightarrow> u64)) option \<Rightarrow> (u64 \<times> u64 \<times> (nat \<Rightarrow> u64)) option \<Rightarrow> bool" where
  "page_gains fl x y \<longleftrightarrow> (case x of
       None \<Rightarrow> \<exists>f. y = Some (f, fl, \<lambda>_. 0)
     | Some (f, fl0, d) \<Rightarrow> y = Some (f, fl0 OR fl, d))"

definition range_gains :: "'h env \<Rightarrow> u64 \<Rightarrow> u64 \<Rightarrow> nat set \<Rightarrow> 'h kernel \<Rightarrow> 'h kernel \<Rightarrow> bool" where
  "range_gains E r fl K s t \<longleftrightarrow> (\<forall>j<2 ^ 35. if j \<in> K then page_gains fl (user_page E s r j) (user_page E t r j)
     else user_page E t r j = user_page E s r j)"

lemma user_pte_page:
  "paging_crate (crate E) \<Longrightarrow> k < 2 ^ 35 \<Longrightarrow> user_pte E r (page_addr k) s =
     (Ok (map_option (\<lambda>t. (t, last (page_path k))) (tbl (crate E) (pm (k_mem s)) r (butlast (page_path k)))), s)"
  using va_path_page_addr [of k] by (simp add: user_pte_run va_path_table flip: page_path_snoc)
    (metis butlast_snoc last_snoc)

context mapper
begin

lemma ensure_run:
  assumes sp: "user_space E s r" and k: "k < 2 ^ 35" and fl: "flag_word fl" "contains fl PRESENT"
  shows "ends
    (\<lambda>_ t. memory_only E r s t \<and> free_frames s \<le> free_frames t + 4 \<and> range_gains E r fl {k} s t)
    (\<lambda>e t. memory_only E r s t \<and> free_frames s < 4)
    (ensure_user_page_mapping E r (page_addr k) fl s)"
proof -
  let ?X = "crate E" and ?b = "butlast (page_path k)" and ?i = "last (page_path k)"
  have off: "exec_offset s = (Ok (), s)" by (rule exec_offset_run [OF sp])
  show ?thesis
  proof (cases "user_page E s r k")
    case None
    have "ensure_user_page_mapping E r (page_addr k) fl s = map_page E r (page_addr k) fl s"
      using None by (auto simp: ensure_user_page_mapping_def bind_def off user_pte_page [OF crate_laws k] page_view_tbl gets_def
          Let_def split: option.splits if_splits)
    then show ?thesis
      using map_page_run [OF sp k fl] None
      by (auto simp: ends_def range_gains_def page_gains_def split: prod.splits res.splits)
  next
    case (Some x)
    then obtain t where t: "tbl ?X (pm (k_mem s)) r ?b = Some t" and e: "present ?X (pm (k_mem s) t ?i)"
      by (auto simp: page_view_tbl Let_def split: option.splits if_splits)
    let ?e = "pm (k_mem s) t ?i"
    let ?e' = "pte_set_flags ?X ?e (pte_flags ?X ?e OR fl)"
    let ?m = "set_entry t ?i ?e' (k_mem s)"
    have run: "ensure_user_page_mapping E r (page_addr k) fl s = (Ok (), s\<lparr>k_mem := ?m\<rparr>)"
      using t e by (simp add: ensure_user_page_mapping_def bind_def off user_pte_page [OF crate_laws k] gets_def
          on_mem_def zoom_def modify_def)
    have up: "upath (?b @ [?i])" using upath_page [OF k] page_path_snoc by metis
    have "\<not> contains (pte_flags ?X ?e) HUGE_PAGE"
      using sp up t e unfolding space_ok_def no_huge_def by blast
    then have w: "flag_word (pte_flags ?X ?e OR fl)"
      using fl paging_crate.flags_bits [OF crate_laws] by (intro flag_word_or) (simp_all add: flag_word_def)
    note F = paging_crate.set_flags_ok [OF crate_laws w, of ?e]
    have e': "pte_addr ?X ?e' = pte_addr ?X ?e" "present ?X ?e'" "\<not> contains (pte_flags ?X ?e') HUGE_PAGE"
      using F w contains_orI [of "pte_flags ?X ?e" PRESENT fl] e by (simp_all add: present_def flag_word_def)
    note R = reflag [OF sp k page_path_snoc t e e']
    have "memory_only E r s (s\<lparr>k_mem := ?m\<rparr>)"
      by (rule memory_only_mem, rule evolves_confined [OF R(1)]) (simp add: set_entry_def)
    moreover have "range_gains E r fl {k} s (s\<lparr>k_mem := ?m\<rparr>)"
    proof -
      have v: "user_page E s r k = Some (pte_addr ?X ?e, pte_flags ?X ?e, pm (k_mem s) (pte_addr ?X ?e))"
        using t e by (simp add: page_view_tbl Let_def)
      define m where "m = ?m"
      note R(2) [folded m_def, unfolded conjunct1 [OF F]]
      then show ?thesis unfolding m_def [symmetric] by (simp add: range_gains_def page_gains_def v)
    qed
    ultimately show ?thesis
      by (simp add: run ends_def) (simp add: set_entry_def)
  qed
qed

end

text \<open>Loops.\<close>

lemma ends_foreach:
  assumes "\<And>xs y zs s. ys = xs @ y # zs \<Longrightarrow> P xs s \<Longrightarrow> ends (\<lambda>_. P (xs @ [y])) Q (body y s)" and "P [] s"
  shows "ends (\<lambda>_. P ys) Q (foreach ys body s)"
proof -
  have "ends (\<lambda>_. P ys) Q (foreach zs body s)" if "ys = xs @ zs" "P xs s" for xs zs s
    using that
  proof (induction zs arbitrary: xs s)
    case (Cons y zs)
    show ?case
      unfolding foreach.simps
    proof (rule ends_bind)
      show "ends (\<lambda>_. P (xs @ [y])) Q (body y s)" by (rule assms(1) [OF Cons.prems])
      show "ends (\<lambda>_. P ys) Q (foreach zs body t)" if "P (xs @ [y]) t" for t
        by (rule Cons.IH [OF _ that]) (use Cons.prems in simp)
    qed
  qed (simp add: ends_def ret_def)
  from this [of "[]" ys s] show ?thesis using assms(2) by simp
qed

lemma range_gains_empty: "range_gains E r fl {} s s"
  by (simp add: range_gains_def)

lemma range_gains_insert:
  assumes "range_gains E r fl K s t" and "range_gains E r fl {y} t u" and "y \<notin> K"
  shows "range_gains E r fl (insert y K) s u"
  unfolding range_gains_def
proof (intro allI impI)
  fix j :: nat assume j: "j < 2 ^ 35"
  have 1: "if j \<in> K then page_gains fl (user_page E s r j) (user_page E t r j) else user_page E t r j = user_page E s r j"
    and 2: "if j \<in> {y} then page_gains fl (user_page E t r j) (user_page E u r j) else user_page E u r j = user_page E t r j"
    using assms(1,2) j unfolding range_gains_def by blast+
  show "if j \<in> insert y K then page_gains fl (user_page E s r j) (user_page E u r j) else user_page E u r j = user_page E s r j"
    using 1 2 assms(3) by (cases "j = y"; cases "j \<in> K") simp_all
qed

context mapper
begin

lemma ensure_pages_run:
  assumes sp: "user_space E s r" and ks: "distinct ks" "\<forall>k\<in>set ks. k < 2 ^ 35" and fl: "flag_word fl" "contains fl PRESENT"
  shows "ends
    (\<lambda>_ t. memory_only E r s t \<and> free_frames s \<le> free_frames t + 4 * length ks \<and> range_gains E r fl (set ks) s t)
    (\<lambda>e t. memory_only E r s t \<and> free_frames s < 4 * length ks)
    (foreach ks (\<lambda>k. ensure_user_page_mapping E r (page_addr k) fl) s)"
proof (rule ends_foreach)
  fix xs y zs t
  assume split: "ks = xs @ y # zs"
    and P: "memory_only E r s t \<and> free_frames s \<le> free_frames t + 4 * length xs \<and> range_gains E r fl (set xs) s t"
  have y: "y < 2 ^ 35" "y \<notin> set xs" using split ks by auto
  have spt: "user_space E t r" using P memory_only_space by blast
  show "ends
     (\<lambda>_ u. memory_only E r s u \<and> free_frames s \<le> free_frames u + 4 * length (xs @ [y]) \<and> range_gains E r fl (set (xs @ [y])) s u)
     (\<lambda>e u. memory_only E r s u \<and> free_frames s < 4 * length ks)
     (ensure_user_page_mapping E r (page_addr y) fl t)"
    using ensure_run [OF spt y(1) fl] P split memory_only_trans [of E r s t] range_gains_insert [OF _ _ y(2)]
    by (fastforce simp: ends_def split: prod.splits res.splits)
qed (use sp memory_only_refl range_gains_empty in auto)

end

section \<open>Images\<close>

text \<open>What an address space shows: the flags of its pages and its bytes.\<close>

type_synonym image = "(nat \<Rightarrow> u64 option) \<times> (u64 \<Rightarrow> u8 option)"

definition space_image :: "'h env \<Rightarrow> u64 \<Rightarrow> 'h kernel \<Rightarrow> image" where
  "space_image E r s =
     (\<lambda>j. if j < 2 ^ 35 then map_option (\<lambda>(f, fl, d). fl) (user_page E s r j) else None,
      \<lambda>a. if user_va a then page_byte (crate E) (pm (k_mem s)) r a else None)"

definition add_pages :: "u64 \<Rightarrow> nat set \<Rightarrow> image \<Rightarrow> image" where
  "add_pages fl K I =
     (\<lambda>j. if j \<in> K then Some (case fst I j of None \<Rightarrow> fl | Some x \<Rightarrow> x OR fl) else fst I j,
      \<lambda>a. if page_no a \<in> K then Some (case snd I a of None \<Rightarrow> 0 | Some b \<Rightarrow> b) else snd I a)"

definition put_range :: "u64 \<Rightarrow> u8 list \<Rightarrow> image \<Rightarrow> image" where
  "put_range a bs I = (fst I, \<lambda>b. if unat a \<le> unat b \<and> unat b < unat a + length bs
     then Some (bs ! (unat b - unat a)) else snd I b)"

lemma frame_byte_zero [simp]: "frame_byte (\<lambda>_. 0) off = 0"
  by (simp add: frame_byte_def)

lemma user_va_page: "user_va a \<longleftrightarrow> page_no a < 2 ^ 35"
  by (simp add: user_va_def page_no_def div_less_iff_less_mult)

lemma gains_image:
  assumes g: "range_gains E r fl K s t" and K: "\<forall>k\<in>K. k < 2 ^ 35"
  shows "space_image E r t = add_pages fl K (space_image E r s)"
proof (rule prod_eqI)
  have view: "if j \<in> K then page_gains fl (user_page E s r j) (user_page E t r j) else user_page E t r j = user_page E s r j"
    if "j < 2 ^ 35" for j
    using g that by (simp add: range_gains_def)
  show "fst (space_image E r t) = fst (add_pages fl K (space_image E r s))"
  proof
    fix j show "fst (space_image E r t) j = fst (add_pages fl K (space_image E r s)) j"
      using view [of j] K by (auto simp: space_image_def add_pages_def page_gains_def split: option.splits if_splits)
  qed
  show "snd (space_image E r t) = snd (add_pages fl K (space_image E r s))"
  proof
    fix a show "snd (space_image E r t) a = snd (add_pages fl K (space_image E r s)) a"
      using view [of "page_no a"] K
      by (auto simp: space_image_def add_pages_def page_gains_def user_va_page page_byte_def split: option.splits if_splits)
  qed
qed

lemma written_image:
  assumes w: "written E r a bs s t" and fit: "unat a + length bs \<le> 2 ^ 47"
  shows "space_image E r t = put_range a bs (space_image E r s)"
proof (rule prod_eqI)
  obtain m o' where t: "t = s\<lparr>k_mem := m, k_out := o'\<rparr>"
    and wr: "wrote (crate E) avail_frames frame_alloc_ok r a bs (k_mem s) m"
    using w by (auto simp: written_def)
  have "map_option (\<lambda>(f, fl, d). fl) (page_view (crate E) (pm m) r j) =
      map_option (\<lambda>(f, fl, d). fl) (page_view (crate E) (pm (k_mem s)) r j)" if "j < 2 ^ 35" for j
  proof -
    have "map_option (\<lambda>(f, fl, d). (f, fl)) (page_view (crate E) (pm m) r j) =
        map_option (\<lambda>(f, fl, d). (f, fl)) (page_view (crate E) (pm (k_mem s)) r j)"
      using wr that unfolding wrote_def by blast
    then show ?thesis
      by (cases "page_view (crate E) (pm m) r j"; cases "page_view (crate E) (pm (k_mem s)) r j") auto
  qed
  then show "fst (space_image E r t) = fst (put_range a bs (space_image E r s))"
    by (auto simp: space_image_def put_range_def t)
  show "snd (space_image E r t) = snd (put_range a bs (space_image E r s))"
  proof
    fix b
    have "page_byte (crate E) (pm m) r b = (if unat a \<le> unat b \<and> unat b < unat a + length bs then Some (bs ! (unat b - unat a))
         else page_byte (crate E) (pm (k_mem s)) r b)" if "user_va b"
      using wr that unfolding wrote_def by blast
    then show "snd (space_image E r t) b = snd (put_range a bs (space_image E r s)) b"
      using fit by (auto simp: space_image_def put_range_def t user_va_def)
  qed
qed

lemma allows_image:
  assumes "unat a + n \<le> 2 ^ 47"
  shows "range_allows (crate E) (pm (k_mem s)) r 0 a n \<longleftrightarrow> (\<forall>k<n. fst (space_image E r s) (page_no (a + of_nat k)) \<noteq> None)"
  unfolding range_allows_def
proof (intro all_cong)
  fix k assume "k < n"
  then have "page_no (a + of_nat k) < 2 ^ 35"
    using assms by (intro page_no_user) (simp add: user_va_def unat_add_of_nat)
  then show "(case user_page E s r (page_no (a + of_nat k)) of None \<Rightarrow> False | Some (f, fl, d) \<Rightarrow> contains fl 0) \<longleftrightarrow>
      fst (space_image E r s) (page_no (a + of_nat k)) \<noteq> None"
    by (auto simp: space_image_def split: option.splits)
qed

text \<open>Writes to pages that are there.\<close>

definition backed :: "image \<Rightarrow> u64 \<Rightarrow> nat \<Rightarrow> bool" where
  "backed I a n \<longleftrightarrow> unat a + n \<le> 2 ^ 47 \<and> (\<forall>k<n. fst I (page_no (a + of_nat k)) \<noteq> None)"

definition put_outcome :: "'h env \<Rightarrow> u64 \<Rightarrow> u64 \<Rightarrow> u8 list \<Rightarrow> 'h kernel \<Rightarrow> 'h kernel \<Rightarrow> bool" where
  "put_outcome E r a bs s t \<longleftrightarrow> memory_only E r s t \<and> free_frames t = free_frames s \<and>
     space_image E r t = put_range a bs (space_image E r s)"

lemma writes_put:
  assumes "writes E r 0 a bs s (res, t)" and "backed (space_image E r s) a (length bs)"
  shows "res = Ok () \<and> put_outcome E r a bs s t"
proof -
  have al: "range_allows (crate E) (pm (k_mem s)) r 0 a (length bs)" and fit: "unat a + length bs \<le> 2 ^ 47"
    using assms(2) allows_image [of a "length bs" E s r] by (auto simp: backed_def)
  then have w: "res = Ok ()" "written E r a bs s t"
    using assms(1) by (auto simp: writes_def ends_def split: res.splits)
  have "free_frames t = free_frames s" using w(2) by (auto simp: written_def wrote_def)
  then show ?thesis
    using w written_memory_only written_image [OF w(2) fit] by (simp add: put_outcome_def)
qed

lemma copy_put:
  assumes "paging_crate (crate E)" and "user_space E s r" and "backed (space_image E r s) a (length bs)"
  obtains t where "copy_to_user_pagetable E r a bs s = (Ok (), t)" and "put_outcome E r a bs s t"
  using copy_to_user_pagetable_run [OF assms(1) _ assms(2), of a bs] writes_put [OF _ assms(3)] assms(3)
  by (cases "copy_to_user_pagetable E r a bs s") (auto simp: backed_def)

lemma zero_put:
  assumes "paging_crate (crate E)" and "user_space E s r" and "backed (space_image E r s) a (unat n)"
  obtains t where "zero_user_range E r a n s = (Ok (), t)" and "put_outcome E r a (replicate (unat n) 0) s t"
  using zero_user_range_run [OF assms(1) _ assms(2), of a n] writes_put [of E r a "replicate (unat n) 0" s] assms(3)
  by (cases "zero_user_range E r a n s") (auto simp: backed_def)

lemma fst_put_range [simp]: "fst (put_range a bs I) = fst I"
  by (simp add: put_range_def)

lemma backed_put [simp]: "backed (put_range a bs I) = backed I"
  by (auto simp: backed_def fun_eq_iff)

section \<open>A LOAD segment\<close>

definition segment_pages :: "Elf64ProgramHeader \<Rightarrow> nat set" where
  "segment_pages h = {unat (vaddr h) div 4096 .. (unat (vaddr h) + unat (memsz h) - 1) div 4096}"

definition add_segment :: "u8 list \<Rightarrow> Elf64ProgramHeader \<Rightarrow> image \<Rightarrow> image" where
  "add_segment img h I = put_range (vaddr h) (take (unat (filesz h)) (drop (unat (p_offset h)) img))
     (put_range (vaddr h) (replicate (unat (memsz h)) 0) (add_pages (segment_flags h) (segment_pages h) I))"

text \<open>A segment in the lower half whose bytes the file has.\<close>

definition segment_ok :: "u8 list \<Rightarrow> Elf64ProgramHeader \<Rightarrow> bool" where
  "segment_ok img h \<longleftrightarrow> filesz h \<le> memsz h \<and> unat (p_offset h) + unat (filesz h) \<le> length img"

definition segment_user :: "Elf64ProgramHeader \<Rightarrow> bool" where
  "segment_user h \<longleftrightarrow> unat (vaddr h) + unat (memsz h) < 2 ^ 47"

lemma page_containing: "containing_frame a = page_addr (page_no a)"
proof (rule unsigned_word_eqI)
  have "page_no a * 4096 \<le> unat a" by (simp add: page_no_def)
  moreover have "unat a < 2 ^ LENGTH(64)" by (rule unsigned_less)
  ultimately have "4096 * page_no a < 2 ^ 64" by simp
  then show "unat (containing_frame a) = unat (page_addr (page_no a))"
    unfolding page_addr_def containing_frame_def and_not_mask_nat
    by (simp only: unat_of_nat) (simp add: page_no_def minus_mod_eq_mult_div)
qed

lemma pages_between_addrs:
  assumes "a \<le> b" and "b < 2 ^ 35"
  shows "pages_between (page_addr a) (page_addr b) = map page_addr [a..<Suc b]"
proof -
  have "unat (page_addr a) = 4096 * a" "unat (page_addr b) = 4096 * b" using assms by (simp_all add: unat_page_addr)
  then have "\<not> page_addr b < page_addr a" "(unat (page_addr b) - unat (page_addr a)) div 4096 + 1 = Suc b - a"
    using assms by (simp_all add: word_less_nat_alt flip: diff_mult_distrib2)
  moreover have "page_addr a + of_nat (4096 * k) = page_addr (k + a)" for k
    by (simp add: page_addr_def distrib_left)
  moreover have "[a..<Suc b] = map (\<lambda>k. k + a) [0..<Suc b - a]"
    using map_add_upt [of a "Suc b - a"] assms(1) by (simp del: upt_Suc)
  ultimately show ?thesis by (simp add: pages_between_def del: upt_Suc)
qed

lemma foreach_map: "foreach (map f xs) body = foreach xs (\<lambda>x. body (f x))"
  by (induction xs) simp_all

lemma segment_flags_ok: "flag_word (segment_flags h)" "contains (segment_flags h) PRESENT"
  by (simp_all add: segment_flags_def flag_word_def addr_mask_def flag_defs contains_def mask_eq_exp_minus_1)

lemma segment_pages_user:
  assumes "segment_user h"
  shows "\<forall>k\<in>segment_pages h. k < 2 ^ 35"
proof
  fix k assume "k \<in> segment_pages h"
  then have "k \<le> (unat (vaddr h) + unat (memsz h) - 1) div 4096" by (simp add: segment_pages_def)
  also have "\<dots> < 2 ^ 35" using assms by (simp add: segment_user_def div_less_iff_less_mult)
  finally show "k < 2 ^ 35" .
qed

lemma segment_backed:
  assumes "segment_user h" and "n \<le> unat (memsz h)"
  shows "backed (add_pages (segment_flags h) (segment_pages h) I) (vaddr h) n"
  unfolding backed_def
proof (intro conjI allI impI)
  show "unat (vaddr h) + n \<le> 2 ^ 47" using assms by (simp add: segment_user_def)
  fix k assume k: "k < n"
  have "unat (vaddr h + of_nat k) = unat (vaddr h) + k"
    using assms k by (intro unat_add_of_nat) (simp add: segment_user_def)
  then have "page_no (vaddr h + of_nat k) \<in> segment_pages h"
    using k assms(2) by (auto simp: segment_pages_def page_no_def intro!: div_le_mono)
  then show "fst (add_pages (segment_flags h) (segment_pages h) I) (page_no (vaddr h + of_nat k)) \<noteq> None"
    by (simp add: add_pages_def)
qed

context mapper
begin

lemma canonical: "unat a < 2 ^ 47 \<Longrightarrow> virt_new (crate E) a = ret a"
  using paging_crate.virt_lower_half [OF crate_laws, of a] user_va_less [of a]
  by (simp add: virt_new_def user_va_def)

lemma load_segment_run:
  assumes sp: "user_space E s r" and user: "segment_user h" and len: "length img < 2 ^ 63"
    and seg: "0 < memsz h" "filesz h \<le> memsz h"
  shows "ends
    (\<lambda>e t. memory_only E r s t \<and> free_frames s \<le> free_frames t + 4 * card (segment_pages h) \<and>
       segment_ok img h \<and> e = vaddr h + memsz h \<and> space_image E r t = add_segment img h (space_image E r s))
    (\<lambda>e t. memory_only E r s t \<and> (segment_ok img h \<longrightarrow> free_frames s < 4 * card (segment_pages h)))
    (load_segment E img r h s)"
proof -
  let ?v = "unat (vaddr h)" and ?n = "unat (memsz h)" and ?I = "space_image E r s"
  let ?K = "segment_pages h" and ?fl = "segment_flags h"
  have n: "0 < ?n" "?v + ?n < 2 ^ 47" using seg user by (simp_all add: segment_user_def unat_gt_0 word_gt_0)
  show ?thesis
  proof (cases "segment_ok img h")
    case False
    then have "load_segment E img r h s = (Err ''exec: segment overflow'', s) \<or>
        load_segment E img r h s = (Err ''exec: truncated LOAD segment'', s)"
      using seg by (auto simp: segment_ok_def load_segment_def ok_or_def checked_add_def unat_add_lem [THEN iffD1])
    then show ?thesis using False memory_only_refl [OF sp] by (auto simp: ends_def)
  next
    case True
    have fe: "checked_add (p_offset h) (filesz h) = Some (p_offset h + filesz h)"
        "unat (p_offset h + filesz h) = unat (p_offset h) + unat (filesz h)"
      using True len by (auto simp: segment_ok_def checked_add_def unat_add_lem [THEN iffD1])
    have se: "checked_add (vaddr h) (memsz h) = Some (vaddr h + memsz h)" "unat (vaddr h + memsz h) = ?v + ?n"
      using n by (auto simp: checked_add_def unat_add_lem [THEN iffD1])
    have last: "unat (vaddr h + memsz h - 1) = ?v + ?n - 1"
      using n se(2) by (subst unat_minus_one) auto
    let ?a = "page_no (vaddr h)" and ?b = "page_no (vaddr h + memsz h - 1)"
    have ab: "?a \<le> ?b" "?b < 2 ^ 35" "?K = {?a .. ?b}"
      using n by (simp_all add: page_no_def last segment_pages_def div_le_mono div_less_iff_less_mult)
    have pages: "pages_between (containing_frame (vaddr h)) (containing_frame (vaddr h + memsz h - 1)) = map page_addr [?a..<Suc ?b]"
      unfolding page_containing by (rule pages_between_addrs [OF ab(1,2)])
    have K: "set [?a..<Suc ?b] = ?K" "length [?a..<Suc ?b] = card ?K" by (auto simp: ab(3))
    obtain res s1 where e: "foreach [?a..<Suc ?b] (\<lambda>k. ensure_user_page_mapping E r (page_addr k) ?fl) s = (res, s1)" by fastforce
    have "\<forall>k\<in>set [?a..<Suc ?b]. k < 2 ^ 35" using segment_pages_user [OF user] K by simp
    note R = ensure_pages_run [OF sp distinct_upt this segment_flags_ok, of h, unfolded e K]
    have load: "load_segment E img r h s = bind (foreach [?a..<Suc ?b] (\<lambda>k. ensure_user_page_mapping E r (page_addr k) ?fl))
        (\<lambda>_. bind (zero_user_range E r (vaddr h) (memsz h)) (\<lambda>_. bind (copy_to_user_pagetable E r (vaddr h)
          (take (unat (filesz h)) (drop (unat (p_offset h)) img))) (\<lambda>_. ret (vaddr h + memsz h)))) s"
      using True fe se(1) n by (simp add: load_segment_def segment_ok_def ok_or_def canonical se(2) last pages foreach_map del: upt_Suc)
    show ?thesis
    proof (cases res)
      case (Ok u)
      let ?J = "add_pages ?fl ?K ?I" and ?bs = "take (unat (filesz h)) (drop (unat (p_offset h)) img)"
      have m1: "memory_only E r s s1" "free_frames s \<le> free_frames s1 + 4 * card ?K" "range_gains E r ?fl ?K s s1"
        using R Ok by (simp_all add: ends_def)
      have sp1: "user_space E s1 r" by (rule memory_only_space [OF m1(1)])
      have I1: "space_image E r s1 = ?J" by (rule gains_image [OF m1(3) segment_pages_user [OF user]])
      have "backed (space_image E r s1) (vaddr h) ?n" unfolding I1 by (rule segment_backed [OF user]) simp
      from zero_put [OF crate_laws sp1 this] obtain s2 where
        z: "zero_user_range E r (vaddr h) (memsz h) s1 = (Ok (), s2)" "put_outcome E r (vaddr h) (replicate ?n 0) s1 s2" .
      note Z = z(2) [unfolded put_outcome_def]
      have sp2: "user_space E s2 r" using Z memory_only_space by blast
      have "backed (space_image E r s2) (vaddr h) (length ?bs)"
        using Z I1 segment_backed [OF user, of "length ?bs"] seg(2) by (simp add: word_le_nat_alt min_le_iff_disj)
      from copy_put [OF crate_laws sp2 this] obtain s3 where
        c: "copy_to_user_pagetable E r (vaddr h) ?bs s2 = (Ok (), s3)" "put_outcome E r (vaddr h) ?bs s2 s3" .
      note C = c(2) [unfolded put_outcome_def]
      have "load_segment E img r h s = (Ok (vaddr h + memsz h), s3)"
        using load e Ok z c by (simp add: ret_def del: upt_Suc)
      moreover have "memory_only E r s s3" using m1(1) Z C memory_only_trans by blast
      moreover have "free_frames s \<le> free_frames s3 + 4 * card ?K" using m1(2) Z C by simp
      moreover have "space_image E r s3 = add_segment img h ?I" using Z C I1 by (simp add: add_segment_def)
      ultimately show ?thesis using True by (simp add: ends_def)
    next
      case (Err x)
      then have "load_segment E img r h s = (Err x, s1)" using load e by (simp del: upt_Suc)
      then show ?thesis using R Err by (simp add: ends_def)
    next
      case (Panic x)
      then show ?thesis using R by (simp add: ends_def)
    qed
  qed
qed

end

section \<open>All segments\<close>

definition header_fits :: "u8 list \<Rightarrow> Elf64Header \<Rightarrow> nat \<Rightarrow> bool" where
  "header_fits img elf i \<longleftrightarrow> unat (phoff elf) + phdr_size * i + phdr_size \<le> length img"

definition header_at :: "u8 list \<Rightarrow> Elf64Header \<Rightarrow> nat \<Rightarrow> Elf64ProgramHeader" where
  "header_at img elf i = program_header (take phdr_size (drop (unat (phoff elf) + phdr_size * i) img))"

definition loads :: "u8 list \<Rightarrow> Elf64Header \<Rightarrow> nat list \<Rightarrow> Elf64ProgramHeader list" where
  "loads img elf is = filter (\<lambda>h. prog_type h = ELF_PROG_LOAD \<and> memsz h \<noteq> 0) (map (header_at img elf) is)"

definition headers_ok :: "u8 list \<Rightarrow> Elf64Header \<Rightarrow> nat list \<Rightarrow> bool" where
  "headers_ok img elf is \<longleftrightarrow> (\<forall>i\<in>set is. header_fits img elf i \<and>
     (let h = header_at img elf i in prog_type h = ELF_PROG_LOAD \<longrightarrow>
        filesz h \<le> memsz h \<and> (memsz h \<noteq> 0 \<longrightarrow> segment_ok img h)))"

text \<open>At most four frames for every page.\<close>

definition load_cost :: "Elf64ProgramHeader list \<Rightarrow> nat" where
  "load_cost hs = 4 * sum_list (map (\<lambda>h. card (segment_pages h)) hs)"

definition load_end :: "Elf64ProgramHeader list \<Rightarrow> u64 \<Rightarrow> u64" where
  "load_end hs m = fold (\<lambda>h m. max m (vaddr h + memsz h)) hs m"

lemma unat_small: "n < 2 ^ 64 \<Longrightarrow> unat (of_nat n :: u64) = n"
  by (simp add: unat_of_nat)

lemma phdr_offset:
  assumes "i < 2 ^ 16"
  shows "checked_mul (of_nat i :: u64) (of_nat phdr_size) = Some (of_nat (phdr_size * i))" and "phdr_size * i < 2 ^ 32"
proof -
  have "unat (of_nat i :: u64) = i" "unat (of_nat phdr_size :: u64) = phdr_size"
    using assms by (intro unat_small; simp add: phdr_size_def)+
  then show "checked_mul (of_nat i :: u64) (of_nat phdr_size) = Some (of_nat (phdr_size * i))"
    using assms by (simp add: checked_mul_def mult.commute) (simp add: phdr_size_def)
  show "phdr_size * i < 2 ^ 32" using assms by (simp add: phdr_size_def)
qed

text \<open>The bounds check of the code, on numbers.\<close>

lemma header_bounds:
  fixes a :: u64
  assumes n: "n < 2 ^ 32" and k: "k < 2 ^ 32" and len: "len < 2 ^ 63"
  shows "unat a + n + k \<le> len \<Longrightarrow> checked_add a (of_nat n) = Some (a + of_nat n) \<and> unat (a + of_nat n) = unat a + n \<and>
      checked_add (a + of_nat n) (of_nat k) = Some (a + of_nat n + of_nat k) \<and> unat (a + of_nat n + of_nat k) = unat a + n + k"
    and "checked_add a (of_nat n) = Some b \<Longrightarrow> checked_add b (of_nat k) = Some c \<Longrightarrow> unat c = unat a + n + k"
proof -
  have u: "unat (of_nat n :: u64) = n" "unat (of_nat k :: u64) = k" using n k by (intro unat_small; simp)+
  show "checked_add a (of_nat n) = Some b \<Longrightarrow> checked_add b (of_nat k) = Some c \<Longrightarrow> unat c = unat a + n + k"
    using checked_add_SomeD [of a "of_nat n" b] checked_add_SomeD [of b "of_nat k" c] u by metis
  assume fits: "unat a + n + k \<le> len"
  have u1: "unat (a + of_nat n) = unat a + n" using fits len by (intro unat_add_of_nat) simp
  moreover have "unat (a + of_nat n + of_nat k) = unat a + n + k" using fits len u1 by (subst unat_add_of_nat) simp_all
  ultimately show "checked_add a (of_nat n) = Some (a + of_nat n) \<and> unat (a + of_nat n) = unat a + n \<and>
      checked_add (a + of_nat n) (of_nat k) = Some (a + of_nat n + of_nat k) \<and> unat (a + of_nat n + of_nat k) = unat a + n + k"
    using u fits len by (simp add: checked_add_def)
qed

text \<open>One round of the loop.\<close>

lemma header_round:
  assumes i: "i < 2 ^ 16" and len: "length img < 2 ^ 63"
  shows "header_fits img elf i \<Longrightarrow> segments_loop E img elf r (i # is) m s = (let h = header_at img elf i in
       if prog_type h \<noteq> ELF_PROG_LOAD then segments_loop E img elf r is m s
       else if memsz h < filesz h then (Err ''exec: invalid LOAD segment sizes'', s)
       else if memsz h = 0 then segments_loop E img elf r is m s
       else bind (load_segment E img r h) (\<lambda>e. segments_loop E img elf r is (max m e)) s)"
    and "\<not> header_fits img elf i \<Longrightarrow> \<exists>e. segments_loop E img elf r (i # is) m s = (Err e, s)"
proof -
  note off = phdr_offset [OF i]
  have k: "phdr_size < 2 ^ 32" by (simp add: phdr_size_def)
  note B = header_bounds [OF off(2) k len]
  define n where "n = phdr_size * i"
  note off' = off(1) [folded n_def] and B' = B [folded n_def]
  show "segments_loop E img elf r (i # is) m s = (let h = header_at img elf i in
       if prog_type h \<noteq> ELF_PROG_LOAD then segments_loop E img elf r is m s
       else if memsz h < filesz h then (Err ''exec: invalid LOAD segment sizes'', s)
       else if memsz h = 0 then segments_loop E img elf r is m s
       else bind (load_segment E img r h) (\<lambda>e. segments_loop E img elf r is (max m e)) s)"
    if "header_fits img elf i"
  proof -
    have fits: "unat (phoff elf) + n + phdr_size \<le> length img" using that by (simp add: header_fits_def n_def)
    then have "\<not> length img < unat (phoff elf) + n + phdr_size" by simp
    then show ?thesis
      using B'(1) [OF fits]
      by (simp add: segments_loop.simps ok_or_def off' Let_def header_at_def n_def [symmetric] throw_def del: of_nat_mult)
  qed
  show "\<exists>e. segments_loop E img elf r (i # is) m s = (Err e, s)" if "\<not> header_fits img elf i"
  proof -
    have out: "length img < unat (phoff elf) + n + phdr_size" using that by (simp add: header_fits_def n_def)
    show ?thesis
    proof (cases "checked_add (phoff elf) (of_nat n)")
      case None
      then show ?thesis by (simp add: ok_or_def off' throw_def del: of_nat_mult)
    next
      case (Some b)
      then show ?thesis
        using out B'(2) [OF Some]
        by (cases "checked_add b (of_nat phdr_size)") (auto simp: ok_or_def off' throw_def simp del: of_nat_mult)
    qed
  qed
qed

declare segments_loop.simps(2) [simp del]

lemma load_end_bound:
  assumes "\<forall>h\<in>set hs. segment_user h" and "unat m \<le> 2 ^ 47"
  shows "unat (load_end hs m) \<le> 2 ^ 47"
  using assms
proof (induction hs arbitrary: m)
  case (Cons h hs)
  have "unat (vaddr h + memsz h) \<le> unat (vaddr h) + unat (memsz h)" by (simp add: unat_word_ariths)
  then have "unat (max m (vaddr h + memsz h)) \<le> 2 ^ 47" using Cons.prems by (auto simp: segment_user_def max_def)
  then show ?case using Cons by (simp add: load_end_def)
qed (simp add: load_end_def)

lemma pg_round_up_ok:
  assumes "unat v \<le> 2 ^ 47"
  shows "pg_round_up v s = (Ok (page_addr (page_ceil v)), s)"
proof (cases "checked_add v (PAGE_SIZE - 1)")
  case None
  then show ?thesis using page_round_up_ok [OF assms, of s] by (simp add: page_round_up_def ok_or_def throw_def)
next
  case (Some w)
  then show ?thesis using page_round_up_ok [OF assms, of s] by (simp add: page_round_up_def pg_round_up_def ok_or_def ret_def bind_def)
qed

lemma loads_Cons: "loads img elf (i # is) =
    (if prog_type (header_at img elf i) = ELF_PROG_LOAD \<and> memsz (header_at img elf i) \<noteq> 0
     then [header_at img elf i] else []) @ loads img elf is"
  by (simp add: loads_def)

lemma headers_ok_Cons: "headers_ok img elf (i # is) \<longleftrightarrow> headers_ok img elf is \<and> header_fits img elf i \<and>
    (prog_type (header_at img elf i) = ELF_PROG_LOAD \<longrightarrow> filesz (header_at img elf i) \<le> memsz (header_at img elf i) \<and>
       (memsz (header_at img elf i) \<noteq> 0 \<longrightarrow> segment_ok img (header_at img elf i)))"
  by (auto simp: headers_ok_def Let_def)

context mapper
begin

lemma segments_loop_run:
  assumes sp: "user_space E s r" and len: "length img < 2 ^ 63" and idx: "\<forall>i\<in>set is. i < 2 ^ 16"
    and user: "\<forall>h\<in>set (loads img elf is). segment_user h"
  shows "ends
    (\<lambda>e t. memory_only E r s t \<and> free_frames s \<le> free_frames t + load_cost (loads img elf is) \<and>
       headers_ok img elf is \<and> e = load_end (loads img elf is) m \<and>
       space_image E r t = fold (add_segment img) (loads img elf is) (space_image E r s))
    (\<lambda>e t. memory_only E r s t \<and> (headers_ok img elf is \<longrightarrow> free_frames s < load_cost (loads img elf is)))
    (segments_loop E img elf r is m s)"
  using sp idx user
proof (induction "is" arbitrary: s m)
  case Nil
  then show ?case by (simp add: ends_def ret_def loads_def load_cost_def headers_ok_def load_end_def memory_only_refl)
next
  case (Cons i "is")
  let ?h = "header_at img elf i"
  have i: "i < 2 ^ 16" using Cons.prems by simp
  note R = header_round [OF i len, of elf E r "is" m s]
  show ?case
  proof (cases "header_fits img elf i")
    case False
    then show ?thesis
      using R(2) memory_only_refl [OF Cons.prems(1)] by (auto simp: ends_def headers_ok_Cons)
  next
    case fits: True
    have rest: "\<forall>i\<in>set is. i < 2 ^ 16" "\<forall>h\<in>set (loads img elf is). segment_user h"
      using Cons.prems by (simp_all add: loads_Cons)
    show ?thesis
    proof (cases "prog_type ?h = ELF_PROG_LOAD \<and> \<not> memsz ?h < filesz ?h \<and> memsz ?h \<noteq> 0")
      case False
      show ?thesis
      proof (cases "prog_type ?h = ELF_PROG_LOAD \<and> memsz ?h < filesz ?h")
        case True
        then show ?thesis
          using R(1) fits memory_only_refl [OF Cons.prems(1)] by (auto simp: ends_def headers_ok_Cons Let_def)
      next
        case skip: False
        then have "loads img elf (i # is) = loads img elf is" "headers_ok img elf (i # is) = headers_ok img elf is"
          using False fits by (auto simp: loads_Cons headers_ok_Cons not_less)
        moreover have "segments_loop E img elf r (i # is) m s = segments_loop E img elf r is m s"
          using R(1) fits False skip by (auto simp: Let_def)
        ultimately show ?thesis using Cons.IH [OF Cons.prems(1) rest] by simp
      qed
    next
      case True
      have ld: "loads img elf (i # is) = ?h # loads img elf is" using True by (simp add: loads_Cons)
      have cost: "load_cost (?h # hs) = 4 * card (segment_pages ?h) + load_cost hs" for hs by (simp add: load_cost_def)
      have ok: "headers_ok img elf (i # is) \<longleftrightarrow> segment_ok img ?h \<and> headers_ok img elf is"
        using True fits by (auto simp: headers_ok_Cons)
      have seg: "0 < memsz ?h" "filesz ?h \<le> memsz ?h" "segment_user ?h"
        using True Cons.prems by (auto simp: ld word_gt_0)
      have run: "segments_loop E img elf r (i # is) m s =
          bind (load_segment E img r ?h) (\<lambda>e. segments_loop E img elf r is (max m e)) s"
        using R(1) fits True by (simp add: Let_def)
      obtain res t where l: "load_segment E img r ?h s = (res, t)" by fastforce
      note L = load_segment_run [OF Cons.prems(1) seg(3) len seg(1,2), unfolded l]
      show ?thesis
      proof (cases res)
        case (Ok e)
        have Lt: "memory_only E r s t" "free_frames s \<le> free_frames t + 4 * card (segment_pages ?h)" "segment_ok img ?h"
          "e = vaddr ?h + memsz ?h" "space_image E r t = add_segment img ?h (space_image E r s)"
          using L Ok by (simp_all add: ends_def)
        obtain x u where x: "segments_loop E img elf r is (max m e) t = (x, u)" by fastforce
        note I = Cons.IH [OF memory_only_space [OF Lt(1)] rest, of "max m e", unfolded x]
        have "segments_loop E img elf r (i # is) m s = (x, u)" using run l Ok x by simp
        then show ?thesis
          using I Lt memory_only_trans [OF Lt(1), of u]
          by (cases x) (auto simp: ends_def ld cost ok load_end_def)
      next
        case (Err e)
        then have "segments_loop E img elf r (i # is) m s = (Err e, t)" using run l by simp
        then show ?thesis using L Err by (auto simp: ends_def ld cost ok)
      next
        case (Panic e)
        then show ?thesis using L by (simp add: ends_def)
      qed
    qed
  qed
qed

lemma load_elf_segments_run:
  assumes sp: "user_space E s r" and len: "length img < 2 ^ 63"
    and hs: "hs = loads img elf [0..<unat (phnum elf)]" and user: "\<forall>h\<in>set hs. segment_user h"
    and good: "good \<longleftrightarrow> unat (phentsize elf) = phdr_size \<and> headers_ok img elf [0..<unat (phnum elf)]"
  shows "ends
    (\<lambda>e t. memory_only E r s t \<and> free_frames s \<le> free_frames t + load_cost hs \<and> good \<and>
       e = page_addr (page_ceil (load_end hs 0)) \<and>
       space_image E r t = fold (add_segment img) hs (space_image E r s))
    (\<lambda>e t. memory_only E r s t \<and> (good \<longrightarrow> free_frames s < load_cost hs))
    (load_elf_segments E img elf r s)"
proof (cases "unat (phentsize elf) = phdr_size")
  case False
  then show ?thesis using memory_only_refl [OF sp] by (simp add: load_elf_segments_def ends_def throw_def good)
next
  case True
  have "unat (phnum elf) < 2 ^ LENGTH(16)" by (rule unsigned_less)
  then have idx: "\<forall>i\<in>set [0..<unat (phnum elf)]. i < 2 ^ 16" by simp
  note R = segments_loop_run [OF sp len idx user [unfolded hs], of 0, folded hs]
  have "unat (load_end hs 0) \<le> 2 ^ 47" by (rule load_end_bound [OF user]) simp
  then have "pg_round_up (load_end hs 0) t = (Ok (page_addr (page_ceil (load_end hs 0))), t)" for t :: "'h kernel"
    by (rule pg_round_up_ok)
  then have "ends
    (\<lambda>e t. memory_only E r s t \<and> free_frames s \<le> free_frames t + load_cost hs \<and> good \<and>
       e = page_addr (page_ceil (load_end hs 0)) \<and>
       space_image E r t = fold (add_segment img) hs (space_image E r s))
    (\<lambda>e t. memory_only E r s t \<and> (headers_ok img elf [0..<unat (phnum elf)] \<longrightarrow> free_frames s < load_cost hs))
    (bind (segments_loop E img elf r [0..<unat (phnum elf)] 0) pg_round_up s)"
    by (intro ends_bind [where f = "segments_loop E img elf r [0..<unat (phnum elf)] 0", OF R]) (simp add: ends_def good True)
  then show ?thesis using True by (simp add: load_elf_segments_def good)
qed

end

end
