(* ===== verification/UserStack.thy ===== *)
theory UserStack
  imports Loading
begin

text \<open>
  What \<open>setup_user_stack\<close> writes: from the top downwards the argument strings, each aligned to 8 and
  ended by a NUL, then the aligned array of pointers to them ended by a null pointer, then the three
  words of the entry frame. Addresses are natural numbers here; everything is a \<open>put_range\<close> on the image
  of the new address space.
\<close>

section \<open>The layout\<close>

definition arg_addr :: "nat \<Rightarrow> u8 list \<Rightarrow> nat" where
  "arg_addr hi arg = (hi - (length arg + 1)) div 8 * 8"

primrec arg_addrs :: "nat \<Rightarrow> u8 list list \<Rightarrow> nat list" where
  "arg_addrs hi [] = []"
| "arg_addrs hi (arg # args) = arg_addr hi arg # arg_addrs (arg_addr hi arg) args"

primrec args_low :: "nat \<Rightarrow> u8 list list \<Rightarrow> nat" where
  "args_low hi [] = hi"
| "args_low hi (arg # args) = args_low (arg_addr hi arg) args"

primrec put_args :: "nat \<Rightarrow> u8 list list \<Rightarrow> image \<Rightarrow> image" where
  "put_args hi [] I = I"
| "put_args hi (arg # args) I =
     put_args (arg_addr hi arg) args (put_range (of_nat (arg_addr hi arg)) (arg @ [0]) I)"

definition args_need :: "u8 list list \<Rightarrow> nat" where
  "args_need argv = sum_list (map (\<lambda>arg. length arg + 8) argv)"

definition argv_addr :: "nat \<Rightarrow> u8 list list \<Rightarrow> nat" where
  "argv_addr hi argv = (args_low hi argv - 8 * (length argv + 1)) div 16 * 16"

definition put_stack :: "nat \<Rightarrow> u8 list list \<Rightarrow> image \<Rightarrow> image" where
  "put_stack hi argv I = put_range (of_nat (argv_addr hi argv - 24))
       (concat (map le_bytes [0xFFFFFFFFFFFFFFFF, of_nat (length argv), of_nat (argv_addr hi argv)]))
     (put_range (of_nat (argv_addr hi argv)) (concat (map le_bytes (map of_nat (arg_addrs hi argv) @ [0])))
       (put_args hi argv I))"

text \<open>The room the layout takes at most, alignment included.\<close>

definition stack_need :: "u8 list list \<Rightarrow> nat" where
  "stack_need argv = args_need argv + 8 * (length argv + 1) + 40"

lemma arg_addr_bounds:
  assumes "length arg + 8 \<le> hi"
  shows "arg_addr hi arg + length arg + 1 \<le> hi" and "hi \<le> arg_addr hi arg + length arg + 8" and "8 dvd arg_addr hi arg"
proof -
  let ?x = "hi - (length arg + 1)"
  have "?x div 8 * 8 \<le> ?x" "?x \<le> ?x div 8 * 8 + 7"
    using div_mult_mod_eq [of ?x 8] mod_less_divisor [of 8 ?x] by linarith+
  then show "arg_addr hi arg + length arg + 1 \<le> hi" and "hi \<le> arg_addr hi arg + length arg + 8"
    using assms unfolding arg_addr_def by linarith+
  show "8 dvd arg_addr hi arg" by (simp add: arg_addr_def)
qed

lemma length_arg_addrs [simp]: "length (arg_addrs hi argv) = length argv"
  by (induction argv arbitrary: hi) simp_all

lemma args_low_bounds: "args_need argv \<le> hi \<Longrightarrow> args_low hi argv \<le> hi \<and> hi \<le> args_low hi argv + args_need argv"
proof (induction argv arbitrary: hi)
  case (Cons arg argv)
  have "length arg + 8 \<le> hi" using Cons.prems by (simp add: args_need_def)
  note B = arg_addr_bounds [OF this]
  have "args_need argv \<le> arg_addr hi arg" using Cons.prems B by (simp add: args_need_def)
  from Cons.IH [OF this] show ?case using B by (simp add: args_need_def)
qed (simp add: args_need_def)

lemma argv_addr_bounds:
  assumes "stack_need argv \<le> hi"
  shows "argv_addr hi argv + 8 * (length argv + 1) \<le> args_low hi argv"
    and "hi \<le> argv_addr hi argv + stack_need argv - 24" and "16 dvd argv_addr hi argv" and "24 \<le> argv_addr hi argv"
proof -
  have L: "args_low hi argv \<le> hi" "hi \<le> args_low hi argv + args_need argv"
    using args_low_bounds [of argv hi] assms by (simp_all add: stack_need_def)
  let ?x = "args_low hi argv - 8 * (length argv + 1)"
  have x: "8 * (length argv + 1) + 40 \<le> args_low hi argv" using L(2) assms by (simp add: stack_need_def)
  have y: "?x div 16 * 16 \<le> ?x" "?x \<le> ?x div 16 * 16 + 15"
    using div_mult_mod_eq [of ?x 16] mod_less_divisor [of 16 ?x] by linarith+
  show "argv_addr hi argv + 8 * (length argv + 1) \<le> args_low hi argv"
    using x y(1) unfolding argv_addr_def by linarith
  show "hi \<le> argv_addr hi argv + stack_need argv - 24"
    using x y(2) L unfolding argv_addr_def stack_need_def by linarith
  show "16 dvd argv_addr hi argv" by (simp add: argv_addr_def)
  show "24 \<le> argv_addr hi argv" using x y(2) unfolding argv_addr_def by linarith
qed

section \<open>Running it\<close>

text \<open>A program that changes the image by \<open>g\<close>.\<close>

definition makes :: "'h env \<Rightarrow> u64 \<Rightarrow> (image \<Rightarrow> image) \<Rightarrow> 'h kernel \<Rightarrow> 'h kernel \<Rightarrow> bool" where
  "makes E r g s t \<longleftrightarrow> memory_only E r s t \<and> free_frames t = free_frames s \<and> space_image E r t = g (space_image E r s)"

lemma makes_put: "put_outcome E r a bs s t \<longleftrightarrow> makes E r (put_range a bs) s t"
  by (simp add: put_outcome_def makes_def)

lemma makes_refl: "user_space E s r \<Longrightarrow> makes E r (\<lambda>I. I) s s"
  by (simp add: makes_def memory_only_refl)

lemma makes_trans: "makes E r g s t \<Longrightarrow> makes E r h t u \<Longrightarrow> makes E r (\<lambda>I. h (g I)) s u"
  unfolding makes_def using memory_only_trans by auto

lemma makes_space: "makes E r g s t \<Longrightarrow> user_space E t r"
  by (auto simp: makes_def memory_only_space)

lemma backed_sub:
  assumes "backed I (of_nat low) n" and "low + n \<le> 2 ^ 47" and "low \<le> a" and "a + k \<le> low + n"
  shows "backed I (of_nat a) k"
  unfolding backed_def
proof (intro conjI allI impI)
  have "unat (of_nat a :: u64) = a" using assms by (intro unat_small) simp
  then show "unat (of_nat a :: u64) + k \<le> 2 ^ 47" using assms by simp
  fix j assume "j < k"
  then have "a - low + j < n" using assms by simp
  then have "fst I (page_no (of_nat low + of_nat (a - low + j))) \<noteq> None" using assms(1) unfolding backed_def by blast
  moreover have "low + (a - low + j) = a + j" using assms(3) by simp
  then have "of_nat low + of_nat (a - low + j) = (of_nat a + of_nat j :: u64)" by (metis of_nat_add)
  ultimately show "fst I (page_no (of_nat a + of_nat j)) \<noteq> None" by (simp only: not_False_eq_True)
qed

lemma put_range_append:
  assumes "unat a + length xs + length ys \<le> 2 ^ 63"
  shows "put_range (a + of_nat (length xs)) ys (put_range a xs I) = put_range a (xs @ ys) I"
proof (rule prod_eqI)
  have u: "unat (a + of_nat (length xs)) = unat a + length xs" using assms by (intro unat_add_of_nat) simp
  show "snd (put_range (a + of_nat (length xs)) ys (put_range a xs I)) = snd (put_range a (xs @ ys) I)"
    by (rule ext) (auto simp: put_range_def u nth_append)
qed simp

lemma sub_aligned_run:
  assumes n: "n \<le> a" and a: "a < 2 ^ 63" and k: "low = mask k" "k < 64"
  shows "sub_aligned (of_nat a) (of_nat n) low s = (Ok (of_nat ((a - n) div 2 ^ k * 2 ^ k)), s)"
proof -
  have u: "unat (of_nat a :: u64) = a" "unat (of_nat n :: u64) = n" using n a by (intro unat_small; simp)+
  then have le: "(of_nat n :: u64) \<le> of_nat a" using n by (simp add: word_le_nat_alt)
  then have d: "unat (of_nat a - of_nat n :: u64) = a - n" using u by (simp add: unat_sub)
  have "(of_nat a - of_nat n :: u64) AND NOT (mask k) = of_nat ((a - n) div 2 ^ k * 2 ^ k)"
  proof (rule unsigned_word_eqI)
    have "(a - n) div 2 ^ k * 2 ^ k \<le> a - n" by simp
    also have "a - n < 2 ^ 64" using a by simp
    finally have "(a - n) div 2 ^ k * 2 ^ k < 2 ^ 64" .
    then show "unat ((of_nat a - of_nat n :: u64) AND NOT (mask k)) = unat (of_nat ((a - n) div 2 ^ k * 2 ^ k) :: u64)"
      by (simp only: and_not_mask_nat d unat_small minus_mod_eq_div_mult)
  qed
  then show ?thesis using le by (simp add: sub_aligned_def checked_sub_def ok_or_def ret_def k bind_def)
qed

lemma copy_makes:
  assumes "paging_crate (crate E)" and "user_space E s r" and "backed (space_image E r s) a (length bs)"
  obtains t where "copy_to_user_pagetable E r a bs s = (Ok (), t)" and "makes E r (put_range a bs) s t"
  using copy_put [OF assms] makes_put by metis

lemma fst_put_args [simp]: "fst (put_args hi argv I) = fst I"
  by (induction argv arbitrary: hi I) simp_all

lemma backed_cong: "fst I = fst J \<Longrightarrow> backed I = backed J"
  by (auto simp: backed_def fun_eq_iff)

lemma backed_args [simp]: "backed (put_args hi argv I) = backed I"
  by (rule backed_cong) simp

lemma arith_small: "a + n < 2 ^ 64 \<Longrightarrow> arith_add E (of_nat a) (of_nat n) s = (Ok (of_nat a + of_nat n), s)"
proof -
  assume "a + n < 2 ^ 64"
  then have "unat (of_nat a :: u64) = a" "unat (of_nat n :: u64) = n" by (intro unat_small; simp)+
  then show ?thesis using \<open>a + n < 2 ^ 64\<close> by (simp add: arith_add_def checked_add_def)
qed

lemma push_args_run:
  assumes X: "paging_crate (crate E)" and sp: "user_space E s r"
    and bk: "backed (space_image E r s) (of_nat low) (hi - low)" and hi: "hi \<le> 2 ^ 47" "low + args_need argv \<le> hi"
  shows "\<exists>t. push_args E r argv (of_nat hi) ptrs s = (Ok (of_nat (args_low hi argv), ptrs @ map of_nat (arg_addrs hi argv)), t) \<and>
    makes E r (put_args hi argv) s t"
  using sp bk hi
proof (induction argv arbitrary: hi ptrs s)
  case Nil
  then show ?case by (simp add: ret_def makes_refl [unfolded id_def])
next
  case (Cons arg argv)
  let ?a = "arg_addr hi arg" and ?n = "length arg"
  have n: "?n + 8 \<le> hi" "low + (?n + 8) + args_need argv \<le> hi" using Cons.prems by (simp_all add: args_need_def)
  note B = arg_addr_bounds [OF n(1)]
  have h63: "hi < 2 ^ 63" "?n + 1 \<le> hi" using Cons.prems n by simp_all
  have al: "sub_aligned (of_nat hi) (of_nat (?n + 1)) 7 s = (Ok (of_nat ?a), s)"
    using sub_aligned_run [OF h63(2,1), of 7 3 s] by (simp add: arg_addr_def mask_eq_exp_minus_1)
  have bk: "backed (space_image E r s) (of_nat x) k" if "low \<le> x" "x + k \<le> hi" for x k
    by (rule backed_sub [OF Cons.prems(2)]) (use that Cons.prems(3) in simp_all)
  have low: "low \<le> ?a" "?a + (?n + 1) \<le> hi" "low + args_need argv \<le> ?a" using B n by simp_all
  obtain s1 where c1: "copy_to_user_pagetable E r (of_nat ?a) arg s = (Ok (), s1)" and m1: "makes E r (put_range (of_nat ?a) arg) s s1"
    by (rule copy_makes [OF X Cons.prems(1), of "of_nat ?a" arg]) (use bk [of ?a ?n] low in simp_all)
  have I1: "space_image E r s1 = put_range (of_nat ?a) arg (space_image E r s)" using m1 by (simp add: makes_def)
  have "backed (space_image E r s1) (of_nat (?a + ?n)) (length [0 :: u8])"
    unfolding I1 backed_put by (rule bk) (use low in simp_all)
  from copy_makes [OF X makes_space [OF m1] this] obtain s2 where
    c2: "copy_to_user_pagetable E r (of_nat (?a + ?n)) [0] s1 = (Ok (), s2)" and m2: "makes E r (put_range (of_nat (?a + ?n)) [0]) s1 s2" .
  have ua: "unat (of_nat ?a :: u64) = ?a" using low Cons.prems by (intro unat_small) simp
  have "put_range (of_nat (?a + ?n)) [0] (put_range (of_nat ?a) arg I) = put_range (of_nat ?a) (arg @ [0]) I" for I
    using put_range_append [of "of_nat ?a" arg "[0]" I] low Cons.prems ua by simp
  then have m: "makes E r (put_range (of_nat ?a) (arg @ [0])) s s2" using makes_trans [OF m1 m2] by simp
  have "space_image E r s2 = put_range (of_nat ?a) (arg @ [0]) (space_image E r s)" using m by (simp add: makes_def)
  then have "backed (space_image E r s2) (of_nat low) (?a - low)" using bk [of low "?a - low"] low by simp
  from Cons.IH [OF makes_space [OF m] this, of "ptrs @ [of_nat ?a]"] obtain t where
    t: "push_args E r argv (of_nat ?a) (ptrs @ [of_nat ?a]) s2 =
        (Ok (of_nat (args_low ?a argv), (ptrs @ [of_nat ?a]) @ map of_nat (arg_addrs ?a argv)), t)"
      "makes E r (put_args ?a argv) s2 t"
    using low Cons.prems by auto
  have "arith_add E (of_nat ?a) (of_nat ?n) s1 = (Ok (of_nat (?a + ?n)), s1)"
    using arith_small [of ?a ?n E s1] low Cons.prems by simp
  then have "push_args E r (arg # argv) (of_nat hi) ptrs s =
      (Ok (of_nat (args_low hi (arg # argv)), ptrs @ map of_nat (arg_addrs hi (arg # argv))), t)"
    using al c1 c2 t by (simp del: of_nat_add)
  moreover have "put_args hi (arg # argv) = (\<lambda>I. put_args ?a argv (put_range (of_nat ?a) (arg @ [0]) I))" by (rule ext) simp
  then have "makes E r (put_args hi (arg # argv)) s t" using makes_trans [OF m t(2)] by (simp only:)
  ultimately show ?case by blast
qed

lemma length_words [simp]: "length (concat (map le_bytes ws)) = 8 * length ws"
  by (induction ws) (simp_all add: le_bytes_def)

lemma setup_user_stack_run:
  assumes X: "paging_crate (crate E)" and sp: "user_space E s r" and argc: "length argv < 2 ^ 32"
    and bk: "backed (space_image E r s) (of_nat low) (hi - low)" and hi: "hi \<le> 2 ^ 47" "low + stack_need argv \<le> hi"
  shows "\<exists>t. setup_user_stack E r argv (of_nat hi) s =
      (Ok (of_nat (argv_addr hi argv - 24), length argv, of_nat (argv_addr hi argv)), t) \<and>
    makes E r (put_stack hi argv) s t"
proof -
  let ?l = "args_low hi argv" and ?p = "argv_addr hi argv" and ?n = "length argv"
  let ?ptrs = "map of_nat (arg_addrs hi argv) @ [0] :: u64 list"
  have "low + args_need argv \<le> hi" "stack_need argv \<le> hi" using hi(2) by (simp_all add: stack_need_def)
  note L = args_low_bounds [of argv hi] and P = argv_addr_bounds [OF this(2)]
  have l: "?l \<le> hi" "hi \<le> ?l + args_need argv" using L \<open>stack_need argv \<le> hi\<close> by (simp_all add: stack_need_def)
  have room: "low + 24 \<le> ?p" "?p + 8 * (?n + 1) \<le> ?l" using P hi(2) by (simp_all add: stack_need_def)
  obtain s1 where r1: "push_args E r argv (of_nat hi) [] s = (Ok (of_nat ?l, map of_nat (arg_addrs hi argv)), s1)"
    and m1: "makes E r (put_args hi argv) s s1"
    using push_args_run [OF X sp bk hi(1) \<open>low + args_need argv \<le> hi\<close>, of "[]"] by auto
  have bk': "backed (space_image E r s) (of_nat x) k" if "low \<le> x" "x + k \<le> hi" for x k
    by (rule backed_sub [OF bk]) (use that hi(1) in simp_all)
  have mul: "checked_mul (of_nat (?n + 1)) (8 :: u64) = Some (of_nat (8 * (?n + 1)))"
  proof -
    have "unat (of_nat (?n + 1) :: u64) = ?n + 1" using argc by (intro unat_small) simp
    then show ?thesis using argc by (simp add: checked_mul_def)
  qed
  have n8: "8 * (?n + 1) \<le> ?l" "?l < 2 ^ 63" using room l hi(1) by simp_all
  have al: "sub_aligned (of_nat ?l) (of_nat (8 * (?n + 1))) 15 t = (Ok (of_nat ?p), t)" for t :: "'a kernel"
    using sub_aligned_run [OF n8, of 15 4 t] by (simp add: argv_addr_def mask_eq_exp_minus_1)
  have I1: "space_image E r s1 = put_args hi argv (space_image E r s)" using m1 by (simp add: makes_def)
  have "backed (space_image E r s1) (of_nat ?p) (length (concat (map le_bytes ?ptrs)))"
    unfolding I1 backed_args length_words by (rule bk') (use room l in simp_all)
  from copy_makes [OF X makes_space [OF m1] this] obtain s2 where
    c2: "copy_u64_slice_to_user E r (of_nat ?p) ?ptrs s1 = (Ok (), s2)"
    and m2: "makes E r (put_range (of_nat ?p) (concat (map le_bytes ?ptrs))) s1 s2"
    unfolding copy_u64_slice_to_user_def by blast
  let ?fr = "[0xFFFFFFFFFFFFFFFF, of_nat ?n, of_nat ?p] :: u64 list"
  have I2: "space_image E r s2 = put_range (of_nat ?p) (concat (map le_bytes ?ptrs)) (space_image E r s1)" using m2 by (simp add: makes_def)
  have "backed (space_image E r s2) (of_nat (?p - 24)) (length (concat (map le_bytes ?fr)))"
    unfolding I2 I1 backed_put backed_args length_words by (rule bk') (use room l in simp_all)
  from copy_makes [OF X makes_space [OF m2] this] obtain s3 where
    c3: "copy_u64_slice_to_user E r (of_nat (?p - 24)) ?fr s2 = (Ok (), s3)"
    and m3: "makes E r (put_range (of_nat (?p - 24)) (concat (map le_bytes ?fr))) s2 s3"
    unfolding copy_u64_slice_to_user_def by blast
  have sub: "checked_sub (of_nat ?p) (24 :: u64) = Some (of_nat (?p - 24))"
  proof -
    have "unat (of_nat ?p :: u64) = ?p" using room l hi(1) by (intro unat_small) simp
    then show ?thesis using P(4) by (simp add: checked_sub_def word_le_nat_alt of_nat_diff)
  qed
  have "setup_user_stack E r argv (of_nat hi) s = (Ok (of_nat (?p - 24), ?n, of_nat ?p), s3)"
    using r1 mul al c2 c3 sub
    by (simp add: setup_user_stack_def ok_or_def ret_def Let_def del: of_nat_add of_nat_mult of_nat_Suc)
  moreover have "makes E r (put_stack hi argv) s s3"
    using makes_trans [OF makes_trans [OF m1 m2] m3] unfolding put_stack_def [abs_def] .
  ultimately show ?thesis by blast
qed

end
