(* ===== verification/UserLib.thy ===== *)
theory UserLib
  imports UserStack Dispatch
begin

text \<open>
  The user library (src/userlib): the program arguments, the system call wrappers, the buffer of
  \<open>print_fmt\<close>. User memory is an \<open>image\<close>; a user program reads a byte where the page is marked for
  user access, any other access is a page fault (\<open>None\<close>). A wrapper is the call it makes: its number and
  its three arguments.
\<close>

section \<open>Reading user memory\<close>

definition user_read :: "image \<Rightarrow> u64 \<Rightarrow> u8 option" where
  "user_read I a = (case fst I (page_no a) of
       Some fl \<Rightarrow> if contains fl USER_ACCESSIBLE then snd I a else None
     | None \<Rightarrow> None)"

primrec user_bytes :: "image \<Rightarrow> u64 \<Rightarrow> nat \<Rightarrow> u8 list option" where
  "user_bytes I a 0 = Some []"
| "user_bytes I a (Suc n) = (case user_read I a of None \<Rightarrow> None
     | Some b \<Rightarrow> map_option ((#) b) (user_bytes I (a + 1) n))"

definition user_word :: "image \<Rightarrow> u64 \<Rightarrow> u64 option" where
  "user_word I a = map_option of_le_bytes (user_bytes I a 8)"

text \<open>\<open>CStr::from_ptr\<close>: the bytes before the first NUL. User addresses end at \<open>2 ^ 47\<close>.\<close>

function user_cstr :: "image \<Rightarrow> u64 \<Rightarrow> u8 list option" where
  "user_cstr I a = (if \<not> user_va a then None else case user_read I a of
       None \<Rightarrow> None
     | Some b \<Rightarrow> if b = 0 then Some [] else map_option ((#) b) (user_cstr I (a + 1)))"
  by pat_completeness auto
termination
proof (relation "measure (\<lambda>(I, a). 2 ^ 47 - unat a)")
  fix I :: image and a :: u64
  assume "\<not> \<not> user_va a"
  then have "unat a < 2 ^ 47" "unat (a + 1) = unat a + 1"
    using unat_add_of_nat [of a 1] by (simp_all add: user_va_def)
  then show "((I, a + 1), I, a) \<in> measure (\<lambda>(I, a). 2 ^ 47 - unat a)" by simp
qed simp

declare user_cstr.simps [simp del]

section \<open>Arguments\<close>

record args =
  a_argc :: u64
  a_argv :: u64
  a_index :: u64

text \<open>\<open>lang_start\<close> stores its two arguments in \<open>ARGC\<close> and \<open>ARGV\<close>, \<open>args()\<close> starts an iterator over them.\<close>

definition args_start :: "u64 \<Rightarrow> u64 \<Rightarrow> args" where
  "args_start argc argv = \<lparr>a_argc = argc, a_argv = argv, a_index = 0\<rparr>"

definition args_next :: "image \<Rightarrow> args \<Rightarrow> (u8 list option \<times> args) option" where
  "args_next I A =
     (if a_argc A \<le> a_index A \<or> a_argv A = 0 then Some (None, A)
      else case user_word I (a_argv A + 8 * a_index A) of
        None \<Rightarrow> None
      | Some p \<Rightarrow> let B = A\<lparr>a_index := a_index A + 1\<rparr> in
          if p = 0 then Some (None, B)
          else case user_cstr I p of
            None \<Rightarrow> None
          | Some bs \<Rightarrow> Some (Some (if utf8 bs then bs else []), B))"

text \<open>\<open>for arg in args()\<close>: all arguments.\<close>

function args_all :: "image \<Rightarrow> args \<Rightarrow> u8 list list option" where
  "args_all I A = (case args_next I A of
       None \<Rightarrow> None
     | Some (None, B) \<Rightarrow> Some []
     | Some (Some arg, B) \<Rightarrow> map_option ((#) arg) (args_all I B))"
  by pat_completeness auto
termination
proof (relation "measure (\<lambda>(I, A). unat (a_argc A) - unat (a_index A))")
  fix I :: image and A B :: args and x and y and arg
  assume "args_next I A = Some x" "(y, B) = x" "y = Some arg"
  then have "a_index A < a_argc A" "B = A\<lparr>a_index := a_index A + 1\<rparr>"
    by (auto simp: args_next_def Let_def not_le split: if_splits option.splits)
  moreover have "unat (a_argc A) < 2 ^ LENGTH(64)" by (rule unsigned_less)
  ultimately show "((I, B), I, A) \<in> measure (\<lambda>(I, A). unat (a_argc A) - unat (a_index A))"
    using unat_add_of_nat [of "a_index A" 1] by (simp add: word_less_nat_alt)
qed simp

declare args_all.simps [simp del]

section \<open>Calls\<close>

definition EXEC_MAX_ARGC :: nat where "EXEC_MAX_ARGC = 16"
definition EXEC_MAX_ARG_LEN :: nat where "EXEC_MAX_ARG_LEN = 256"
definition PRINT_FMT_BUF_LEN :: nat where "PRINT_FMT_BUF_LEN = 256"

text \<open>\<open>copy_c_string(src, dst)\<close>: the new contents of \<open>dst\<close>, an array of \<open>EXEC_MAX_ARG_LEN + 1\<close> bytes.\<close>

definition copy_c_string :: "u8 list \<Rightarrow> u8 list \<Rightarrow> u8 list option" where
  "copy_c_string src dst = (if EXEC_MAX_ARG_LEN < length src then None
     else Some ((src @ drop (length src) dst) [length src := 0]))"

definition c_buffer :: "u8 list" where "c_buffer = replicate (EXEC_MAX_ARG_LEN + 1) 0"

datatype user_call = Call i64 i64 i64 i64 | Failed i64

text \<open>What \<open>exec\<close> places on its stack: the path, the argument strings and the pointers to them. The compiler
  chooses the addresses; those of the argument buffers are \<open>ptrs\<close>.\<close>

definition exec_buffers :: "u8 list \<Rightarrow> u8 list list \<Rightarrow> (nat \<Rightarrow> u64) \<Rightarrow> (u8 list \<times> u8 list list \<times> u64 list) option" where
  "exec_buffers path argv ptrs =
     (if EXEC_MAX_ARGC < length argv then None
      else case copy_c_string path c_buffer of
        None \<Rightarrow> None
      | Some p \<Rightarrow> if list_ex (\<lambda>arg. copy_c_string arg c_buffer = None) argv then None
          else Some (p, map (\<lambda>arg. the (copy_c_string arg c_buffer)) argv,
            map ptrs [0..<length argv] @ replicate (EXEC_MAX_ARGC + 1 - length argv) 0))"

definition user_exec :: "u8 list \<Rightarrow> u8 list list \<Rightarrow> (nat \<Rightarrow> u64) \<Rightarrow> u64 \<Rightarrow> u64 \<Rightarrow> user_call" where
  "user_exec path argv ptrs path_buf argv_ptrs = (case exec_buffers path argv ptrs of
       None \<Rightarrow> Failed RET_ERROR
     | Some b \<Rightarrow> Call SYS_EXEC path_buf argv_ptrs 0)"

definition user_print_num :: "i64 \<Rightarrow> user_call" where "user_print_num n = Call SYS_PRINT_NUM n 0 0"
definition user_print_str :: "u64 \<Rightarrow> u64 \<Rightarrow> user_call" where "user_print_str p n = Call SYS_PRINT_STR p n 0"
definition user_fork :: user_call where "user_fork = Call SYS_FORK 0 0 0"
definition user_getpid :: user_call where "user_getpid = Call SYS_GETPID 0 0 0"
definition user_uptime :: user_call where "user_uptime = Call SYS_UPTIME 0 0 0"
definition user_exit :: "i64 \<Rightarrow> user_call" where "user_exit v = Call SYS_EXIT v 0 0"
definition user_wait :: "u64 option \<Rightarrow> user_call" where
  "user_wait p = Call SYS_WAIT (case p of Some p \<Rightarrow> p | None \<Rightarrow> 0) 0 0"
definition user_kill :: "u64 \<Rightarrow> user_call" where "user_kill p = Call SYS_KILL p 0 0"
definition user_sbrk :: "i64 \<Rightarrow> user_call" where "user_sbrk n = Call SYS_SBRK n 0 0"

section \<open>Formatted output\<close>

record StackBuf =
  sb_bytes :: "u8 list"
  sb_len :: nat

definition StackBuf_new :: StackBuf where
  "StackBuf_new = \<lparr>sb_bytes = replicate PRINT_FMT_BUF_LEN 0, sb_len = 0\<rparr>"

definition StackBuf_as_str :: "StackBuf \<Rightarrow> u8 list" where
  "StackBuf_as_str b = (if utf8 (take (sb_len b) (sb_bytes b)) then take (sb_len b) (sb_bytes b) else [])"

definition write_str :: "u8 list \<Rightarrow> StackBuf \<Rightarrow> StackBuf option" where
  "write_str bs b = (if length (sb_bytes b) < sb_len b + length bs then None
     else Some (b\<lparr>sb_bytes := take (sb_len b) (sb_bytes b) @ bs @ drop (sb_len b + length bs) (sb_bytes b),
       sb_len := sb_len b + length bs\<rparr>))"

text \<open>\<open>write_fmt\<close> writes the parts of the format one after the other and stops at the first error.\<close>

primrec write_fmt :: "u8 list list \<Rightarrow> StackBuf \<Rightarrow> StackBuf option" where
  "write_fmt [] b = Some b"
| "write_fmt (p # ps) b = (case write_str p b of None \<Rightarrow> None | Some c \<Rightarrow> write_fmt ps c)"

text \<open>\<open>print_fmt\<close>: the string that is printed, or \<open>RET_ERROR\<close>.\<close>

definition print_fmt :: "u8 list list \<Rightarrow> i64 + u8 list" where
  "print_fmt ps = (case write_fmt ps StackBuf_new of
       None \<Rightarrow> Inl RET_ERROR
     | Some b \<Rightarrow> Inr (StackBuf_as_str b))"

section \<open>Reading back what was written\<close>

definition holds :: "image \<Rightarrow> nat \<Rightarrow> u8 list \<Rightarrow> bool" where
  "holds I a bs \<longleftrightarrow> (\<forall>k<length bs. user_read I (of_nat (a + k)) = Some (bs ! k))"

lemma holds_append: "holds I a (xs @ ys) \<longleftrightarrow> holds I a xs \<and> holds I (a + length xs) ys"
proof
  assume h: "holds I a (xs @ ys)"
  have "user_read I (of_nat (a + length xs + k)) = Some (ys ! k)" if "k < length ys" for k
    using h [unfolded holds_def, rule_format, of "length xs + k"] that by (simp add: nth_append add.assoc)
  moreover have "user_read I (of_nat (a + k)) = Some (xs ! k)" if "k < length xs" for k
    using h [unfolded holds_def, rule_format, of k] that by (simp add: nth_append)
  ultimately show "holds I a xs \<and> holds I (a + length xs) ys" by (simp add: holds_def)
next
  assume h: "holds I a xs \<and> holds I (a + length xs) ys"
  show "holds I a (xs @ ys)"
    unfolding holds_def
  proof (intro allI impI)
    fix k assume k: "k < length (xs @ ys)"
    show "user_read I (of_nat (a + k)) = Some ((xs @ ys) ! k)"
    proof (cases "k < length xs")
      case True
      then show ?thesis using h by (simp add: holds_def nth_append)
    next
      case False
      then have "a + length xs + (k - length xs) = a + k" by simp
      then show ?thesis using h [THEN conjunct2, unfolded holds_def, rule_format, of "k - length xs"] False k
        by (simp add: nth_append del: of_nat_add)
    qed
  qed
qed

lemma holds_Cons: "holds I a (b # bs) \<longleftrightarrow> user_read I (of_nat a) = Some b \<and> holds I (Suc a) bs"
  using holds_append [of I a "[b]" bs] by (simp add: holds_def)

lemma user_bytes_holds: "holds I a bs \<Longrightarrow> user_bytes I (of_nat a) (length bs) = Some bs"
proof (induction bs arbitrary: a)
  case (Cons b bs)
  then have h: "user_read I (of_nat a) = Some b" "holds I (Suc a) bs" by (simp_all add: holds_Cons)
  have "of_nat a + 1 = (of_nat (Suc a) :: u64)" by simp
  then show ?case using h Cons.IH [OF h(2)] by (simp del: of_nat_Suc)
qed simp

lemma length_le_bytes [simp]: "length (le_bytes w) = 8"
  by (simp add: le_bytes_def)

lemma of_le_bytes_bit:
  "length bs \<le> 8 \<Longrightarrow> bit (of_le_bytes bs) n \<longleftrightarrow> n div 8 < length bs \<and> bit (bs ! (n div 8)) (n mod 8)"
proof (induction bs arbitrary: n)
  case (Cons b bs)
  have rec: "of_le_bytes (b # bs) = ucast b OR push_bit 8 (of_le_bytes bs)" by (simp add: of_le_bytes_def)
  have len: "length bs \<le> 8" "length bs < 8" using Cons.prems by simp_all
  show ?case
  proof (cases "n < 8")
    case True
    then show ?thesis by (auto simp: rec bit_or_iff bit_push_bit_iff bit_ucast_iff)
  next
    case False
    then have d: "n div 8 = Suc ((n - 8) div 8)" "n mod 8 = (n - 8) mod 8" by (simp_all add: le_div_geq le_mod_geq not_less)
    have "\<not> bit b n" using False bit_imp_le_length [of b n] by auto
    moreover have "n < 64" if "bit (of_le_bytes bs) (n - 8)"
    proof -
      have "(n - 8) div 8 < length bs" using that Cons.IH [OF len(1)] by simp
      then show ?thesis using d(1) Cons.prems by (simp add: less_Suc_eq_le)
    qed
    ultimately show ?thesis using False d Cons.IH [OF len(1), of "n - 8"]
      by (auto simp: rec bit_or_iff bit_push_bit_iff bit_ucast_iff)
  qed
qed (simp add: of_le_bytes_def)

lemma of_le_bytes_le_bytes [simp]: "of_le_bytes (le_bytes w) = w"
proof (rule bit_word_eqI)
  fix n assume "n < LENGTH(64)"
  then have "n div 8 < 8" by simp
  then show "bit (of_le_bytes (le_bytes w)) n = bit w n"
    by (simp add: of_le_bytes_bit) (simp add: le_bytes_def bit_get_byte)
qed

lemma user_word_holds: "holds I a (le_bytes w) \<Longrightarrow> user_word I (of_nat a) = Some w"
  using user_bytes_holds [of I a "le_bytes w"] by (simp add: user_word_def)

lemma user_cstr_holds:
  "holds I a (bs @ [0]) \<Longrightarrow> 0 \<notin> set bs \<Longrightarrow> a + length bs < 2 ^ 47 \<Longrightarrow> user_cstr I (of_nat a) = Some bs"
proof (induction bs arbitrary: a)
  case Nil
  have "unat (of_nat a :: u64) = a" using Nil by (intro unat_small) simp
  then show ?case using Nil by (subst user_cstr.simps) (simp add: holds_Cons user_va_def)
next
  case (Cons b bs)
  have u: "unat (of_nat a :: u64) = a" using Cons.prems by (intro unat_small) simp
  have h: "user_read I (of_nat a) = Some b" "holds I (Suc a) (bs @ [0])" using Cons.prems(1) by (simp_all add: holds_Cons)
  have "of_nat a + 1 = (of_nat (Suc a) :: u64)" by simp
  moreover have "user_cstr I (of_nat (Suc a)) = Some bs" by (rule Cons.IH [OF h(2)]) (use Cons.prems in simp_all)
  ultimately show ?case
    using h(1) Cons.prems u by (subst user_cstr.simps) (auto simp: user_va_def simp del: of_nat_Suc)
qed

section \<open>The stack of a new program\<close>

text \<open>The pages from \<open>lo\<close> up to \<open>hi\<close> are the user's.\<close>

definition user_range :: "image \<Rightarrow> nat \<Rightarrow> nat \<Rightarrow> bool" where
  "user_range I lo hi \<longleftrightarrow> (\<forall>b. lo \<le> b \<and> b < hi \<longrightarrow>
     (\<exists>fl. fst I (page_no (of_nat b)) = Some fl \<and> contains fl USER_ACCESSIBLE))"

lemma user_range_sub: "user_range I lo hi \<Longrightarrow> lo \<le> lo' \<Longrightarrow> hi' \<le> hi \<Longrightarrow> user_range I lo' hi'"
  by (auto simp: user_range_def)

lemma user_range_cong: "fst I = fst J \<Longrightarrow> user_range I = user_range J"
  by (simp add: user_range_def fun_eq_iff)

lemma user_read_put:
  assumes "a + length bs \<le> 2 ^ 47" and "b < 2 ^ 47"
  shows "user_read (put_range (of_nat a) bs I) (of_nat b) = (if a \<le> b \<and> b < a + length bs
    then (case fst I (page_no (of_nat b)) of None \<Rightarrow> None | Some fl \<Rightarrow> if contains fl USER_ACCESSIBLE then Some (bs ! (b - a)) else None)
    else user_read I (of_nat b))"
proof -
  have "unat (of_nat a :: u64) = a" "unat (of_nat b :: u64) = b" using assms by (intro unat_small; simp)+
  then show ?thesis by (auto simp: user_read_def put_range_def split: option.splits)
qed

lemma holds_put_same:
  assumes "a + length bs \<le> 2 ^ 47" and "user_range I a (a + length bs)"
  shows "holds (put_range (of_nat a) bs I) a bs"
  unfolding holds_def
proof (intro allI impI)
  fix k assume k: "k < length bs"
  then obtain fl where "fst I (page_no (of_nat (a + k))) = Some fl" "contains fl USER_ACCESSIBLE"
    using assms(2) [unfolded user_range_def, rule_format, of "a + k"] by auto
  then show "user_read (put_range (of_nat a) bs I) (of_nat (a + k)) = Some (bs ! k)"
    using user_read_put [OF assms(1), of "a + k" I] k assms(1) by (simp del: of_nat_add)
qed

lemma holds_put_other:
  assumes "holds I c xs" and "a + length bs \<le> 2 ^ 47" and "c + length xs \<le> 2 ^ 47"
    and "c + length xs \<le> a \<or> a + length bs \<le> c"
  shows "holds (put_range (of_nat a) bs I) c xs"
  unfolding holds_def
proof (intro allI impI)
  fix k assume k: "k < length xs"
  then have "user_read I (of_nat (c + k)) = Some (xs ! k)" using assms(1) by (simp add: holds_def)
  moreover have "\<not> (a \<le> c + k \<and> c + k < a + length bs)" using assms(4) k by auto
  moreover have "c + k < 2 ^ 47" using k assms(3) by simp
  ultimately show "user_read (put_range (of_nat a) bs I) (of_nat (c + k)) = Some (xs ! k)"
    using trans [OF user_read_put [OF assms(2)] if_not_P] by metis
qed

lemma holds_put_args:
  "holds I c xs \<Longrightarrow> args_need argv \<le> hi \<Longrightarrow> hi \<le> c \<Longrightarrow> c + length xs \<le> 2 ^ 47 \<Longrightarrow> holds (put_args hi argv I) c xs"
proof (induction argv arbitrary: hi I)
  case (Cons arg argv)
  have n: "length arg + 8 \<le> hi" "args_need argv + (length arg + 8) \<le> hi" using Cons.prems by (simp_all add: args_need_def)
  note B = arg_addr_bounds [OF n(1)]
  have "holds (put_range (of_nat (arg_addr hi arg)) (arg @ [0]) I) c xs"
    by (rule holds_put_other [OF Cons.prems(1)]) (use B Cons.prems in simp_all)
  then show ?case unfolding put_args.simps by (rule Cons.IH) (use B n Cons.prems in simp_all)
qed simp

lemma put_args_holds:
  assumes "i < length argv" and "args_need argv \<le> hi" and "hi \<le> 2 ^ 47" and "user_range I (hi - args_need argv) hi"
  shows "holds (put_args hi argv I) (arg_addrs hi argv ! i) (argv ! i @ [0]) \<and>
    args_low hi argv \<le> arg_addrs hi argv ! i \<and> arg_addrs hi argv ! i + length (argv ! i) < hi"
  using assms
proof (induction argv arbitrary: hi I i)
  case (Cons arg argv)
  let ?a = "arg_addr hi arg" and ?J = "put_range (of_nat (arg_addr hi arg)) (arg @ [0]) I"
  have n: "length arg + 8 \<le> hi" "args_need argv + (length arg + 8) \<le> hi" using Cons.prems by (simp_all add: args_need_def)
  note B = arg_addr_bounds [OF n(1)]
  have need: "args_need argv \<le> ?a" using B n by simp
  have low: "args_low ?a argv \<le> ?a" using args_low_bounds [OF need] by simp
  show ?case
  proof (cases i)
    case 0
    have "user_range I ?a (?a + length (arg @ [0]))"
      by (rule user_range_sub [OF Cons.prems(4)]) (use B n in \<open>simp_all add: args_need_def\<close>)
    then have "holds ?J ?a (arg @ [0])" by (intro holds_put_same) (use B Cons.prems in simp_all)
    then have "holds (put_args ?a argv ?J) ?a (arg @ [0])"
      by (rule holds_put_args [OF _ need]) (use B Cons.prems in simp_all)
    then show ?thesis using 0 low B by simp
  next
    case (Suc j)
    have "user_range ?J (?a - args_need argv) ?a"
      unfolding user_range_cong [of ?J I, OF fst_put_range]
      by (rule user_range_sub [OF Cons.prems(4)]) (use B n in \<open>simp_all add: args_need_def\<close>)
    from Cons.IH [OF _ need _ this, of j] show ?thesis using Suc Cons.prems B by auto
  qed
qed simp

lemma holds_words:
  "holds I a (concat (map le_bytes ws)) \<Longrightarrow> i < length ws \<Longrightarrow> holds I (a + 8 * i) (le_bytes (ws ! i))"
proof (induction ws arbitrary: a i)
  case (Cons w ws)
  have h: "holds I a (le_bytes w)" "holds I (a + 8) (concat (map le_bytes ws))"
    using Cons.prems(1) by (simp_all add: holds_append)
  show ?case
  proof (cases i)
    case (Suc j)
    then show ?thesis using Cons.IH [OF h(2), of j] Cons.prems(2) by (simp add: add.assoc)
  qed (use h in simp)
qed simp

text \<open>What a program finds on its stack.\<close>

definition stack_shows :: "image \<Rightarrow> nat \<Rightarrow> u8 list list \<Rightarrow> bool" where
  "stack_shows I hi argv \<longleftrightarrow> (\<forall>i<length argv. holds I (arg_addrs hi argv ! i) (argv ! i @ [0])) \<and>
     holds I (argv_addr hi argv) (concat (map le_bytes (map of_nat (arg_addrs hi argv) @ [0]))) \<and>
     holds I (argv_addr hi argv - 24) (concat (map le_bytes [0xFFFFFFFFFFFFFFFF, of_nat (length argv), of_nat (argv_addr hi argv)]))"

lemma put_stack_shows:
  assumes need: "stack_need argv \<le> hi" and hi: "hi \<le> 2 ^ 47" and user: "user_range I (hi - stack_need argv) hi"
  shows "stack_shows (put_stack hi argv I) hi argv"
proof -
  let ?p = "argv_addr hi argv" and ?A = "put_args hi argv I"
  define ws where "ws = concat (map le_bytes (map of_nat (arg_addrs hi argv) @ [0]))"
  define fr where "fr = concat (map le_bytes [0xFFFFFFFFFFFFFFFF, of_nat (length argv), of_nat ?p])"
  have len: "length ws = 8 * (length argv + 1)" "length fr = 24"
    unfolding ws_def fr_def by (simp_all only: length_words) simp_all
  note P = argv_addr_bounds [OF need]
  have an: "args_need argv \<le> hi" using need by (simp add: stack_need_def)
  note L = args_low_bounds [OF an]
  have p: "?p + 8 * (length argv + 1) \<le> hi" using P L by simp
  have range: "user_range J lo hi'" if "fst J = fst I" "hi - stack_need argv \<le> lo" "hi' \<le> hi" for J lo hi'
    using user_range_sub [OF user that(2,3)] user_range_cong [OF that(1)] by simp
  define W where "W = put_range (of_nat ?p) ws ?A"
  have fst: "fst W = fst I" by (simp add: W_def)
  have S: "put_stack hi argv I = put_range (of_nat (?p - 24)) fr W" by (simp only: put_stack_def W_def ws_def fr_def)
  have args: "holds (put_stack hi argv I) (arg_addrs hi argv ! i) (argv ! i @ [0])" if i: "i < length argv" for i
  proof -
    have "user_range I (hi - args_need argv) hi" by (rule range) (simp_all add: stack_need_def)
    note A = put_args_holds [OF i an hi this]
    have "holds W (arg_addrs hi argv ! i) (argv ! i @ [0])"
      unfolding W_def by (rule holds_put_other [OF conjunct1 [OF A]]) (use A P p hi len in simp_all)
    then show ?thesis unfolding S by (rule holds_put_other) (use A P p hi len in simp_all)
  qed
  have "holds W ?p ws"
    unfolding W_def by (rule holds_put_same) (use P p hi len range [of ?A] in simp_all)
  then have words: "holds (put_stack hi argv I) ?p ws"
    unfolding S by (rule holds_put_other) (use P p hi len in simp_all)
  have "holds (put_stack hi argv I) (?p - 24) fr"
    unfolding S by (rule holds_put_same) (use P p hi len range [OF fst] in simp_all)
  then show ?thesis using args words unfolding stack_shows_def ws_def fr_def by blast
qed

text \<open>The argument iterator over it.\<close>

lemma args_all_shows:
  assumes S: "stack_shows I hi argv" and hi: "stack_need argv \<le> hi" "hi \<le> 2 ^ 47" and argc: "length argv < 2 ^ 32"
    and strings: "\<forall>arg\<in>set argv. 0 \<notin> set arg \<and> utf8 arg" and i: "i \<le> length argv"
    and above: "\<forall>i<length argv. 0 < arg_addrs hi argv ! i \<and> arg_addrs hi argv ! i + length (argv ! i) < 2 ^ 47"
  shows "args_all I \<lparr>a_argc = of_nat (length argv), a_argv = of_nat (argv_addr hi argv), a_index = of_nat i\<rparr> = Some (drop i argv)"
  using i
proof (induction "length argv - i" arbitrary: i)
  case 0
  then show ?case by (subst args_all.simps) (simp add: args_next_def)
next
  case (Suc n)
  then have i: "i < length argv" by simp
  let ?p = "argv_addr hi argv" and ?n = "length argv"
  let ?A = "\<lparr>a_argc = of_nat ?n, a_argv = of_nat ?p, a_index = of_nat i\<rparr> :: args"
  have u: "unat (of_nat i :: u64) = i" "unat (of_nat ?n :: u64) = ?n" using i argc by (intro unat_small; simp)+
  have p: "?p < 2 ^ 47" "24 \<le> ?p" using argv_addr_bounds [OF hi(1)] args_low_bounds [of argv hi] hi by (simp_all add: stack_need_def)
  have up: "(of_nat ?p :: u64) \<noteq> 0"
  proof -
    have "unat (of_nat ?p :: u64) = ?p" using p by (intro unat_small) simp
    then show ?thesis using p(2) by auto
  qed
  have "holds I (?p + 8 * i) (le_bytes ((map of_nat (arg_addrs hi argv) @ [0]) ! i))"
    using S i unfolding stack_shows_def by (intro holds_words) simp_all
  then have w: "user_word I (of_nat ?p + 8 * of_nat i) = Some (of_nat (arg_addrs hi argv ! i))"
    using user_word_holds [of I "?p + 8 * i"] i by (simp add: nth_append)
  have a: "0 < arg_addrs hi argv ! i" "arg_addrs hi argv ! i + length (argv ! i) < 2 ^ 47" using above i by simp_all
  have ua: "(of_nat (arg_addrs hi argv ! i) :: u64) \<noteq> 0"
  proof -
    have "unat (of_nat (arg_addrs hi argv ! i) :: u64) = arg_addrs hi argv ! i" using a by (intro unat_small) simp
    then show ?thesis using a(1) by auto
  qed
  have arg: "0 \<notin> set (argv ! i)" "utf8 (argv ! i)" using strings i by simp_all
  have c: "user_cstr I (of_nat (arg_addrs hi argv ! i)) = Some (argv ! i)"
    using S i arg a unfolding stack_shows_def by (intro user_cstr_holds) simp_all
  have "args_next I ?A = Some (Some (argv ! i), ?A\<lparr>a_index := of_nat (Suc i)\<rparr>)"
    using w ua up c arg i u by (simp add: args_next_def Let_def word_le_nat_alt add.commute)
  moreover have "args_all I (?A\<lparr>a_index := of_nat (Suc i)\<rparr>) = Some (drop (Suc i) argv)"
    using Suc.hyps(1) [of "Suc i"] Suc.hyps(2) i by simp
  ultimately show ?case
    using i by (subst args_all.simps) (simp add: Cons_nth_drop_Suc del: of_nat_Suc)
qed

end
