(* ===== verification/ExecRun.thy ===== *)
theory ExecRun
  imports UserLib Sample
begin

text \<open>
  \<open>prepare_exec_img\<close> and \<open>commit_exec\<close> put together: the image that a program starts with, and the two
  outcomes of \<open>exec\<close>.
\<close>

section \<open>A mapper\<close>

text \<open>The walk of the kernel followed by storing the entry keeps the contract of \<open>map_to\<close>.\<close>

lemma sample_map_to_outcome:
  assumes X: "paging_crate X" and sp: "space_ok X avail_frames frame_alloc_ok s r" and k: "k < 2 ^ 35"
    and fl: "flag_word fl" "contains fl PRESENT" and al: "allocate_frame (fa s) = (Some f, a)"
  shows "ends
      (\<lambda>_ t. page_view X (pm s) r k = None \<and> evolves X avail_frames frame_alloc_ok r s t \<and>
         avail_frames (fa t) \<subseteq> avail_frames (fa s) \<and> card (avail_frames (fa s)) \<le> card (avail_frames (fa t)) + 4 \<and>
         (\<forall>j<2 ^ 35. page_view X (pm t) r j =
           (if j = k then Some (f, fl, \<lambda>_. 0) else page_view X (pm s) r j)))
      (\<lambda>e t. confined X r s t \<and> (page_view X (pm s) r k \<noteq> None \<or> card (avail_frames (fa s)) < 4))
      (sample_map_to X r (page_addr k) f fl (zero_frame f (s\<lparr>fa := a\<rparr>)))"
proof -
  note P = paging_boot [OF X]
  let ?s1 = "zero_frame f (s\<lparr>fa := a\<rparr>)"
  let ?va = "page_addr k" and ?i = "pt_index (page_addr k)"
  have fa1: "fa ?s1 = a" by (simp add: zero_frame_def)
  note sp1 = paging.space_ok_fresh [OF P sp al]
  obtain res t where w: "walk_pagetable X allocate_frame r ?va True ?s1 = (res, t)" by fastforce
  note W = paging.walk_alloc [OF P sp1 user_va_page_addr [OF k] w]
  have T: "paging.taken X allocate_frame avail_frames frame_alloc_ok r f s t"
    by (rule paging.takenI [OF P sp al]) (use W in blast)
  note D = paging.takenD [OF P T]
  have oks: "frame_alloc_ok (fa s)" using sp by (simp add: space_ok_def)
  note c1 = paging.alloc_cost [OF P oks al]
  have c2: "frame_alloc_ok (fa t) \<and> card (avail_frames a) \<le> card (avail_frames (fa t)) + 3 \<and> (res = Ok None \<longrightarrow> card (avail_frames a) < 3)"
    using paging.walk_cost [OF P _ w] c1(1) fa1 by simp
  have conf: "confined X r s t"
    using D(1,4,5,7,9) unfolding confined_def by auto
  show ?thesis
  proof (cases "res = Ok None")
    case True
    then have "sample_map_to X r ?va f fl ?s1 = (Err ''FrameAllocationFailed'', t)"
      using w by (simp add: sample_map_to_def ok_or_def throw_def)
    then show ?thesis using conf c1 c2 True by (simp add: ends_def)
  next
    case False
    then obtain tb where tb: "res = Ok (Some (tb, ?i))" "tbl X (pm t) r (table_path ?va) = Some tb" using W by blast
    have path: "table_path ?va @ [?i] = page_path k" using va_path_page_addr [OF k] va_path_table by simp
    have view: "page_view X (pm t) r k = (let e = pm t tb ?i in if present X e
        then Some (pte_addr X e, pte_flags X e, pm t (pte_addr X e)) else None)"
      unfolding page_view_def path [symmetric] path_view_snoc tb(2) by (simp add: Let_def)
    show ?thesis
    proof (cases "present X (pm t tb ?i)")
      case True
      then have "sample_map_to X r ?va f fl ?s1 = (Err ''PageAlreadyMapped'', t)"
        using w tb by (simp add: sample_map_to_def ok_or_def throw_def ret_def gets_def)
      moreover have "page_view X (pm s) r k \<noteq> None" using view D(8) [OF k] True by (auto simp: Let_def)
      ultimately show ?thesis using conf by (simp add: ends_def)
    next
      case False
      obtain u where u: "store_frame X tb ?i f fl t = (Ok (), u)" "evolves X avail_frames frame_alloc_ok r s u"
          "avail_frames (fa u) = avail_frames (fa t)"
          "\<forall>j<2 ^ 35. page_view X (pm u) r j = (if j = k then Some (f, fl, \<lambda>_. 0) else page_view X (pm s) r j)"
        using paging.taken_mapped [OF P T k fl tb(2) False] by blast
      have "sample_map_to X r ?va f fl ?s1 = (Ok (), u)"
        using w tb False u(1) by (simp add: sample_map_to_def ok_or_def throw_def ret_def gets_def)
      moreover have "page_view X (pm s) r k = None" using view D(8) [OF k] False by (simp add: Let_def)
      ultimately show ?thesis using u D(5) c1 c2 by (simp add: ends_def)
    qed
  qed
qed

lemma sample_mapper: "paging_crate (crate E) \<Longrightarrow> map_to E = sample_map_to (crate E) \<Longrightarrow> mapper E"
  by (rule mapper.intro, assumption, erule ssubst, rule sample_map_to_outcome)

interpretation loader: mapper sample_env
  by (rule sample_mapper) (simp_all add: bits.paging_crate_axioms, simp add: sample_env_def)

section \<open>Mapping new pages\<close>

lemma ends_weaken:
  "ends A Q x \<Longrightarrow> (\<And>c t. A c t \<Longrightarrow> B c t) \<Longrightarrow> (\<And>e t. Q e t \<Longrightarrow> R e t) \<Longrightarrow> ends B R x"
  by (auto simp: ends_def split: prod.splits res.splits)

definition all_new :: "image \<Rightarrow> nat set \<Rightarrow> bool" where
  "all_new I K \<longleftrightarrow> (\<forall>k\<in>K. fst I k = None)"

lemma fst_image: "j < 2 ^ 35 \<Longrightarrow> fst (space_image E r s) j = map_option (\<lambda>(f, fl, d). fl) (user_page E s r j)"
  by (simp add: space_image_def)

context mapper
begin

lemma map_page_image:
  assumes sp: "user_space E s r" and k: "k < 2 ^ 35" and fl: "flag_word fl" "contains fl PRESENT"
  shows "ends
    (\<lambda>_ t. memory_only E r s t \<and> free_frames s \<le> free_frames t + 4 \<and> all_new (space_image E r s) {k} \<and>
       space_image E r t = add_pages fl {k} (space_image E r s))
    (\<lambda>e t. memory_only E r s t \<and> (all_new (space_image E r s) {k} \<longrightarrow> free_frames s < 4))
    (map_page E r (page_addr k) fl s)"
proof (rule ends_weaken [OF map_page_run [OF sp k fl]])
  fix u t
  assume a: "memory_only E r s t \<and> free_frames s \<le> free_frames t + 4 \<and> user_page E s r k = None \<and>
    (\<exists>f. \<forall>j<2 ^ 35. user_page E t r j = (if j = k then Some (f, fl, \<lambda>_. 0) else user_page E s r j))"
  then have "range_gains E r fl {k} s t" by (auto simp: range_gains_def page_gains_def)
  then have "space_image E r t = add_pages fl {k} (space_image E r s)" by (rule gains_image) (use k in simp)
  then show "memory_only E r s t \<and> free_frames s \<le> free_frames t + 4 \<and> all_new (space_image E r s) {k} \<and>
     space_image E r t = add_pages fl {k} (space_image E r s)"
    using a k by (simp add: all_new_def fst_image)
next
  fix e t
  assume "memory_only E r s t \<and> (user_page E s r k \<noteq> None \<or> free_frames s < 4)"
  then show "memory_only E r s t \<and> (all_new (space_image E r s) {k} \<longrightarrow> free_frames s < 4)"
    using k by (auto simp: all_new_def fst_image)
qed

end

lemma add_pages_add_pages:
  assumes "k \<notin> K"
  shows "add_pages fl {k} (add_pages fl K I) = add_pages fl (insert k K) I"
  using assms by (intro prod_eqI ext) (auto simp: add_pages_def)

lemma add_pages_none: "add_pages fl {} I = I"
  by (simp add: add_pages_def)

context mapper
begin

text \<open>The addresses that the loop of \<open>map_pages\<close> computes.\<close>

lemma map_pages_round:
  assumes "a + i < 2 ^ 35" and "i < 2 ^ 32"
  shows "(bind (ok_or m1 (checked_mul (of_nat i) PAGE_SIZE)) (\<lambda>off.
     bind (ok_or m2 (checked_add (page_addr a) off)) (\<lambda>x.
     bind (virt_new (crate E) x) (\<lambda>va. map_page E r (containing_frame va) fl)))) = map_page E r (page_addr (a + i)) fl"
proof -
  have u: "unat (of_nat i :: u64) = i" using assms by (intro unat_small) simp
  have m: "checked_mul (of_nat i) PAGE_SIZE = Some (page_addr i)"
    using assms u by (simp add: checked_mul_def PAGE_SIZE_def page_addr_def mult.commute)
  have ua: "unat (page_addr i) = 4096 * i" "unat (page_addr a) = 4096 * a" "unat (page_addr (a + i)) = 4096 * (a + i)"
    using assms by (simp_all add: unat_page_addr)
  have c: "checked_add (page_addr a) (page_addr i) = Some (page_addr (a + i))"
    using assms ua by (simp add: checked_add_def) (simp add: page_addr_def distrib_left)
  have v: "virt_new (crate E) (page_addr (a + i)) = ret (page_addr (a + i))"
    using assms ua by (intro canonical) simp
  have f: "containing_frame (page_addr (a + i)) = page_addr (a + i)"
    using ua by (simp add: page_containing page_no_def)
  show ?thesis by (rule ext) (simp add: m c v f ok_or_def bind_def)
qed

lemma map_pages_image:
  assumes sp: "user_space E s r" and n: "a + n \<le> 2 ^ 35" "n < 2 ^ 32" and fl: "flag_word fl" "contains fl PRESENT"
  shows "ends
    (\<lambda>_ t. memory_only E r s t \<and> free_frames s \<le> free_frames t + 4 * n \<and> all_new (space_image E r s) {a..<a + n} \<and>
       space_image E r t = add_pages fl {a..<a + n} (space_image E r s))
    (\<lambda>e t. memory_only E r s t \<and> (all_new (space_image E r s) {a..<a + n} \<longrightarrow> free_frames s < 4 * n))
    (map_pages E r (page_addr a) n fl s)"
proof -
  let ?I = "space_image E r s"
  let ?P = "\<lambda>xs t. memory_only E r s t \<and> free_frames s \<le> free_frames t + 4 * length xs \<and> all_new ?I {a..<a + length xs} \<and>
       space_image E r t = add_pages fl {a..<a + length xs} ?I"
  let ?Q = "\<lambda>(e :: string) t. memory_only E r s t \<and> (all_new ?I {a..<a + n} \<longrightarrow> free_frames s < 4 * n)"
  have "ends (\<lambda>_. ?P [0..<n]) ?Q (foreach [0..<n] (\<lambda>i.
     bind (ok_or ''map_pages: page offset overflow'' (checked_mul (of_nat i) PAGE_SIZE)) (\<lambda>off.
     bind (ok_or ''map_pages: virtual address overflow'' (checked_add (page_addr a) off)) (\<lambda>a.
     bind (virt_new (crate E) a) (\<lambda>va.
     map_page E r (containing_frame va) fl)))) s)"
  proof (rule ends_foreach)
    fix xs y zs t
    assume split: "[0..<n] = xs @ y # zs" and P: "?P xs t"
    have y: "y = length xs" "y < n"
    proof -
      have "length xs < n" using arg_cong [OF split, of length] by simp
      then show "y = length xs" "y < n" using arg_cong [OF split, of "\<lambda>l. l ! length xs"] by simp_all
    qed
    let ?k = "a + length xs"
    have k: "?k < 2 ^ 35" using y n by simp
    have spt: "user_space E t r" using P memory_only_space by blast
    have K: "{a..<a + length (xs @ [length xs])} = insert ?k {a..<?k}" by auto
    have new: "all_new (space_image E r t) {?k} \<longleftrightarrow> fst ?I ?k = None"
      using P by (simp add: all_new_def add_pages_def)
    have add: "add_pages fl {?k} (space_image E r t) = add_pages fl (insert ?k {a..<?k}) ?I"
      using P add_pages_add_pages [of ?k "{a..<?k}" fl ?I] by simp
    show "ends (\<lambda>_. ?P (xs @ [y])) ?Q
      (bind (ok_or ''map_pages: page offset overflow'' (checked_mul (of_nat y) PAGE_SIZE)) (\<lambda>off.
       bind (ok_or ''map_pages: virtual address overflow'' (checked_add (page_addr a) off)) (\<lambda>a.
       bind (virt_new (crate E) a) (\<lambda>va. map_page E r (containing_frame va) fl))) t)"
      unfolding y(1) map_pages_round [OF k less_trans [OF y(2) [unfolded y(1)] n(2)]]
    proof (rule ends_weaken [OF map_page_image [OF spt k fl]], goal_cases)
      case (1 u t')
      then show ?case
        using P new add memory_only_trans [of E r s t t'] unfolding K by (auto simp: all_new_def)
    next
      case (2 e t')
      have "?k \<in> {a..<a + n}" using y by simp
      then show ?case
        using 2 P new y memory_only_trans [of E r s t t'] by (auto simp: all_new_def)
    qed
  qed (use sp memory_only_refl in \<open>simp add: all_new_def add_pages_none\<close>)
  then show ?thesis unfolding map_pages_def by simp
qed

end

section \<open>The image of a program\<close>

text \<open>The files that \<open>read_elf_header\<close> accepts.\<close>

definition elf_accepted :: "u8 list \<Rightarrow> bool" where
  "elf_accepted img \<longleftrightarrow> (let h = elf_header img in ehdr_size \<le> length img \<and>
     take 4 (ident h) = [0x7F, 0x45, 0x4C, 0x46] \<and> ident h ! 4 = ELF_CLASS_64 \<and> ident h ! 5 = ELF_DATA_LE \<and>
     elf_type h = ELF_TYPE_EXEC \<and> e_machine h = ELF_MACHINE_X86_64 \<and> e_version h = 1)"

lemma magic_bytes: "take 4 (ident h) = [0x7F, 0x45, 0x4C, 0x46] \<Longrightarrow> magic h = ELF_MAGIC_NUM"
  by (simp add: magic_def of_le_def ELF_MAGIC_NUM_def)

lemma read_elf_header_run:
  "elf_accepted img \<Longrightarrow> read_elf_header img s = (Ok (elf_header img), s)"
  "\<not> elf_accepted img \<Longrightarrow> \<exists>e. read_elf_header img s = (Err e, s)"
  using magic_bytes [of "elf_header img"] by (auto simp: elf_accepted_def read_elf_header_def Let_def ret_def throw_def)

definition empty_image :: image where
  "empty_image = (\<lambda>_. None, \<lambda>_. None)"

definition image_loads :: "u8 list \<Rightarrow> Elf64ProgramHeader list" where
  "image_loads img = loads img (elf_header img) [0..<unat (phnum (elf_header img))]"

text \<open>The user stack: eight pages below \<open>USER_STACK_TOP\<close>, and the page under them.\<close>

definition stack_page0 :: nat where "stack_page0 = 2 ^ 33 - 8"
definition stack_hi :: nat where "stack_hi = 2 ^ 45"

definition exec_pages :: "u8 list \<Rightarrow> image" where
  "exec_pages img = add_pages user_flags {stack_page0..<stack_page0 + STACK_PAGES}
     (add_pages (PRESENT OR WRITABLE) {stack_page0 - 1} (fold (add_segment img) (image_loads img) empty_image))"

definition exec_image :: "u8 list \<Rightarrow> u8 list list \<Rightarrow> image" where
  "exec_image img argv = put_stack stack_hi argv (exec_pages img)"

text \<open>The structure that \<open>prepare_exec_img\<close> returns.\<close>

definition exec_result :: "u64 \<Rightarrow> u8 list \<Rightarrow> u8 list list \<Rightarrow> exec_img" where
  "exec_result c img argv = \<lparr>x_page_table = c, x_entry = e_entry (elf_header img),
     x_user_sp = of_nat (argv_addr stack_hi argv - 24), x_argc = length argv,
     x_argv_ptr = of_nat (argv_addr stack_hi argv), x_heap_size = page_addr (page_ceil (load_end (image_loads img) 0))\<rparr>"

text \<open>A file that can be loaded: its headers and segments are inside it, its segments leave the pages of the
  stack free.\<close>

definition loadable :: "u8 list \<Rightarrow> bool" where
  "loadable img \<longleftrightarrow> elf_accepted img \<and> unat (phentsize (elf_header img)) = phdr_size \<and>
     headers_ok img (elf_header img) [0..<unat (phnum (elf_header img))] \<and>
     (\<forall>h\<in>set (image_loads img). segment_pages h \<inter> {stack_page0 - 1..<stack_page0 + STACK_PAGES} = {})"

text \<open>What loading costs at most: the PML4, and four frames for every page.\<close>

definition exec_cost :: "u8 list \<Rightarrow> nat" where
  "exec_cost img = load_cost (image_loads img) + 4 * STACK_PAGES + 5"

lemma fst_segments: "fst (fold (add_segment img) hs I) k = None \<longleftrightarrow> fst I k = None \<and> (\<forall>h\<in>set hs. k \<notin> segment_pages h)"
proof (induction hs arbitrary: I)
  case (Cons h hs)
  have "fst (add_segment img h I) k = None \<longleftrightarrow> fst I k = None \<and> k \<notin> segment_pages h"
    by (simp add: add_segment_def) (simp add: add_pages_def)
  then show ?case using Cons by auto
qed simp

lemma exec_pages_new:
  "all_new (fold (add_segment img) (image_loads img) empty_image) {stack_page0 - 1} \<and>
   all_new (add_pages (PRESENT OR WRITABLE) {stack_page0 - 1} (fold (add_segment img) (image_loads img) empty_image))
     {stack_page0..<stack_page0 + STACK_PAGES} \<longleftrightarrow>
   (\<forall>h\<in>set (image_loads img). segment_pages h \<inter> {stack_page0 - 1..<stack_page0 + STACK_PAGES} = {})"
proof -
  define I where "I = fold (add_segment img) (image_loads img) empty_image"
  have I: "fst I k = None \<longleftrightarrow> (\<forall>h\<in>set (image_loads img). k \<notin> segment_pages h)" for k
    unfolding I_def fst_segments by (simp add: empty_image_def)
  have K: "{stack_page0 - 1..<stack_page0 + STACK_PAGES} = insert (stack_page0 - 1) {stack_page0..<stack_page0 + STACK_PAGES}"
    by (auto simp: stack_page0_def STACK_PAGES_def)
  have "all_new (add_pages fl {stack_page0 - 1} I) {stack_page0..<stack_page0 + STACK_PAGES} \<longleftrightarrow>
      all_new I {stack_page0..<stack_page0 + STACK_PAGES}" for fl
    by (auto simp: all_new_def add_pages_def stack_page0_def)
  moreover have "all_new I {stack_page0 - 1} \<and> all_new I {stack_page0..<stack_page0 + STACK_PAGES} \<longleftrightarrow>
      (\<forall>h\<in>set (image_loads img). segment_pages h \<inter> {stack_page0 - 1..<stack_page0 + STACK_PAGES} = {})"
    unfolding K all_new_def I by blast
  ultimately show ?thesis unfolding I_def by simp
qed

lemma stack_backed: "backed (exec_pages img) (of_nat (stack_hi - 32768)) 32768"
  unfolding backed_def
proof (intro conjI allI impI)
  have u: "unat (of_nat (stack_hi - 32768) :: u64) = stack_hi - 32768" by (simp add: stack_hi_def)
  then show "unat (of_nat (stack_hi - 32768) :: u64) + 32768 \<le> 2 ^ 47" by (simp add: stack_hi_def)
  fix k :: nat assume k: "k < 32768"
  then have "unat (of_nat (stack_hi - 32768) + of_nat k :: u64) = stack_hi - 32768 + k"
    using u by (subst unat_add_of_nat) (simp_all add: stack_hi_def)
  then have "page_no (of_nat (stack_hi - 32768) + of_nat k) = (stack_hi - 32768 + k) div 4096" by (simp add: page_no_def)
  also have "\<dots> \<in> {stack_page0..<stack_page0 + STACK_PAGES}"
    using k by (auto simp: stack_hi_def stack_page0_def STACK_PAGES_def)
  finally show "fst (exec_pages img) (page_no (of_nat (stack_hi - 32768) + of_nat k)) \<noteq> None"
    by (simp add: exec_pages_def add_pages_def)
qed

section \<open>A fresh address space\<close>

lemma tbl_empty:
  "\<forall>i<256. \<not> present X (m c i) \<Longrightarrow> upath p \<Longrightarrow> tbl X m c p = (if p = [] then Some c else None)"
  by (cases p) (auto simp: upath_def)

lemma empty_space:
  assumes X: "paging_crate X" and m: "\<forall>i<256. m c i = 0"
  shows "user_tree X m c" and "no_huge X m c" and "space_frames X m c = {c}" and "k < 2 ^ 35 \<Longrightarrow> page_view X m c k = None"
proof -
  have np: "\<forall>i<256. \<not> present X (m c i)"
    using m paging_crate.flags_unused [OF X] by (simp add: present_def contains_def PRESENT_def)
  then have T: "upath p \<Longrightarrow> tbl X m c p = (if p = [] then Some c else None)" for p by (rule tbl_empty)
  show "user_tree X m c" unfolding user_tree_def using T by (metis option.distinct(1))
  show "no_huge X m c" unfolding no_huge_def
  proof (intro allI impI)
    fix p i t
    assume a: "upath (p @ [i]) \<and> tbl X m c p = Some t \<and> present X (m t i)"
    then have "p = []" "t = c" using T [of p] upath_snocD [of p i] by (auto split: if_splits)
    then show "\<not> contains (pte_flags X (m t i)) HUGE_PAGE" using a np by (auto simp: upath_def)
  qed
  show "space_frames X m c = {c}" unfolding space_frames_def using T by (auto split: if_splits intro!: exI [of _ "[]"])
  show "page_view X m c k = None" if "k < 2 ^ 35"
  proof -
    have "upath (butlast (page_path k))" using upath_page [OF that] page_path_snoc upath_snocD by metis
    moreover have "butlast (page_path k) \<noteq> []" by (simp add: page_path_def va_path_def)
    ultimately show ?thesis using T by (simp add: page_view_tbl)
  qed
qed

text \<open>The kernel half of \<open>c\<close> is that of the table in \<open>CR3\<close>.\<close>

definition shares_kernel :: "u64 \<Rightarrow> 'h kernel \<Rightarrow> 'h kernel \<Rightarrow> bool" where
  "shares_kernel c s t \<longleftrightarrow> (\<forall>i. 256 \<le> i \<and> i < 512 \<longrightarrow> pm (k_mem t) c i = pm (k_mem s) (k_cr3 s) i)"

text \<open>Only memory and the console change, in memory only frames that were free.\<close>

definition uses_free :: "'h kernel \<Rightarrow> 'h kernel \<Rightarrow> bool" where
  "uses_free s t \<longleftrightarrow> (\<exists>m o'. t = s\<lparr>k_mem := m, k_out := o'\<rparr>) \<and> frame_alloc_ok (fa (k_mem t)) \<and>
     avail_frames (fa (k_mem t)) \<subseteq> avail_frames (fa (k_mem s)) \<and>
     (\<forall>f. f \<notin> avail_frames (fa (k_mem s)) \<longrightarrow> pm (k_mem t) f = pm (k_mem s) f)"

lemma new_uvm_run:
  assumes X: "paging_crate (crate E)" and ok: "frame_alloc_ok (fa (k_mem s))" and po: "phys_offset (k_mem s) \<noteq> None"
    and cr3: "k_cr3 s \<notin> avail_frames (fa (k_mem s))"
  shows "ends
    (\<lambda>c t. (\<exists>m. t = s\<lparr>k_mem := m\<rparr>) \<and> uses_free s t \<and> user_space E t c \<and> c \<in> avail_frames (fa (k_mem s)) \<and>
       space_frames (crate E) (pm (k_mem t)) c = {c} \<and> free_frames s = Suc (free_frames t) \<and>
       shares_kernel c s t \<and> space_image E c t = empty_image)
    (\<lambda>e t. uses_free s t \<and> free_frames s = 0)
    (on_mem (new_uvm allocate_frame (k_cr3 s)) s)"
proof -
  obtain res m where run: "new_uvm allocate_frame (k_cr3 s) (k_mem s) = (res, m)" by fastforce
  have r: "on_mem (new_uvm allocate_frame (k_cr3 s)) s = (res, s\<lparr>k_mem := m\<rparr>)"
    using run by (simp add: on_mem_def zoom_def)
  let ?t = "s\<lparr>k_mem := m\<rparr>"
  note N = boot.new_uvm_ok [OF ok cr3 po run]
  show ?thesis
  proof (cases "\<exists>c. res = Ok c")
    case False
    then have "res = Err ''allocating frame failed''" and A: "avail_frames (fa (k_mem s)) = {}" "avail_frames (fa m) = {}" "frame_alloc_ok (fa m)"
      and m: "m = (k_mem s)\<lparr>fa := fa m\<rparr>" using N by auto
    moreover have pm: "pm m = pm (k_mem s)" by (subst m) simp
    moreover have "uses_free s ?t"
      using A pm unfolding uses_free_def by (intro conjI exI [of _ m] exI [of _ "k_out s"]) auto
    ultimately show ?thesis unfolding r by (simp add: ends_def)
  next
    case True
    then obtain c where res: "res = Ok c" and c: "c \<in> avail_frames (fa (k_mem s))"
      and A: "avail_frames (fa m) = avail_frames (fa (k_mem s)) - {c}" "frame_alloc_ok (fa m)"
      and m: "m = (k_mem s)\<lparr>fa := fa m, pm := (pm (k_mem s))(c := kernel_half (pm (k_mem s)) (k_cr3 s))\<rparr>" using N by auto
    have pm: "pm m = (pm (k_mem s))(c := kernel_half (pm (k_mem s)) (k_cr3 s))" by (subst m) simp
    have po': "phys_offset m = phys_offset (k_mem s)" by (subst m) simp
    have low: "\<forall>i<256. pm m c i = 0" by (simp add: pm kernel_half_def)
    note S = empty_space [where m = "pm m" and c = c, OF X low]
    have sp: "user_space E ?t c"
      using S A c po po' boot.avail_phys [OF ok] unfolding space_ok_def by auto
    have img: "space_image E c ?t = empty_image"
      using S(4) by (auto simp: space_image_def empty_image_def page_byte_def user_va_page)
    have "finite (avail_frames (fa (k_mem s)))" using ok by (simp add: frame_alloc_ok_def avail_frames_def)
    from card.remove [OF this c] have cd: "free_frames s = Suc (free_frames ?t)"
      using A by simp
    have "shares_kernel c s ?t" by (simp add: shares_kernel_def pm kernel_half_def)
    moreover have "uses_free s ?t"
      using A c pm unfolding uses_free_def by (intro conjI exI [of _ m] exI [of _ "k_out s"]) auto
    ultimately show ?thesis
      using sp img S(3) c cd unfolding r res by (auto simp: ends_def)
  qed
qed

section \<open>Preparing the image\<close>

lemma uses_free_trans: "uses_free s t \<Longrightarrow> uses_free t u \<Longrightarrow> uses_free s u"
  unfolding uses_free_def by fastforce

lemma memory_only_uses_free:
  assumes "memory_only E c t u" and "uses_free s t" and "space_frames (crate E) (pm (k_mem t)) c \<subseteq> avail_frames (fa (k_mem s))"
  shows "uses_free s u"
proof -
  obtain m o' m2 o2 where t: "t = s\<lparr>k_mem := m, k_out := o'\<rparr>" and u: "u = t\<lparr>k_mem := m2, k_out := o2\<rparr>"
    using assms(1,2) unfolding memory_only_def uses_free_def by blast
  note C = conjunct2 [OF assms(1) [unfolded memory_only_def], unfolded confined_def]
  note F = assms(2) [unfolded uses_free_def]
  have "pm (k_mem u) f = pm (k_mem s) f" if "f \<notin> avail_frames (fa (k_mem s))" for f
    using C F assms(3) that by (metis (no_types, lifting) Un_iff subsetD)
  moreover have "avail_frames (fa (k_mem u)) \<subseteq> avail_frames (fa (k_mem s))" using C F by blast
  moreover have "frame_alloc_ok (fa (k_mem u))" using C by (simp add: space_ok_def)
  moreover have "u = s\<lparr>k_mem := m2, k_out := o2\<rparr>" unfolding u t by simp
  ultimately show ?thesis unfolding uses_free_def by blast
qed

lemma memory_only_shares:
  assumes "memory_only E c t u" and "shares_kernel c s t"
  shows "shares_kernel c s u"
  using assms by (simp add: memory_only_def confined_def shares_kernel_def)

lemma memory_only_frames_of:
  assumes "memory_only E c t u" and "space_frames (crate E) (pm (k_mem t)) c \<union> avail_frames (fa (k_mem t)) \<subseteq> F"
  shows "space_frames (crate E) (pm (k_mem u)) c \<subseteq> F"
  using assms by (auto simp: memory_only_def confined_def)

text \<open>The space of \<open>c\<close> was made from frames that were free in \<open>s\<close>.\<close>

definition made_from :: "'h env \<Rightarrow> u64 \<Rightarrow> 'h kernel \<Rightarrow> 'h kernel \<Rightarrow> bool" where
  "made_from E c s t \<longleftrightarrow> uses_free s t \<and> user_space E t c \<and>
     space_frames (crate E) (pm (k_mem t)) c \<subseteq> avail_frames (fa (k_mem s)) \<and> shares_kernel c s t"

lemma made_from_step:
  assumes "made_from E c s t" and "memory_only E c t u"
  shows "made_from E c s u"
proof -
  note M = assms(1) [unfolded made_from_def]
  have "space_frames (crate E) (pm (k_mem t)) c \<union> avail_frames (fa (k_mem t)) \<subseteq> avail_frames (fa (k_mem s))"
    using M by (auto simp: uses_free_def)
  then show ?thesis
    using M memory_only_uses_free [OF assms(2)] memory_only_shares [OF assms(2)] memory_only_space [OF assms(2)]
      memory_only_frames_of [OF assms(2)] by (simp add: made_from_def)
qed

lemma stack_addresses:
  "checked_mul (of_nat STACK_PAGES) PAGE_SIZE = Some (0x8000 :: u64)"
  "checked_sub USER_STACK_TOP 0x8000 = Some (page_addr stack_page0)"
  "checked_sub (page_addr stack_page0) PAGE_SIZE = Some (page_addr (stack_page0 - 1))"
  "of_nat stack_hi = USER_STACK_TOP"
  by (simp_all add: checked_mul_def checked_sub_def STACK_PAGES_def PAGE_SIZE_def USER_STACK_TOP_def page_addr_def
      stack_page0_def stack_hi_def)

lemma guard_flags: "flag_word (PRESENT OR WRITABLE)" "contains (PRESENT OR WRITABLE) PRESENT"
  by (simp_all add: flag_word_def addr_mask_def flag_defs contains_def mask_eq_exp_minus_1)

lemma user_flags_present: "flag_word user_flags" "contains user_flags PRESENT"
  by (simp_all add: flag_word_def addr_mask_def user_flags_def flag_defs contains_def mask_eq_exp_minus_1)

context mapper
begin

text \<open>From the fresh space to the stack: the part of \<open>prepare_exec_img\<close> after \<open>new_uvm\<close>.\<close>

lemma build_image_run:
  assumes c: "made_from E c s s1" "space_image E c s1 = empty_image" "free_frames s = Suc (free_frames s1)"
    and len: "length img < 2 ^ 63" and acc: "elf_accepted img"
    and user: "\<forall>h\<in>set (image_loads img). segment_user h"
    and args: "stack_need argv \<le> 32768"
  shows "ends
    (\<lambda>x t. loadable img \<and> x = exec_result c img argv \<and> made_from E c s t \<and> space_image E c t = exec_image img argv)
    (\<lambda>e t. uses_free s t \<and> (loadable img \<longrightarrow> free_frames s < exec_cost img))
    (bind (load_elf_segments E img (elf_header img) c) (\<lambda>heap.
     bind (map_page E c (page_addr (stack_page0 - 1)) (PRESENT OR WRITABLE)) (\<lambda>_.
     bind (map_pages E c (page_addr stack_page0) STACK_PAGES user_flags) (\<lambda>_.
     bind (setup_user_stack E c argv USER_STACK_TOP) (\<lambda>(usp, argc, argv_ptr).
     ret \<lparr>x_page_table = c, x_entry = e_entry (elf_header img), x_user_sp = usp, x_argc = argc,
          x_argv_ptr = argv_ptr, x_heap_size = heap\<rparr>)))) s1)"
proof -
  let ?elf = "elf_header img" and ?hs = "image_loads img" and ?g = "stack_page0 - 1"
  let ?I1 = "fold (add_segment img) ?hs empty_image"
  let ?I2 = "add_pages (PRESENT OR WRITABLE) {?g} ?I1"
  let ?stk = "{stack_page0..<stack_page0 + STACK_PAGES}"
  let ?Q = "\<lambda>(e :: string) t. uses_free s t \<and> (loadable img \<longrightarrow> free_frames s < exec_cost img)"
  let ?good = "unat (phentsize ?elf) = phdr_size \<and> headers_ok img ?elf [0..<unat (phnum ?elf)]"
  have load: "loadable img \<longleftrightarrow> ?good \<and> all_new ?I1 {?g} \<and> all_new ?I2 ?stk"
    using acc exec_pages_new [of img] by (simp add: loadable_def conj_assoc)
  have step: "made_from E c s u \<and> uses_free s u" if "made_from E c s t" "memory_only E c t u" for t u
    using made_from_step [OF that] by (simp add: made_from_def)
  have sp1: "user_space E s1 c" using c by (simp add: made_from_def)
  have A1: "ends
    (\<lambda>h t. made_from E c s t \<and> free_frames s \<le> Suc (free_frames t + load_cost ?hs) \<and> ?good \<and>
       h = page_addr (page_ceil (load_end ?hs 0)) \<and> space_image E c t = ?I1) ?Q
    (load_elf_segments E img ?elf c s1)"
  proof (rule ends_weaken [OF load_elf_segments_run [OF sp1 len _ user refl]], goal_cases)
    case 1
    then show ?case by (simp add: image_loads_def)
  next
    case (2 h t)
    then show ?case using step [OF c(1), of t] c by simp
  next
    case (3 e t)
    then show ?case using step [OF c(1), of t] c load by (auto simp: exec_cost_def)
  qed
  have A2: "ends
    (\<lambda>_ u. made_from E c s u \<and> free_frames s \<le> Suc (free_frames u + load_cost ?hs + 4) \<and> ?good \<and> all_new ?I1 {?g} \<and>
       space_image E c u = ?I2) ?Q
    (map_page E c (page_addr ?g) (PRESENT OR WRITABLE) t)"
    if T: "made_from E c s t" "free_frames s \<le> Suc (free_frames t + load_cost ?hs)" ?good "space_image E c t = ?I1" for t
  proof -
    have sp: "user_space E t c" using T by (simp add: made_from_def)
    have g: "?g < 2 ^ 35" by (simp add: stack_page0_def)
    show ?thesis
    proof (rule ends_weaken [OF map_page_image [OF sp g guard_flags]], goal_cases)
      case (1 h u)
      then show ?case using step [OF T(1), of u] T by simp
    next
      case (2 e u)
      then show ?case using step [OF T(1), of u] T load by (auto simp: exec_cost_def)
    qed
  qed
  have A3: "ends
    (\<lambda>_ u. made_from E c s u \<and> loadable img \<and> space_image E c u = exec_pages img) ?Q
    (map_pages E c (page_addr stack_page0) STACK_PAGES user_flags t)"
    if T: "made_from E c s t" "free_frames s \<le> Suc (free_frames t + load_cost ?hs + 4)" ?good "all_new ?I1 {?g}"
      "space_image E c t = ?I2" for t
  proof -
    have sp: "user_space E t c" using T by (simp add: made_from_def)
    have n: "stack_page0 + STACK_PAGES \<le> 2 ^ 35" "STACK_PAGES < 2 ^ 32" by (simp_all add: stack_page0_def STACK_PAGES_def)
    show ?thesis
    proof (rule ends_weaken [OF map_pages_image [OF sp n user_flags_present]], goal_cases)
      case (1 h u)
      then show ?case using step [OF T(1), of u] T load by (simp add: exec_pages_def)
    next
      case (2 e u)
      then show ?case using step [OF T(1), of u] T load by (auto simp: exec_cost_def)
    qed
  qed
  have A4: "\<exists>u. setup_user_stack E c argv USER_STACK_TOP t =
      (Ok (of_nat (argv_addr stack_hi argv - 24), length argv, of_nat (argv_addr stack_hi argv)), u) \<and>
    made_from E c s u \<and> space_image E c u = exec_image img argv"
    if T: "made_from E c s t" "space_image E c t = exec_pages img" for t
  proof -
    have sp: "user_space E t c" using T by (simp add: made_from_def)
    have bk: "backed (space_image E c t) (of_nat (stack_hi - 32768)) (stack_hi - (stack_hi - 32768))"
      unfolding T(2) using stack_backed [of img] by (simp add: stack_hi_def)
    have hi: "stack_hi \<le> 2 ^ 47" "stack_hi - 32768 + stack_need argv \<le> stack_hi" using args by (simp_all add: stack_hi_def)
    have "length argv < 2 ^ 32" using args by (simp add: stack_need_def)
    from setup_user_stack_run [OF crate_laws sp this bk hi] obtain u where
      u: "setup_user_stack E c argv USER_STACK_TOP t =
          (Ok (of_nat (argv_addr stack_hi argv - 24), length argv, of_nat (argv_addr stack_hi argv)), u)"
      and m: "makes E c (put_stack stack_hi argv) t u" unfolding stack_addresses by blast
    have "made_from E c s u" "space_image E c u = exec_image img argv"
      using m step [OF T(1), of u] T(2) by (simp_all add: makes_def exec_image_def)
    then show ?thesis using u by blast
  qed
  show ?thesis
  proof (rule ends_bind [where f = "load_elf_segments E img ?elf c", OF A1], elim conjE, goal_cases)
    case (1 h t)
    show ?case
    proof (rule ends_bind [where f = "map_page E c (page_addr ?g) (PRESENT OR WRITABLE)", OF A2], goal_cases)
      case (5 v t2)
      then have T2: "made_from E c s t2" "free_frames s \<le> Suc (free_frames t2 + load_cost ?hs + 4)" ?good "all_new ?I1 {?g}"
          "space_image E c t2 = ?I2" by simp_all
      show ?case
      proof (rule ends_bind [where f = "map_pages E c (page_addr stack_page0) STACK_PAGES user_flags", OF A3 [OF T2]], elim conjE, goal_cases)
        case (1 w t3)
        from A4 [OF 1(1,3)] show ?case
          using 1 \<open>h = page_addr (page_ceil (load_end ?hs 0))\<close>
          by (auto simp: ends_def ret_def exec_result_def)
      qed
    qed (use 1 in simp_all)
  qed
qed

lemma prepare_exec_img_run:
  assumes ok: "frame_alloc_ok (fa (k_mem s))" and po: "phys_offset (k_mem s) \<noteq> None" and fr: "k_frames_ready s"
    and cr3: "k_cr3 s \<notin> avail_frames (fa (k_mem s))"
    and len: "length img < 2 ^ 63" and user: "\<forall>h\<in>set (image_loads img). segment_user h"
    and args: "stack_need argv \<le> 32768"
  shows "ends
    (\<lambda>x t. loadable img \<and> (\<exists>c\<in>avail_frames (fa (k_mem s)). x = exec_result c img argv \<and> made_from E c s t \<and>
       space_image E c t = exec_image img argv))
    (\<lambda>e t. uses_free s t \<and> (loadable img \<longrightarrow> free_frames s < exec_cost img))
    (prepare_exec_img E img argv s)"
proof (cases "elf_accepted img")
  case False
  then have "\<exists>e. prepare_exec_img E img argv s = (Err e, s)"
    using read_elf_header_run(2) [OF False, of s] by (auto simp: prepare_exec_img_def throw_def bind_def)
  moreover have "uses_free s s" using ok unfolding uses_free_def by (intro conjI exI [of _ "k_mem s"] exI [of _ "k_out s"]) simp_all
  ultimately show ?thesis using False by (auto simp: ends_def loadable_def)
next
  case True
  then have long: "\<not> length img < ehdr_size" by (simp add: elf_accepted_def Let_def)
  have can: "virt_new (crate E) (page_addr k) = (ret (page_addr k) :: ('h kernel, u64) program)" if "k < 2 ^ 35" for k
    using that by (intro canonical) (simp add: unat_page_addr)
  have pg: "containing_frame (page_addr k) = page_addr k" if "k < 2 ^ 35" for k
    using that by (simp add: page_containing page_no_def unat_page_addr)
  have k: "stack_page0 < 2 ^ 35" "stack_page0 - 1 < 2 ^ 35" by (simp_all add: stack_page0_def)
  note C = can [OF k(1)] can [OF k(2)] pg [OF k(1)] pg [OF k(2)]
  have fae: "frame_allocator_expect s = (Ok (), s)" using fr by (simp add: frame_allocator_expect_def)
  let ?rest = "\<lambda>pml4. bind exec_offset (\<lambda>_. bind (load_elf_segments E img (elf_header img) pml4) (\<lambda>heap.
     bind (map_page E pml4 (page_addr (stack_page0 - 1)) (PRESENT OR WRITABLE)) (\<lambda>_.
     bind (map_pages E pml4 (page_addr stack_page0) STACK_PAGES user_flags) (\<lambda>_.
     bind (setup_user_stack E pml4 argv USER_STACK_TOP) (\<lambda>(usp, argc, argv_ptr).
     ret \<lparr>x_page_table = pml4, x_entry = e_entry (elf_header img), x_user_sp = usp, x_argc = argc,
          x_argv_ptr = argv_ptr, x_heap_size = heap\<rparr>)))))"
  have run: "prepare_exec_img E img argv s = bind (on_mem (new_uvm allocate_frame (k_cr3 s))) ?rest s"
    using long read_elf_header_run(1) [OF True, of s] fae
    by (simp add: prepare_exec_img_def stack_addresses [unfolded One_nat_def] C [unfolded One_nat_def])
  show ?thesis
    unfolding run
  proof (rule ends_bind [where f = "on_mem (new_uvm allocate_frame (k_cr3 s))"])
    show "ends
      (\<lambda>c t. (\<exists>m. t = s\<lparr>k_mem := m\<rparr>) \<and> uses_free s t \<and> user_space E t c \<and> c \<in> avail_frames (fa (k_mem s)) \<and>
         space_frames (crate E) (pm (k_mem t)) c = {c} \<and> free_frames s = Suc (free_frames t) \<and>
         shares_kernel c s t \<and> space_image E c t = empty_image)
      (\<lambda>e t. uses_free s t \<and> (loadable img \<longrightarrow> free_frames s < exec_cost img))
      (on_mem (new_uvm allocate_frame (k_cr3 s)) s)"
      by (rule ends_weaken [OF new_uvm_run [OF crate_laws ok po cr3]]) (auto simp: exec_cost_def)
  next
    fix c t
    assume a: "(\<exists>m. t = s\<lparr>k_mem := m\<rparr>) \<and> uses_free s t \<and> user_space E t c \<and> c \<in> avail_frames (fa (k_mem s)) \<and>
         space_frames (crate E) (pm (k_mem t)) c = {c} \<and> free_frames s = Suc (free_frames t) \<and>
         shares_kernel c s t \<and> space_image E c t = empty_image"
    have M: "made_from E c s t" using a by (simp add: made_from_def)
    have off: "exec_offset t = (Ok (), t)" using a exec_offset_run by blast
    show "ends
      (\<lambda>x t. loadable img \<and> (\<exists>c\<in>avail_frames (fa (k_mem s)). x = exec_result c img argv \<and> made_from E c s t \<and>
         space_image E c t = exec_image img argv))
      (\<lambda>e t. uses_free s t \<and> (loadable img \<longrightarrow> free_frames s < exec_cost img)) (?rest c t)"
      unfolding bind_simps(1) [where f = exec_offset, OF off]
    proof (rule ends_weaken [OF build_image_run [OF M _ _ len True user args]])
      show "space_image E c t = empty_image" "free_frames s = Suc (free_frames t)" using a by blast+
    qed (use a in blast)+
  qed
qed

end

section \<open>Committing it\<close>

text \<open>What \<open>commit_exec\<close> leaves: the process has the new page table and break, the thread the new entry context, the
  trap frame at \<open>q\<close> the registers that the program starts with.\<close>

definition start_frame :: "exec_img \<Rightarrow> trap_frame \<Rightarrow> trap_frame" where
  "start_frame x f = f\<lparr>tf_rax := 0, tf_rdi := of_nat (x_argc x), tf_rsi := x_argv_ptr x, tf_rcx := x_entry x\<rparr>"

definition start_context :: "exec_img \<Rightarrow> Context \<Rightarrow> Context" where
  "start_context x c = c\<lparr>rsp3 := x_user_sp x, user_rip := x_entry x, user_rdi := of_nat (x_argc x), user_rsi := x_argv_ptr x\<rparr>"

definition committed :: "exec_img \<Rightarrow> nat \<Rightarrow> nat \<Rightarrow> process \<Rightarrow> u64 \<Rightarrow> 'h kernel \<Rightarrow> 'h kernel" where
  "committed x i p pr q s = s\<lparr>
     k_procs := (k_procs s)[p := Some (pr\<lparr>page_table := Some (x_page_table x), heap_size := x_heap_size x\<rparr>)],
     k_threads := (k_threads s)[i := (k_threads s ! i)\<lparr>ctx := start_context x (ctx (k_threads s ! i))\<rparr>],
     k_stacks := tf_store q (start_frame x (tf_load (k_stacks s) q)) (k_stacks s),
     k_cpu := (k_cpu s)\<lparr>saved_user_rsp := x_user_sp x\<rparr>, k_cr3 := x_page_table x\<rparr>"

lemma commit_exec_run:
  assumes run: "running s i p pr" and q: "tf (k_threads s ! i) = Some q"
  shows "commit_exec x s = (Ok (), committed x i p pr q s)"
proof -
  note R = run [unfolded running_def tables_ok_def]
  have b: "i < length (k_threads s)" "p < length (k_procs s)" using R by simp_all
  have look: "lookup_process p s = Some pr" "lookup_thread i s = Some (k_threads s ! i)"
    using R by (simp_all add: lookup_process_def lookup_thread_def)
  let ?s1 = "s\<lparr>k_procs := (k_procs s)[p := Some (pr\<lparr>page_table := Some (x_page_table x), heap_size := x_heap_size x\<rparr>)]\<rparr>"
  have look1: "lookup_thread i ?s1 = Some (k_threads s ! i)" using b by (simp add: lookup_thread_def)
  obtain z where z: "take_snapshot i p s = (Ok z, s)"
    using look q by (simp add: take_snapshot_def load_tf_def gets_def)
  have "commit_body x i p s = (Ok (), committed x i p pr q s)"
    using b look look1 q
    by (simp add: commit_body_def set_proc_run set_thread_run load_tf_def store_tf_def on_cpu_def modify_def committed_def
        start_frame_def start_context_def)
  then show ?thesis
    using R z running_pid [OF run] by (simp add: commit_exec_def)
qed

text \<open>\<open>prepare_exec_img\<close> keeps the tables, so that the current process is the same.\<close>

lemma uses_free_running:
  assumes "uses_free s t"
  shows "running t i p pr \<longleftrightarrow> running s i p pr" and "k_threads t = k_threads s" and "k_procs t = k_procs s"
    and "k_cpu t = k_cpu s" and "k_stacks t = k_stacks s" and "k_cr3 t = k_cr3 s"
proof -
  obtain m o' where "t = s\<lparr>k_mem := m, k_out := o'\<rparr>" using assms unfolding uses_free_def by blast
  then show "running t i p pr \<longleftrightarrow> running s i p pr" and "k_threads t = k_threads s" and "k_procs t = k_procs s"
    and "k_cpu t = k_cpu s" and "k_stacks t = k_stacks s" and "k_cr3 t = k_cr3 s"
    by (simp_all add: running_def tables_ok_def)
qed

text \<open>The two outcomes of \<open>exec\<close>.\<close>

context mapper
begin

lemma exec_run:
  assumes run: "running s i p pr" and q: "tf (k_threads s ! i) = Some q"
    and ok: "frame_alloc_ok (fa (k_mem s))" and po: "phys_offset (k_mem s) \<noteq> None" and fr: "k_frames_ready s"
    and cr3: "k_cr3 s \<notin> avail_frames (fa (k_mem s))" and look: "lookup_program E path = Some img"
    and len: "length img < 2 ^ 63" and user: "\<forall>h\<in>set (image_loads img). segment_user h"
    and args: "stack_need argv \<le> 32768"
  shows "ends
    (\<lambda>_ t. loadable img \<and> (\<exists>c\<in>avail_frames (fa (k_mem s)). \<exists>u. made_from E c s u \<and>
       space_image E c u = exec_image img argv \<and> t = committed (exec_result c img argv) i p pr q u))
    (\<lambda>e t. uses_free s t \<and> (loadable img \<longrightarrow> free_frames s < exec_cost img))
    (exec E path argv s)"
proof -
  obtain res u where P: "prepare_exec_img E img argv s = (res, u)" by fastforce
  note R = prepare_exec_img_run [OF ok po fr cr3 len user args, unfolded P]
  show ?thesis
  proof (cases res)
    case (Ok x)
    then obtain c where c: "c \<in> avail_frames (fa (k_mem s))" "x = exec_result c img argv" "made_from E c s u"
        "space_image E c u = exec_image img argv" "loadable img"
      using R by (auto simp: ends_def)
    have U: "uses_free s u" using c(3) by (simp add: made_from_def)
    have "commit_exec x u = (Ok (), committed x i p pr q u)"
      by (rule commit_exec_run) (use run q uses_free_running [OF U] in simp_all)
    then have "exec E path argv s = (Ok (), committed x i p pr q u)"
      using P Ok look by (simp add: exec_def)
    then show ?thesis using c by (auto simp: ends_def)
  next
    case (Err e)
    then have "exec E path argv s = (Err e, u)" using P look by (simp add: exec_def)
    then show ?thesis using R Err by (simp add: ends_def)
  next
    case (Panic e)
    then show ?thesis using R by (simp add: ends_def)
  qed
qed

end

end
