(* ===== verification/ProcessProps.thy ===== *)
theory ProcessProps
  imports Sample
begin

text \<open>
  The properties of the process system calls: \<open>fork\<close>, \<open>exit\<close>, \<open>wait\<close>, \<open>kill\<close> and \<open>sbrk\<close>, with instances
  on the sample kernel.
\<close>

section \<open>Sample processes\<close>

text \<open>Process 0 runs on thread 0 of an otherwise empty system.\<close>

definition one_process :: "u64 kernel" where
  "one_process = sample_kernel [sample_thread 0 0 Running] [Some (sample_process 0 0 0x1000)] (Some 0)"

lemma one_running: "running one_process 0 0 (sample_process 0 0 0x1000)"
  unfolding one_process_def by (rule sample_running) (simp_all add: NTHREAD_def NPROCESS_def)

lemma foreach_skip: "(\<And>i. i \<in> set is \<Longrightarrow> body i s = (Ok (), s)) \<Longrightarrow> foreach is body s = (Ok (), s)"
  by (induction "is") (auto simp: bind_def)

text \<open>Copying the empty space takes one frame.\<close>

lemma sample_copy: "\<exists>c m. copy_uvm x86_bits allocate_frame 0xA000 0x1000 sample_memory = (Ok c, m)"
proof -
  obtain res t where r: "new_uvm allocate_frame 0xA000 sample_memory = (res, t)" by fastforce
  have "frame_alloc_ok (fa sample_memory)" "(0xA000 :: u64) \<notin> avail_frames (fa sample_memory)" "phys_offset sample_memory \<noteq> None"
    using sample_memory_ok by (simp_all add: space_ok_def sample_memory_avail sample_free_def)
  from boot.new_uvm_ok [OF this r] obtain c where c: "res = Ok c" "c \<in> set sample_free"
    and t: "t = sample_memory\<lparr>fa := fa t, pm := (pm sample_memory)(c := kernel_half (pm sample_memory) 0xA000)\<rparr>"
    by (auto simp: sample_memory_avail sample_free_def)
  have "pm t 0x1000 i = 0" for i
    using c(2) by (subst t) (auto simp: sample_free_def sample_memory_def sample_mem_def)
  then have "copy_entries x86_bits allocate_frame 3 0x1000 c [0..<256] t = (Ok (), t)"
    unfolding eval_nat_numeral copy_entries.simps
    by (intro foreach_skip) (simp add: copy_table_def present_def contains_def PRESENT_def)
  then show ?thesis
    using r c(1) by (auto simp: copy_uvm_def offset_set_def sample_memory_def sample_mem_def)
qed

lemma kept_pages:
  assumes "space_ok X avail_frames frame_alloc_ok m r" and "\<forall>f. f \<notin> avail_frames (fa m) \<longrightarrow> pm m' f = pm m f" and "k < 2 ^ 35"
  shows "page_view X (pm m') r k = page_view X (pm m) r k"
  unfolding page_view_def
proof (rule same_space(5) [OF _ upath_page [OF assms(3)]])
  show "pm m' f = pm m f" if "f \<in> space_frames X (pm m) r" for f
    using that assms(1,2) by (auto simp: space_ok_def)
qed (simp add: page_path_def)

section \<open>fork\<close>

text \<open>C25. A \<open>fork\<close> that returns has made a child process: alive, with the caller as parent, the caller's break, one runnable
  thread, and an address space in which every user page has the flags and the contents of the caller's; the caller's
  own pages are unchanged. When the child's thread is first run, its trampoline returns to user mode behind the system
  call with 0 in \<open>rax\<close>, the caller's user stack pointer and flags, and the other registers of the caller's trap frame.\<close>

theorem fork_child_resumes:
  assumes "paging_crate (crate E)" and "running s i p pr" and "state (k_threads s ! i) \<noteq> Unused"
    and "page_table pr = Some r" and "user_space E s r" and "k_cr3 s \<notin> avail_frames (fa (k_mem s))" and "k_frames_ready s"
    and "tf (k_threads s ! i) = Some q"
    and "first_index (NPROCESS - 1) (\<lambda>i. k_procs s ! i = None) = Some cp"
    and "first_index (NTHREAD - 1) (\<lambda>i. state (k_threads s ! i) = Unused) = Some ct"
    and "kalloc E (k_heap s) = (b, h)" and "block_ok b" and "tf_words q \<inter> tf_words (b + STACK_SIZE - TRAPFRAME_SIZE) = {}"
    and "fork E s = (Ok c, s')"
  shows "c = cp \<and> (\<exists>ch pt. k_procs s' ! cp = Some ch \<and> p_state ch = Alive \<and> ppid ch = Some (pid pr) \<and>
      heap_size ch = heap_size pr \<and> threads ch = Some ct # replicate (NTHREAD_PER_PROCESS - 1) None \<and>
      page_table ch = Some pt \<and> user_space E s' pt \<and>
      (\<forall>k<2 ^ 35. map_option snd (user_page E s' pt k) = map_option snd (user_page E s r k)) \<and>
      (\<forall>k<2 ^ 35. user_page E s' r k = user_page E s r k)) \<and>
    (\<exists>t f. f = tf_load (k_stacks s) q \<and> t = k_threads s' ! ct \<and> t_pid t = Some cp \<and> state t = Runnable \<and>
      rip (ctx t) = fork_return_addr E \<and>
      (\<forall>m. sp m = rsp (ctx t) \<and> stack m = k_stacks s' \<longrightarrow> (\<exists>u. exec_code (fork_trampoline (ctx t) (the (tf t))) m = Some u \<and>
        ip u = tf_rcx f \<and> flags u = tf_r11 f \<and> sp u = saved_user_rsp (k_cpu s) \<and> user_mode u = (user_cs E AND 3 = 3) \<and>
        map (gpr u) [RAX, RDI, RSI, RDX, RBX, RBP, R12, R13, R14, R15] =
          [0, tf_rdi f, tf_rsi f, tf_rdx f, tf_rbx f, tf_rbp f, tf_r12 f, tf_r13 f, tf_r14 f, tf_r15 f])))"
proof -
  let ?f = "tf_load (k_stacks s) q" and ?usp = "saved_user_rsp (k_cpu s)"
  note P = paging_boot [OF assms(1)]
  obtain res m where copy: "copy_uvm (crate E) allocate_frame (k_cr3 s) r (k_mem s) = (res, m)" by fastforce
  note C = paging.copy_uvm_ok [OF P assms(5,6) copy]
  have po: "phys_offset (k_mem s) \<noteq> None" using assms(5) by (simp add: space_ok_def)
  have "res \<noteq> Err e" for e
    using fork_copy_fails [OF assms(2,4) po assms(7,9,10,11,12), of e m] copy assms(14) by auto
  then obtain pt where pt: "res = Ok pt" "space_ok (crate E) avail_frames frame_alloc_ok m pt"
    and view: "\<forall>k<2 ^ 35. map_option snd (page_view (crate E) (pm m) pt k) = map_option snd (user_page E s r k)"
    using C(1) by blast
  obtain s2 where run: "fork E s = (Ok cp, s2)" and S: "k_mem s2 = m"
    "k_threads s2 = (k_threads s)[ct := fork_thread E ct cp b ?f ?usp]"
    "k_procs s2 = (k_procs s)[cp := Some ((fresh_process cp ct)\<lparr>page_table := Some pt, ppid := Some (pid pr),
       heap_size := heap_size pr\<rparr>)]"
    "k_stacks s2 = tf_store (stack_top b - TRAPFRAME_SIZE) (?f\<lparr>tf_rax := 0, tf_rsp := ?usp\<rparr>) (k_stacks s)"
    using fork_run [OF assms(2-5,7-12) assms(13) [folded stack_top_def] copy [unfolded pt(1)]] by blast
  have [simp]: "s2 = s'" "c = cp" using run assms(14) by simp_all
  note S = S [unfolded \<open>s2 = s'\<close>]
  have lens: "ct < length (k_threads s)" "cp < length (k_procs s)"
    using assms(2,9,10) by (auto simp: running_def tables_ok_def first_index_Some_iff)
  have kept: "user_page E s' r k = user_page E s r k" if "k < 2 ^ 35" for k
    unfolding S(1) using C(2) by (intro kept_pages [OF assms(5) _ that]) simp
  have tramp: "\<exists>u. exec_code (fork_trampoline (ctx t) (the (tf t))) mm = Some u \<and>
        ip u = tf_rcx ?f \<and> flags u = tf_r11 ?f \<and> sp u = ?usp \<and> user_mode u = (user_cs E AND 3 = 3) \<and>
        map (gpr u) [RAX, RDI, RSI, RDX, RBX, RBP, R12, R13, R14, R15] =
          [0, tf_rdi ?f, tf_rsi ?f, tf_rdx ?f, tf_rbx ?f, tf_rbp ?f, tf_r12 ?f, tf_r13 ?f, tf_r14 ?f, tf_r15 ?f]"
    if t: "t = fork_thread E ct cp b ?f ?usp" and m: "sp mm = rsp (ctx t)" "stack mm = k_stacks s'" for t mm
  proof -
    have "tf_load (stack mm) (stack_top b - TRAPFRAME_SIZE) = ?f\<lparr>tf_rax := 0, tf_rsp := ?usp\<rparr>"
      unfolding m S(4) by (rule tf_load_store)
    then have "stack mm (stack_top b - TRAPFRAME_SIZE) = tf_r15 ?f \<and> stack mm (stack_top b - TRAPFRAME_SIZE + 8) = tf_r14 ?f \<and>
        stack mm (stack_top b - TRAPFRAME_SIZE + 16) = tf_r13 ?f \<and> stack mm (stack_top b - TRAPFRAME_SIZE + 24) = tf_r12 ?f \<and>
        stack mm (stack_top b - TRAPFRAME_SIZE + 32) = tf_rbp ?f \<and> stack mm (stack_top b - TRAPFRAME_SIZE + 40) = tf_rbx ?f \<and>
        stack mm (stack_top b - TRAPFRAME_SIZE + 48) = tf_rdx ?f \<and> stack mm (stack_top b - TRAPFRAME_SIZE + 56) = tf_rsi ?f \<and>
        stack mm (stack_top b - TRAPFRAME_SIZE + 64) = tf_rdi ?f \<and> stack mm (stack_top b - TRAPFRAME_SIZE + 72) = 0 \<and>
        stack mm (stack_top b - TRAPFRAME_SIZE + 80) = tf_r11 ?f \<and> stack mm (stack_top b - TRAPFRAME_SIZE + 88) = tf_rcx ?f"
      by (simp only: tf_load_def trap_frame.ext_inject trap_frame.update_convs) simp
    moreover have "sp mm = stack_top b - TRAPFRAME_SIZE" "the (tf t) = stack_top b - TRAPFRAME_SIZE"
      "cs (ctx t) = user_cs E" "rsp3 (ctx t) = ?usp"
      using t m by (simp_all add: fork_thread_def fresh_thread_def)
    ultimately show ?thesis by (simp add: fork_exec)
  qed
  have "k_procs s' ! cp = Some ((fresh_process cp ct)\<lparr>page_table := Some pt, ppid := Some (pid pr), heap_size := heap_size pr\<rparr>)"
    "k_threads s' ! ct = fork_thread E ct cp b ?f ?usp"
    using lens by (simp_all add: S)
  then show ?thesis
    using pt view kept tramp by (auto simp: fresh_process_def fork_thread_def fresh_thread_def S(1))
qed

text \<open>The sample kernel has a free PID, a free thread and room for a kernel stack.\<close>

lemma one_first:
  "first_index (NPROCESS - 1) (\<lambda>i. k_procs one_process ! i = None) = Some 1"
  "first_index (NTHREAD - 1) (\<lambda>i. state (k_threads one_process ! i) = Unused) = Some 1"
  by (simp_all add: first_index_Some_iff one_process_def sample_nth NPROCESS_def NTHREAD_def)

lemma one_kalloc: "kalloc sample_env (k_heap one_process) = (0xFFFF888000080000, 0xFFFF888000088000)"
  by (simp add: one_process_def sample_env_def)

lemma one_block: "block_ok 0xFFFF888000080000"
  by (simp add: block_ok_def STACK_SIZE_def)

lemma one_frame: "tf (k_threads one_process ! 0) = Some (sample_stack 0 + STACK_SIZE - TRAPFRAME_SIZE)"
  by (simp add: one_process_def sample_nth stack_top_def)

lemma one_apart: "tf_words (sample_stack 0 + STACK_SIZE - TRAPFRAME_SIZE) \<inter> tf_words (0xFFFF888000080000 + STACK_SIZE - TRAPFRAME_SIZE) = {}"
  by (simp add: tf_words_def sample_stack_def STACK_SIZE_def TRAPFRAME_SIZE_def)

lemma one_space: "user_space sample_env one_process 0x1000" "k_cr3 one_process \<notin> avail_frames (fa (k_mem one_process))"
  "k_frames_ready one_process"
  using sample_memory_ok by (simp_all add: one_process_def sample_memory_avail sample_free_def)

lemma one_state: "state (k_threads one_process ! 0) = Running"
  by (simp add: one_process_def sample_nth)

theorem fork_child_resumes_witness:
  "\<exists>s' ch. fork sample_env one_process = (Ok 1, s') \<and> k_procs s' ! 1 = Some ch \<and> ppid ch = Some 0 \<and> p_state ch = Alive"
proof -
  obtain c m where "copy_uvm (crate sample_env) allocate_frame (k_cr3 one_process) 0x1000 (k_mem one_process) = (Ok c, m)"
    using sample_copy by (auto simp: one_process_def)
  then obtain s' where run: "fork sample_env one_process = (Ok 1, s')"
    using fork_run [OF one_running _ _ one_space(1,3) one_frame [folded stack_top_def] one_first one_kalloc one_block
          one_apart [folded stack_top_def]] one_state
    by auto
  then show ?thesis
    using fork_child_resumes [of sample_env one_process 0 0 _ _ _ 1 1 _ _ 1 s', OF _ one_running _ _ one_space one_frame
        one_first one_kalloc one_block one_apart run] one_state bits.paging_crate_axioms by auto
qed

text \<open>When the address space cannot be copied, \<open>fork\<close> returns the error but keeps the thread slot, an embryo of a process
  that does not exist, and its kernel stack; the process table is unchanged. No later \<open>next_tid\<close> returns that slot
  while it is in this state.\<close>

theorem fork_failure_leaks_thread:
  assumes "running s i p pr" and "page_table pr = Some r" and "phys_offset (k_mem s) \<noteq> None" and "k_frames_ready s"
    and "first_index (NPROCESS - 1) (\<lambda>i. k_procs s ! i = None) = Some cp"
    and "first_index (NTHREAD - 1) (\<lambda>i. state (k_threads s ! i) = Unused) = Some ct"
    and "kalloc E (k_heap s) = (b, h)" and "block_ok b"
    and "copy_uvm (crate E) allocate_frame (k_cr3 s) r (k_mem s) = (Err e, m)"
  shows "\<exists>s'. fork E s = (Err e, s') \<and> k_procs s' = k_procs s \<and> k_procs s' ! cp = None \<and> k_heap s' = h \<and>
    state (k_threads s' ! ct) = Embryo \<and> t_pid (k_threads s' ! ct) = Some cp \<and> kstack (k_threads s' ! ct) = b + STACK_SIZE \<and>
    (\<forall>t. k_threads t ! ct = k_threads s' ! ct \<longrightarrow> next_tid t \<noteq> (Ok (Some ct), t))"
proof -
  have "ct < length (k_threads s)" "k_procs s ! cp = None"
    using assms(1,5,6) by (auto simp: running_def tables_ok_def first_index_Some_iff)
  then show ?thesis
    using fork_copy_fails [OF assms]
    by (auto simp: fresh_thread_def stack_top_def next_tid_run first_index_Some_iff split: option.splits)
qed

text \<open>A kernel whose frames are used up.\<close>

theorem fork_failure_leaks_thread_witness:
  "\<exists>e s'. fork sample_env (one_process\<lparr>k_mem := sample_mem []\<rparr>) = (Err e, s') \<and> state (k_threads s' ! 1) = Embryo"
proof -
  let ?s = "one_process\<lparr>k_mem := sample_mem []\<rparr>"
  have run: "running ?s 0 0 (sample_process 0 0 0x1000)" using one_running by (simp add: running_def tables_ok_def)
  obtain m where "copy_uvm x86_bits allocate_frame 0xA000 0x1000 (sample_mem []) = (Err ''allocating frame failed'', m)"
    by (simp add: copy_uvm_def new_uvm_def setup_kvm_def take_frame_def offset_set_def sample_mem_def allocate_frame_def
        usable_frames_def bind_def ok_or_def throw_def)
  moreover have "kalloc sample_env (k_heap ?s) = (0xFFFF888000080000, 0xFFFF888000088000)" using one_kalloc by simp
  moreover have "first_index (NPROCESS - 1) (\<lambda>i. k_procs ?s ! i = None) = Some 1"
    "first_index (NTHREAD - 1) (\<lambda>i. state (k_threads ?s ! i) = Unused) = Some 1"
    using one_first by simp_all
  moreover have "phys_offset (k_mem ?s) \<noteq> None" "k_frames_ready ?s" "k_cr3 ?s = 0xA000"
    by (simp_all add: sample_mem_def one_process_def)
  ultimately show ?thesis
    using fork_failure_leaks_thread [OF run, where E = sample_env and r = "0x1000" and cp = 1 and ct = 1
        and b = "0xFFFF888000080000" and h = "0xFFFF888000088000" and e = "''allocating frame failed''" and m = m] one_block by auto
qed

section \<open>exit and wait\<close>


text \<open>Process 1 runs on thread 1 and is a child of process 0.\<close>

definition child_runs :: "bool \<Rightarrow> u64 kernel" where
  "child_runs k = sample_kernel [sample_thread 0 0 Runnable, sample_thread 1 1 Running]
     [Some (sample_process 0 0 0x1000), Some ((sample_process 1 1 0x1000)\<lparr>ppid := Some 0, killed := k\<rparr>)] (Some 1)"

lemma child_running: "running (child_runs k) 1 1 ((sample_process 1 1 0x1000)\<lparr>ppid := Some 0, killed := k\<rparr>)"
  unfolding child_runs_def by (rule sample_running) (simp_all add: NTHREAD_def NPROCESS_def)


text \<open>C27. \<open>wait\<close> reaps a zombie child: it returns the child's PID and exit status, the child's threads are unused again and
  their kernel stacks freed, every frame of its address space is back in the allocator and nothing else in memory is
  written. The slot of the process table, however, is not made available: it holds an unused process, and \<open>next_pid\<close>
  returns what it did before.\<close>

theorem wait_reaps_zombie:
  assumes "paging_crate (crate E)" and "running s i p pr" and "k_frames_ready s"
    and "first_index (NPROCESS - 1) (\<lambda>i. zombie_of (pid pr) (k_procs s ! i)) = Some z"
    and "k_procs s ! z = Some ch" and "pid ch = z" and "reapable E s ch" and "page_table ch = Some f"
  shows "\<exists>s'. wait E others (Suc n) s = Some (Ok (z, exit_status ch), s') \<and>
    (\<forall>j<NTHREAD. k_threads s' ! j = (if Some j \<in> set (threads ch) then new_thread else k_threads s ! j)) \<and>
    k_heap s' = fold (\<lambda>j. free_stack E (k_threads s ! j)) (flatten (threads ch)) (k_heap s) \<and>
    avail_frames (fa (k_mem s')) = avail_frames (fa (k_mem s)) \<union> space_frames (crate E) (pm (k_mem s)) f \<and>
    frame_alloc_ok (fa (k_mem s')) \<and>
    (\<forall>g. g \<notin> space_frames (crate E) (pm (k_mem s)) f \<longrightarrow> pm (k_mem s') g = pm (k_mem s) g) \<and>
    k_procs s' = (k_procs s)[z := Some new_process] \<and> fst (next_pid s') = fst (next_pid s)"
proof -
  have tabs: "tables_ok s" using assms(2) by (simp add: running_def)
  obtain s' where w: "wait_round E pr s = (Ok (Some (z, exit_status ch)), s')"
    and P: "k_procs s' = (k_procs s)[z := Some new_process]"
    and T: "k_threads s' = freed_threads (flatten (threads ch)) (k_threads s)"
    and M: "avail_frames (fa (k_mem s')) = avail_frames (fa (k_mem s)) \<union> space_frames (crate E) (pm (k_mem s)) f"
      "frame_alloc_ok (fa (k_mem s'))" "\<And>g. g \<notin> space_frames (crate E) (pm (k_mem s)) f \<Longrightarrow> pm (k_mem s') g = pm (k_mem s) g"
    and H: "k_heap s' = fold (\<lambda>i. free_stack E (k_threads s ! i)) (flatten (threads ch)) (k_heap s)"
    by (rule wait_round_reaps [OF assms(1) tabs assms(3-8)]) (assumption | blast)+
  have "z < length (k_procs s)"
    using assms(2,4) by (auto simp: running_def tables_ok_def first_index_Some_iff)
  then have none: "k_procs s' ! j = None \<longleftrightarrow> k_procs s ! j = None" for j
    using assms(5) by (cases "j = z") (simp_all add: P)
  have "fst (next_pid s') = fst (next_pid s)"
    by (simp add: next_pid_run none split: option.splits)
  moreover have "wait E others (Suc n) s = Some (Ok (z, exit_status ch), s')"
    using w by (simp add: wait_def running_process [OF assms(2)])
  moreover have "k_threads s' ! j = (if Some j \<in> set (threads ch) then new_thread else k_threads s ! j)" if "j < NTHREAD" for j
    using that assms(2) by (simp add: T freed_threads_nth running_def tables_ok_def flatten_def)
  ultimately show ?thesis using P M H by blast
qed

text \<open>Process 0 runs on thread 0; its child, process 1, is a zombie with exit status 42.\<close>

definition zombie_child :: process where
  "zombie_child = (sample_process 1 1 0x1000)\<lparr>ppid := Some 0, p_state := PZombie, exit_status := 42\<rparr>"

definition parent_runs :: "process \<Rightarrow> u64 kernel" where
  "parent_runs ch = sample_kernel [sample_thread 0 0 Running, sample_thread 1 1 Zombie]
     [Some (sample_process 0 0 0x1000), Some ch] (Some 0)"

lemma parent_running: "running (parent_runs ch) 0 0 (sample_process 0 0 0x1000)"
  unfolding parent_runs_def by (rule sample_running) (simp_all add: NTHREAD_def NPROCESS_def)

lemma parent_procs:
  "k_procs (parent_runs ch) ! 0 = Some (sample_process 0 0 0x1000)" "k_procs (parent_runs ch) ! Suc 0 = Some ch"
  "2 \<le> j \<Longrightarrow> j < NPROCESS \<Longrightarrow> k_procs (parent_runs ch) ! j = None"
  by (simp_all add: parent_runs_def sample_nth)

lemma zombie_child_simps:
  "pid zombie_child = 1" "page_table zombie_child = Some 0x1000" "exit_status zombie_child = 42"
  by (simp_all add: zombie_child_def)

lemma flatten_fresh: "flatten (Some a # replicate n None) = [a]"
  by (induction n) (simp_all add: flatten_def)

lemma zombie_reapable: "reapable sample_env (parent_runs zombie_child) zombie_child"
  using sample_memory_ok
  by (simp add: reapable_def parent_runs_def zombie_child_def flatten_fresh owned_def sample_nth NTHREAD_def NPROCESS_def
      stack_top_def sample_stack_def STACK_SIZE_def)

theorem wait_reaps_zombie_witness:
  "\<exists>s'. wait sample_env (\<lambda>_. id) 1 (parent_runs zombie_child) = Some (Ok (1, 42), s')"
proof -
  have "first_index (NPROCESS - 1) (\<lambda>j. zombie_of 0 (k_procs (parent_runs zombie_child) ! j)) = Some 1"
    by (simp add: first_index_Some_iff parent_procs zombie_of_def zombie_child_def sample_process_def fresh_process_def
        new_process_def NPROCESS_def)
  moreover have "k_frames_ready (parent_runs zombie_child)" by (simp add: parent_runs_def)
  ultimately show ?thesis
    using wait_reaps_zombie [OF _ parent_running _ _ _ _ zombie_reapable, where others = "\<lambda>_. id" and n = 0 and z = 1 and f = "0x1000"]
      bits.paging_crate_axioms by (auto simp: parent_procs zombie_child_simps)
qed

text \<open>C28. \<open>wait\<close> tests a copy of its process structure that it made before the loop. While the caller has a living child and
  no zombie one, the call goes on for ever, even when the caller's entry in the table is marked killed in the
  meantime.\<close>

theorem wait_ignores_later_kill:
  assumes "running s i p pr" and "\<not> killed pr" and "only_living_children (pid pr) s"
    and "\<forall>k t. tables_ok (others k t) \<and> current_tid (k_cpu (others k t)) = Some i \<and> only_living_children (pid pr) (others k t)"
  shows "\<forall>n. wait E others n s = None"
  using wait_keeps_waiting [OF assms(2,3), of i others E 0] assms(1,4) running_process [OF assms(1)]
  by (simp add: wait_def running_def)

text \<open>The parent is killed as soon as it has yielded; its child lives.\<close>

definition waiting_parent :: "bool \<Rightarrow> u64 kernel" where
  "waiting_parent k = sample_kernel [sample_thread 0 0 Running, sample_thread 1 1 Runnable]
     [Some ((sample_process 0 0 0x1000)\<lparr>killed := k\<rparr>), Some ((sample_process 1 1 0x1000)\<lparr>ppid := Some 0\<rparr>)] (Some 0)"

theorem wait_ignores_later_kill_witness:
  "wait sample_env (\<lambda>_ _. waiting_parent True) 1000 (waiting_parent False) = None"
proof -
  have R: "running (waiting_parent k) 0 0 ((sample_process 0 0 0x1000)\<lparr>killed := k\<rparr>)" for k
    unfolding waiting_parent_def by (rule sample_running) (simp_all add: NTHREAD_def NPROCESS_def)
  have p: "ppid (sample_process q i r) = None" "p_state (sample_process q i r) = Alive" for q i r
    by (simp_all add: sample_process_def fresh_process_def new_process_def)
  have z: "\<not> zombie_of 0 (k_procs (waiting_parent k) ! j)" if "j < NPROCESS" for j k
  proof -
    have "j = 0 \<or> j = 1 \<or> 2 \<le> j" by arith
    then show ?thesis
      using that by (elim disjE) (simp_all add: zombie_of_def waiting_parent_def sample_nth p)
  qed
  have c: "child_of 0 (k_procs (waiting_parent k) ! 1)" for k
    by (simp add: child_of_def waiting_parent_def sample_nth)
  have "only_living_children 0 (waiting_parent k)" for k
    unfolding only_living_children_def using z c by (auto simp: NPROCESS_def intro!: exI [of _ 1])
  then show ?thesis
    using wait_ignores_later_kill [OF R [of False], of "\<lambda>_ _. waiting_parent True" sample_env] R [of True]
    by (simp add: running_def)
qed

section \<open>kill\<close>

text \<open>\<open>kill\<close> marks the first process with the PID among the slots 0 to 14, and changes nothing else; it fails
  exactly when there is none.\<close>

theorem kill_marks_process:
  assumes "tables_ok s"
  shows "(\<exists>j pr s'. kill p s = (Ok (), s') \<and> j < NPROCESS - 1 \<and> k_procs s ! j = Some pr \<and> pid pr = p \<and>
      s' = s\<lparr>k_procs := (k_procs s)[j := Some (pr\<lparr>killed := True\<rparr>)]\<rparr>) \<or>
    (\<exists>e. kill p s = (Err e, s) \<and> (\<forall>j<NPROCESS - 1. \<forall>pr. k_procs s ! j = Some pr \<longrightarrow> pid pr \<noteq> p))"
proof (cases "first_index (NPROCESS - 1) (\<lambda>i. case k_procs s ! i of None \<Rightarrow> False | Some pr \<Rightarrow> pid pr = p)")
  case None
  moreover from this have "\<forall>j<NPROCESS - 1. \<forall>pr. k_procs s ! j = Some pr \<longrightarrow> pid pr \<noteq> p"
    by (auto simp: first_index_None_iff split: option.splits)
  ultimately show ?thesis using kill_run [OF assms, of p] by simp
next
  case (Some j)
  then obtain pr where "j < NPROCESS - 1" "k_procs s ! j = Some pr" "pid pr = p"
    by (auto simp: first_index_Some_iff split: option.splits)
  then show ?thesis using kill_run [OF assms, of p] Some by auto
qed

theorem kill_marks_process_witness:
  "\<exists>s'. kill 1 (parent_runs zombie_child) = (Ok (), s')"
proof -
  have "tables_ok (parent_runs zombie_child)" using parent_running by (simp add: running_def)
  moreover have "k_procs (parent_runs zombie_child) ! 1 = Some zombie_child" "1 < NPROCESS - 1" "pid zombie_child = 1"
    by (simp_all add: parent_procs NPROCESS_def zombie_child_simps)
  ultimately show ?thesis using kill_marks_process by blast
qed

text \<open>C29. A process that is marked killed exits with \<open>RET_ERROR\<close> as soon as it enters a system call, whatever call it
  makes; but when it is the first process, which anyone may kill, the kernel panics.\<close>

theorem killed_process_exits:
  assumes "running s i p pr" and "killed pr" and "pid pr = p" and "\<forall>j. Some j \<in> set (threads pr) \<longrightarrow> j < NTHREAD"
    and "Some i \<in> set (threads pr)"
  shows "if p = INIT_PID then \<exists>m. syscall_dispatch E others n num a1 a2 a3 q s = Some (Panic m, s)
    else \<exists>s'. syscall_dispatch E others n num a1 a2 a3 q s = Some (Ok Gone, s') \<and>
      k_procs s' ! p = Some (pr\<lparr>p_state := PZombie, exit_status := RET_ERROR\<rparr>) \<and> state (k_threads s' ! i) = Zombie"
proof (cases "p = INIT_PID")
  case True
  have "exit_process RET_ERROR s = (Err ''init exiting'', s)"
    using assms(1) by (intro exit_init) (simp add: True)
  then have "exit_if_current_process_killed s = (Panic ''why exit returns..?'', s)"
    by (simp add: exit_if_current_process_killed_def running_process [OF assms(1)] assms(2) sys_exit_def catch_def bind_def panic_def)
  then show ?thesis using True by (simp add: syscall_dispatch_def)
next
  case False
  obtain s' s1 where run: "exit_process RET_ERROR s = (Ok True, s')"
    and s1: "s1 = s\<lparr>k_procs := (k_procs s)[p := Some (zombie_process RET_ERROR pr)], k_threads := zombified p (threads pr) (k_threads s)\<rparr>"
    and S: "suspended i Zombie (saved_user_rsp (k_cpu s)) s1 s'"
    by (rule exit_run [OF assms(1) False assms(3) _ assms(5)]) (use assms(4) in blast)+
  have "exit_if_current_process_killed s = (Ok True, s')"
    by (simp add: exit_if_current_process_killed_def running_process [OF assms(1)] assms(2) sys_exit_def catch_def bind_def run)
  moreover have "k_procs s' ! p = Some (zombie_process RET_ERROR pr)" "state (k_threads s' ! i) = Zombie"
    using S assms(1) by (auto simp: suspended_def s1 running_def tables_ok_def)
  ultimately show ?thesis using False by (simp add: syscall_dispatch_def zombie_process_def)
qed

theorem killed_process_exits_witness:
  "\<exists>s'. syscall_dispatch sample_env (\<lambda>_. id) 1 SYS_GETPID 0 0 0 0 (child_runs True) = Some (Ok Gone, s')"
  using killed_process_exits [OF child_running, of True sample_env "\<lambda>_. id" 1 SYS_GETPID 0 0 0 0]
  by (auto simp: INIT_PID_def NTHREAD_def)

section \<open>sbrk\<close>


text \<open>The break of the sample process is 0; its heap can grow by two pages.\<close>

lemma sample_ceil: "page_ceil 0 = 0" "page_ceil 0x2000 = 2"
  by (simp_all add: page_ceil_def)

lemma one_sbrk:
  obtains m where "sbrk sample_env 0x2000 one_process = (Ok 0, one_process\<lparr>k_mem := m\<rparr>)"
    and "paging.filled x86_bits avail_frames frame_alloc_ok 0x1000 0 2 (k_mem one_process) m"
proof -
  note P = paging_boot [OF bits.paging_crate_axioms]
  obtain al m where g: "sbrk sample_env 0x2000 one_process = (map_res (\<lambda>_. heap_size (sample_process 0 0 0x1000)) al, one_process\<lparr>k_mem := m\<rparr>)"
    and D: "paging.alloc_done (crate sample_env) avail_frames frame_alloc_ok 0x1000 (page_ceil (heap_size (sample_process 0 0 0x1000)))
      (page_ceil (heap_size (sample_process 0 0 0x1000) + 0x2000)) (heap_size (sample_process 0 0 0x1000) + 0x2000) (k_mem one_process) al m"
    by (rule sbrk_grow [OF one_running _ one_space(1,3), of "0x2000"]) (simp_all add: bits.paging_crate_axioms)
  have "page_view x86_bits (pm (k_mem one_process)) 0x1000 k = None" for k
    by (simp add: one_process_def)
  moreover have "card (avail_frames (fa (k_mem one_process))) = 8"
    by (simp add: one_process_def sample_memory_avail sample_free_def)
  ultimately have "al = Ok 0x2000 \<and> paging.filled x86_bits avail_frames frame_alloc_ok 0x1000 0 2 (k_mem one_process) m"
    using D by (auto simp: paging.alloc_done_def [OF P] sample_ceil)
  then show ?thesis using g that by simp
qed


text \<open>A program cannot grow its heap twice: since the break is not stored, a second positive \<open>sbrk\<close> that crosses a page
  boundary, like the first one did, starts again at the old break and fails at the page that is mapped there.\<close>

theorem sbrk_twice_fails:
  assumes "paging_crate (crate E)" and "running s i p pr" and "page_table pr = Some r" and "user_space E s r"
    and "k_frames_ready s" and "0 < sint n" and "unat (heap_size pr) + unat n < 2 ^ 47"
    and "page_ceil (heap_size pr) < page_ceil (heap_size pr + n)"
    and "0 < sint m" and "unat (heap_size pr) + unat m < 2 ^ 47" and "page_ceil (heap_size pr) < page_ceil (heap_size pr + m)"
    and "sbrk E n s = (Ok a, s1)"
  shows "\<exists>e s2. sbrk E m s1 = (Err e, s2)"
  by (rule sbrk_again [OF assms(2-5,1,6-12)])

theorem sbrk_twice_fails_witness:
  "\<exists>s1 e s2. sbrk sample_env 0x2000 one_process = (Ok 0, s1) \<and> sbrk sample_env 0x1000 s1 = (Err e, s2)"
proof -
  obtain s1 where s1: "sbrk sample_env 0x2000 one_process = (Ok 0, s1)" using one_sbrk by blast
  then show ?thesis
    using sbrk_twice_fails [OF _ one_running _ one_space(1,3) _ _ _ _ _ _ s1, of "0x1000"] bits.paging_crate_axioms
    by (simp add: sample_ceil page_ceil_def)
qed

end
