(* ===== verification/SyscallProps.thy ===== *)
theory SyscallProps
  imports ProcessProps
begin

text \<open>
  The properties of the system call layer: access to user memory, arguments that the kernel does not
  survive, and the timer interrupt.
\<close>

section \<open>User memory\<close>

lemma first_index_Suc:
  assumes "\<not> P 0"
  shows "first_index (Suc n) P = map_option Suc (first_index n (\<lambda>k. P (Suc k)))"
proof -
  have "[0..<Suc n] = 0 # map Suc [0..<n]" by (simp only: upt_conv_Cons map_Suc_upt)
  moreover have "List.find P (map Suc xs) = map_option Suc (List.find (\<lambda>k. P (Suc k)) xs)" for xs
    by (induction xs) simp_all
  ultimately show ?thesis using assms by (simp add: first_index_def del: upt_Suc)
qed

text \<open>The sample process after its heap has grown to two pages.\<close>

lemma grown:
  obtains s1 f where "running s1 0 0 (sample_process 0 0 0x1000)" and "user_space sample_env s1 0x1000" and "k_frames_ready s1"
    and "user_page sample_env s1 0x1000 1 = Some (f, user_flags, \<lambda>_. 0)"
proof -
  note P = paging_boot [OF bits.paging_crate_axioms]
  obtain m where F: "paging.filled x86_bits avail_frames frame_alloc_ok 0x1000 0 2 (k_mem one_process) m"
    using one_sbrk by blast
  note F = F [unfolded paging.filled_def [OF P]]
  from F [THEN conjunct2, THEN conjunct2, rule_format, of 1] obtain f
    where "page_view x86_bits (pm m) 0x1000 1 = Some (f, user_flags, \<lambda>_. 0)" by auto
  moreover have "running (one_process\<lparr>k_mem := m\<rparr>) 0 0 (sample_process 0 0 0x1000)"
    using one_running by (simp add: running_def tables_ok_def)
  moreover have "user_space sample_env (one_process\<lparr>k_mem := m\<rparr>) 0x1000" using F by (auto simp: evolves_def)
  moreover have "k_frames_ready (one_process\<lparr>k_mem := m\<rparr>)" using one_space(3) by simp
  ultimately show ?thesis using that [of "one_process\<lparr>k_mem := m\<rparr>" f] by simp
qed

lemma grown_allows:
  assumes "user_page sample_env s 0x1000 1 = Some (f, user_flags, d)"
  shows "range_allows x86_bits (pm (k_mem s)) 0x1000 (USER_ACCESSIBLE OR WRITABLE) 0x1000 (length [a, b, c])"
proof -
  have "page_no (0x1000 + of_nat k) = 1" if "k < length [a, b, c]" for k :: nat
  proof -
    have "k \<in> {0, 1, 2}" using that by auto
    then show ?thesis by (auto simp: page_no_def)
  qed
  moreover have "contains user_flags (USER_ACCESSIBLE OR WRITABLE)"
    by (simp add: contains_def user_flags_def USER_ACCESSIBLE_def WRITABLE_def PRESENT_def)
  ultimately show ?thesis using assms by (simp add: range_allows_def)
qed



lemma range_allows_weaker:
  "range_allows X m r (a OR b) p n \<Longrightarrow> range_allows X m r a p n"
  by (auto simp: range_allows_def contains_or split: option.splits)

text \<open>C32. What the kernel writes for a process with \<open>copy_to_user\<close> it reads back with \<open>copy_bytes_from_user\<close>, and reading
  changes nothing.\<close>

theorem copy_round_trip:
  assumes "paging_crate (crate E)" and "running s i p pr" and "page_table pr = Some r" and "user_space E s r"
    and "k_frames_ready s" and "ptr \<noteq> 0" and "unat ptr + length bs \<le> 2 ^ 47" and "copy_to_user E ptr bs s = (Ok (), s')"
  shows "copy_bytes_from_user E ptr (of_nat (length bs)) s' = (Ok bs, s')"
proof -
  have W: "written E r ptr bs s s'" "range_allows (crate E) (pm (k_mem s)) r (USER_ACCESSIBLE OR WRITABLE) ptr (length bs)"
    using copy_to_user_run [OF assms(1-7)] assms(8) by (simp_all add: writes_def ends_def)
  obtain m o' where s': "s' = s\<lparr>k_mem := m, k_out := o'\<rparr>" and w: "wrote (crate E) avail_frames frame_alloc_ok r ptr bs (k_mem s) m"
    using W(1) by (auto simp: written_def)
  have run': "running s' i p pr" "k_frames_ready s'" using assms(2,5) by (simp_all add: s' running_def tables_ok_def)
  have "range_allows (crate E) (pm (k_mem s')) r (USER_ACCESSIBLE OR WRITABLE) ptr (length bs)"
    using wrote_allows [OF w assms(7)] W(2) by (simp add: s')
  then have al: "range_allows (crate E) (pm (k_mem s')) r USER_ACCESSIBLE ptr (length bs)" by (rule range_allows_weaker)
  have len: "unat (of_nat (length bs) :: u64) = length bs"
    using assms(7) by (simp add: unat_of_nat)
  have "ends (\<lambda>x t. t = s' \<and> x = range_bytes (crate E) (pm (k_mem s')) r ptr (length bs) \<and>
       range_allows (crate E) (pm (k_mem s')) r USER_ACCESSIBLE ptr (length bs))
    (\<lambda>e t. only_output s' t \<and> \<not> range_allows (crate E) (pm (k_mem s')) r USER_ACCESSIBLE ptr (length bs))
    (copy_bytes_from_user E ptr (of_nat (length bs)) s')"
    using copy_bytes_from_user_run [OF assms(1) run'(1) assms(3) written_space [OF W(1)] run'(2) assms(6), of "of_nat (length bs)"]
      assms(7) by (simp add: len)
  then show ?thesis
    using al written_read [OF W(1) assms(7)]
    by (cases "copy_bytes_from_user E ptr (of_nat (length bs)) s'") (auto simp: ends_def split: res.splits)
qed

theorem copy_round_trip_witness:
  "\<exists>s s'. copy_to_user sample_env 0x1000 [1, 2, 3] s = (Ok (), s') \<and> copy_bytes_from_user sample_env 0x1000 3 s' = (Ok [1, 2, 3], s')"
proof -
  obtain s f where g: "running s 0 0 (sample_process 0 0 0x1000)" "user_space sample_env s 0x1000" "k_frames_ready s"
    "user_page sample_env s 0x1000 1 = Some (f, user_flags, \<lambda>_. 0)" by (rule grown)
  have "writes sample_env 0x1000 (USER_ACCESSIBLE OR WRITABLE) 0x1000 [1, 2, 3] s (copy_to_user sample_env 0x1000 [1, 2, 3] s)"
    by (rule copy_to_user_run [OF _ g(1) _ g(2,3)]) (simp_all add: bits.paging_crate_axioms)
  then obtain s' where s': "copy_to_user sample_env 0x1000 [1, 2, 3] s = (Ok (), s')"
    using grown_allows [OF g(4), of 1 2 3]
    by (cases "copy_to_user sample_env 0x1000 [1, 2, 3] s") (auto simp: writes_def ends_def split: res.splits)
  then show ?thesis
    using copy_round_trip [OF _ g(1) _ g(2,3) _ _ s'] bits.paging_crate_axioms by auto
qed

text \<open>C33. \<open>copy_cstr_from_user\<close> returns the bytes before the first NUL, when that comes within \<open>max_len\<close> bytes and every byte up
  to it can be read; it fails when there is no NUL and panics when the processor cannot translate an address. It reads through
  whatever the page table in \<open>CR3\<close> maps, whether the user may read it or not.\<close>

theorem cstr_reads_until_nul:
  assumes "ptr \<noteq> 0"
  shows "\<exists>rd. (\<forall>k. rd k = map_option (\<lambda>pa. frame_byte (pm (k_mem s) (containing_frame pa)) (page_offset pa))
        (mmu E (pm (k_mem s)) (k_cr3 s) (ptr + of_nat k))) \<and>
    copy_cstr_from_user E ptr n s = (case first_index n (\<lambda>k. rd k = None \<or> rd k = Some 0) of
        None \<Rightarrow> (Err ''exec: argument is too long'', s)
      | Some k \<Rightarrow> if rd k = None then (Panic ''EXCEPTION: PAGE FAULT'', s) else (Ok (map (\<lambda>j. the (rd j)) [0..<k]), s))"
proof -
  define rd where "rd a = map_option (\<lambda>pa. frame_byte (pm (k_mem s) (containing_frame pa)) (page_offset pa))
        (mmu E (pm (k_mem s)) (k_cr3 s) a)" for a
  have ld: "load_byte E a s = (case rd a of None \<Rightarrow> (Panic ''EXCEPTION: PAGE FAULT'', s) | Some b \<Rightarrow> (Ok b, s))" for a
    by (simp add: load_byte_def rd_def split: option.splits)
  have loop: "cstr_loop E a n bytes s = (case first_index n (\<lambda>k. rd (a + of_nat k) = None \<or> rd (a + of_nat k) = Some 0) of
        None \<Rightarrow> (Err ''exec: argument is too long'', s)
      | Some k \<Rightarrow> if rd (a + of_nat k) = None then (Panic ''EXCEPTION: PAGE FAULT'', s)
          else (Ok (bytes @ map (\<lambda>j. the (rd (a + of_nat j))) [0..<k]), s))" for a bytes
  proof (induction n arbitrary: a bytes)
    case 0
    show ?case by (simp add: first_index_def throw_def)
  next
    case (Suc n)
    let ?P = "\<lambda>k. rd (a + of_nat k) = None \<or> rd (a + of_nat k) = Some 0"
    show ?case
    proof (cases "?P 0")
      case True
      then have "first_index (Suc n) ?P = Some 0" by (auto simp: first_index_Some_iff)
      then show ?thesis using True by (auto simp: ld bind_def)
    next
      case False
      then obtain b where b: "rd a = Some b" "b \<noteq> 0" by auto
      have sh: "first_index (Suc n) ?P = map_option Suc (first_index n (\<lambda>k. ?P (Suc k)))"
        using False by (rule first_index_Suc)
      have sw: "a + 1 + of_nat k = a + of_nat (Suc k)" for k by simp
      have up: "[0..<Suc k] = 0 # map Suc [0..<k]" for k
        by (simp only: upt_conv_Cons map_Suc_upt)
      show ?thesis
        unfolding sh cstr_loop.simps
        by (simp add: ld bind_def b Suc.IH sw up del: of_nat_Suc upt_Suc split: option.splits)
    qed
  qed
  have "copy_cstr_from_user E ptr n s = cstr_loop E ptr n [] s"
    using assms by (simp add: copy_cstr_from_user_def)
  then show ?thesis
    by (intro exI [of _ "\<lambda>k. rd (ptr + of_nat k)"]) (simp add: loop rd_def cong: if_cong option.case_cong)
qed

text \<open>In the sample kernel nothing is mapped, so every string pointer is fatal.\<close>

lemma first_true: "first_index 256 (\<lambda>k. True) = Some 0"
  by (simp add: first_index_Some_iff)

theorem cstr_reads_until_nul_witness:
  "copy_cstr_from_user sample_env 0x400000 256 one_process = (Panic ''EXCEPTION: PAGE FAULT'', one_process)"
proof -
  have "pte_frame x86_bits 0 = Inl FrameNotPresent"
    by (rule bits.frame_not_present) (simp add: bits.flags_unused contains_def PRESENT_def)
  moreover have "pm (k_mem one_process) f i = 0" for f i
    by (simp add: one_process_def sample_memory_def sample_mem_def)
  ultimately have "mmu sample_env (pm (k_mem one_process)) c a = None" for c a
    by (simp add: sample_env_def translate_addr_inner_def)
  then show ?thesis
    using cstr_reads_until_nul [of "0x400000" one_process sample_env 256] by (auto simp: first_true)
qed

section \<open>Arguments the kernel does not survive\<close>

lemma negative_large:
  assumes "sint (len :: 64 word) < 0"
  shows "2 ^ 63 \<le> len"
proof -
  have "bit len 63" using bit_last_iff [of len] assms by simp
  then have "bit (unat len) 63" by (simp add: bit_unsigned_iff)
  then have "odd (unat len div 2 ^ 63)" by (simp only: bit_iff_odd not_False_eq_True)
  then have "2 ^ 63 \<le> unat len" by (cases "unat len div 2 ^ 63 = 0") (auto simp: div_eq_0_iff)
  then show ?thesis by (simp add: word_le_nat_alt)
qed

text \<open>A call of a living process that is not marked killed.\<close>

lemma alive_dispatch:
  assumes "running s i p pr" and "\<not> killed pr"
  shows "syscall_dispatch E others n num a1 a2 a3 q s =
    (case dispatch_any E others n num a1 a2 (s\<lparr>k_threads := (k_threads s)[i := (k_threads s ! i)\<lparr>tf := Some q\<rparr>]\<rparr>) of
       None \<Rightarrow> None
     | Some (Ok r, v) \<Rightarrow> Some (check_again r v)
     | Some (Err e, v) \<Rightarrow> Some (Err e, v)
     | Some (Panic e, v) \<Rightarrow> Some (Panic e, v))"
proof -
  note R = assms(1) [unfolded running_def tables_ok_def]
  have chk: "exit_if_current_process_killed s = (Ok False, s)"
    by (simp add: exit_if_current_process_killed_def running_process [OF assms(1)] assms(2))
  have "set_trapframe q s = (Ok (), s\<lparr>k_threads := (k_threads s)[i := (k_threads s ! i)\<lparr>tf := Some q\<rparr>]\<rparr>)"
    using R by (simp add: set_trapframe_def update_thread_run)
  then show ?thesis by (simp add: syscall_dispatch_def chk split: unit.split)
qed

text \<open>C34. Any process can stop the kernel with a bad argument: \<open>exec\<close> of a null path unwraps the error of
  \<open>copy_cstr_from_user\<close>, and \<open>print_str\<close> tests \<open>len > 256\<close> on a signed length, so a negative one asks for a vector larger
  than the address space. Both panic.\<close>

theorem bad_arguments_panic:
  assumes "running s i p pr" and "\<not> killed pr" and "page_table pr \<noteq> None" and "k_frames_ready s"
    and "phys_offset (k_mem s) \<noteq> None" and "ptr \<noteq> 0" and "sint len < 0"
  shows "(\<exists>m s'. syscall_dispatch E others n SYS_EXEC 0 argv a3 q s = Some (Panic m, s')) \<and>
    (\<exists>m s'. syscall_dispatch E others n SYS_PRINT_STR ptr len a3 q s = Some (Panic m, s'))"
proof -
  define u where "u = s\<lparr>k_threads := (k_threads s)[i := (k_threads s ! i)\<lparr>tf := Some q\<rparr>]\<rparr>"
  note D = alive_dispatch [OF assms(1,2), folded u_def]
  have run: "running u i p pr" using assms(1) by (simp add: running_def tables_ok_def u_def)
  have "dispatch_call E SYS_EXEC 0 argv u = (Panic ''exec: failed to copy_cstr_from_user'', u)"
    by (simp add: dispatch_call_def syscall_numbers sys_exec_def copy_cstr_from_user_def expect_ok_def catch_def bind_def throw_def panic_def)
  then have 1: "\<exists>m s'. syscall_dispatch E others n SYS_EXEC 0 argv a3 q s = Some (Panic m, s')"
    by (simp add: D dispatch_any_def syscall_numbers flip: u_def)
  obtain f where f: "page_table pr = Some f" using assms(3) by blast
  obtain po where po: "phys_offset (k_mem u) = Some po" using assms(5) by (auto simp: u_def)
  have big: "2 ^ 63 \<le> len"
    by (rule negative_large [OF assms(7)])
  have pt: "current_page_table u = (Ok f, u)"
    by (simp add: current_page_table_def running_process [OF run] f)
  have "copy_bytes_from_user E ptr len u = (Panic ''capacity overflow'', u)"
    using big frame_allocator_run [of u] assms(4,6) po pt
    by (simp add: copy_bytes_from_user_def bind_def on_mem_def zoom_def offset_set_def panic_def u_def)
  then have "dispatch_call E SYS_PRINT_STR ptr len u = (Panic ''capacity overflow'', u)"
    using assms(7) by (simp add: dispatch_call_def syscall_numbers sys_print_str_def catch_def)
  then have "\<exists>m s'. syscall_dispatch E others n SYS_PRINT_STR ptr len a3 q s = Some (Panic m, s')"
    by (simp add: D dispatch_any_def syscall_numbers flip: u_def)
  then show ?thesis using 1 by blast
qed

theorem bad_arguments_panic_witness:
  "\<exists>m s'. syscall_dispatch sample_env (\<lambda>_. id) 1 SYS_PRINT_STR 0x1000 (-1) 0 0 one_process = Some (Panic m, s')"
  using bad_arguments_panic [OF one_running, of "0x1000" "-1" sample_env "\<lambda>_. id" 1 0 0 0] one_space(3)
  by (auto simp: one_process_def sample_memory_def sample_mem_def)

text \<open>A call with a number that the table does not have changes no process, thread or memory but for the caller's trap
  frame pointer and the line printed, and returns \<open>SysRet::MAX\<close>.\<close>

theorem unknown_call_returns_max:
  assumes "running s i p pr" and "\<not> killed pr" and "num \<notin> {1, 2, 3, 4, 5, 6, 7, 8, 9, 10}"
  shows "\<exists>l. syscall_dispatch E others n num a1 a2 a3 q s = Some (Ok (Ret SYSRET_MAX),
    s\<lparr>k_threads := (k_threads s)[i := (k_threads s ! i)\<lparr>tf := Some q\<rparr>], k_out := k_out s @ [l]\<rparr>)"
proof -
  let ?u = "s\<lparr>k_threads := (k_threads s)[i := (k_threads s ! i)\<lparr>tf := Some q\<rparr>]\<rparr>"
  let ?l = "LMsg ''[syscall] unknown syscall''"
  have "running (?u\<lparr>k_out := k_out s @ [?l]\<rparr>) i p pr" using assms(1) by (simp add: running_def tables_ok_def)
  from running_process [OF this] have "exit_if_current_process_killed (?u\<lparr>k_out := k_out s @ [?l]\<rparr>) = (Ok False, ?u\<lparr>k_out := k_out s @ [?l]\<rparr>)"
    by (simp add: exit_if_current_process_killed_def assms(2))
  moreover have "dispatch_any E others n num a1 a2 ?u = Some (Ok (Ret SYSRET_MAX), ?u\<lparr>k_out := k_out s @ [?l]\<rparr>)"
    using assms(3) by (simp add: dispatch_any_def dispatch_call_def syscall_numbers println_def modify_def bind_def)
  ultimately have "syscall_dispatch E others n num a1 a2 a3 q s = Some (Ok (Ret SYSRET_MAX), ?u\<lparr>k_out := k_out s @ [?l]\<rparr>)"
    by (simp add: alive_dispatch [OF assms(1,2)] check_again_def bind_def)
  then show ?thesis by blast
qed

theorem unknown_call_returns_max_witness:
  "\<exists>s'. syscall_dispatch sample_env (\<lambda>_. id) 1 11 0 0 0 0 one_process = Some (Ok (Ret 0x7FFFFFFFFFFFFFFF), s')"
  using unknown_call_returns_max [OF one_running, of 11 sample_env "\<lambda>_. id" 1 0 0 0 0] by (auto simp: SYSRET_MAX_def)

section \<open>The timer\<close>

lemma keeps_gs_round:
  assumes "scheduler_round E s = (r, s')"
  shows "k_kernel_gs s' = k_kernel_gs s"
proof -
  have "preserves (\<lambda>t. k_kernel_gs t = k_kernel_gs s) (scheduler_round E)"
    unfolding scheduler_round_def make_current_def enter_thread_def switch_to_user_page_table_def switch_to_kernel_page_table_def
      set_interrupts_def on_cpu_def update_thread_def set_thread_def set_privilege_stack_0_def virt_new_def
    by (auto intro!: keeps split: option.splits if_splits simp: switch_to_thread_def split_def)
  from preservesD [OF this _ assms] show ?thesis by simp
qed

text \<open>C36. When the timer interrupts a process that has been killed, the handler makes it exit, which goes to the scheduler by the
  path of the system calls. That path executes \<open>swapgs\<close>, but a timer interrupt, unlike a system call, has not: the scheduler
  goes on with the kernel's \<open>GS\<close> base where the user's belongs, still does when it enters the next thread, and the entry code of a
  system call made in that state cannot reach the \<open>CPU\<close> structure.\<close>

theorem timer_kill_unbalances_gs:
  assumes "running s i p pr" and "killed pr" and "p \<noteq> INIT_PID" and "pid pr = p" and "\<forall>j. Some j \<in> set (threads pr) \<longrightarrow> j < NTHREAD"
    and "Some i \<in> set (threads pr)" and "\<not> k_kernel_gs s" and "unat (k_ticks s) + 1 < 2 ^ 64" and "cs3 AND 3 = 3"
  shows "\<exists>s'. timer_interrupt_handler E cs3 s = (Ok True, s') \<and> k_kernel_gs s' \<and> state (k_threads s' ! i) = Zombie \<and>
    (\<forall>r s''. scheduler_round E s' = (r, s'') \<longrightarrow> k_kernel_gs s'') \<and>
    (\<forall>m. kernel_gs m = k_kernel_gs s' \<longrightarrow> exec_code syscall_prologue m = None)"
proof -
  let ?t = "s\<lparr>k_if := False, k_ticks := k_ticks s + 1\<rparr>"
  have run: "running ?t i p pr" using assms(1) by (simp add: running_def tables_ok_def)
  obtain s' s1 where ex: "exit_process RET_ERROR ?t = (Ok True, s')"
    and s1: "s1 = ?t\<lparr>k_procs := (k_procs ?t)[p := Some (zombie_process RET_ERROR pr)], k_threads := zombified p (threads pr) (k_threads ?t)\<rparr>"
    and S: "suspended i Zombie (saved_user_rsp (k_cpu ?t)) s1 s'"
    by (rule exit_run [OF run assms(3,4) _ assms(6)]) (use assms(5) in blast)+
  have "on_syscall_yield s1 = (Ok True, s')"
    using exit_yields [OF run assms(3,4), of RET_ERROR] assms(5) ex by (simp add: s1)
  from syscall_yield_swaps [OF this] have gs: "k_kernel_gs s' = (\<not> k_kernel_gs ?t)" by (simp add: s1)
  have k: "exit_if_current_process_killed ?t = (Ok True, s')"
    by (simp add: exit_if_current_process_killed_def running_process [OF run] assms(2) sys_exit_def catch_def bind_def ex)
  have "countup_ticks E (s\<lparr>k_if := False\<rparr>) = (Ok (), ?t)"
    using assms(8) by (simp add: countup_ticks_def bind_def arith_add_def checked_add_def modify_def gets_def)
  then have "timer_interrupt_handler E cs3 s = (Ok True, s')"
    using assms(9) k by (simp add: timer_interrupt_handler_def set_interrupts_def bind_def modify_def Let_def)
  moreover have "state (k_threads s' ! i) = Zombie" using S by (auto simp: suspended_def)
  moreover have "k_kernel_gs s''" if "scheduler_round E s' = (r, s'')" for r s''
    using keeps_gs_round [OF that] gs assms(7) by simp
  moreover have "exec_code syscall_prologue m = None" if "kernel_gs m" for m
    using that by (simp add: syscall_prologue_def)
  ultimately show ?thesis using gs assms(7) by auto
qed

theorem timer_kill_unbalances_gs_witness:
  "\<exists>s'. timer_interrupt_handler sample_env 0x23 (child_runs True) = (Ok True, s') \<and> k_kernel_gs s'"
  using timer_kill_unbalances_gs [OF child_running, of True "0x23" sample_env]
  by (auto simp: INIT_PID_def NTHREAD_def child_runs_def)

text \<open>\<open>init_pit_timer\<close> accepts exactly the frequencies from 19 Hz to 1193182 Hz, for which the divisor fits the timer's 16
  bits; the command byte is followed by the low and the high byte of the divisor. For the kernel's 100 Hz it is
  11931.\<close>

theorem pit_divisor:
  "(case init_pit_timer f of
      Ok ws \<Rightarrow> 19 \<le> f \<and> f \<le> 1193182 \<and> (\<exists>lo hi. ws = [(0x43, 0x36), (0x40, lo), (0x40, hi)] \<and>
        256 * unat hi + unat lo = 1193182 div unat f)
    | Err e \<Rightarrow> False
    | Panic e \<Rightarrow> f < 19 \<or> 1193182 < f) \<and>
   init_pit_timer TIMER_FREQUENCY_HZ = Ok [(0x43, 0x36), (0x40, 0x9B), (0x40, 0x2E)]"
proof -
  let ?d = "PIT_BASE_FREQUENCY div f"
  have d: "unat ?d = 1193182 div unat f" by (simp add: PIT_BASE_FREQUENCY_def unat_div)
  have f: "f < 19 \<longleftrightarrow> unat f < 19" "1193182 < f \<longleftrightarrow> 1193182 < unat f" "f = 0 \<longleftrightarrow> unat f = 0"
    by (simp_all add: word_less_nat_alt unat_eq_zero)
  have dd: "?d = 0 \<longleftrightarrow> unat ?d = 0" "65535 < ?d \<longleftrightarrow> 65535 < unat ?d"
    by (simp_all add: unat_eq_zero word_less_nat_alt)
  have m: "x mod 256 AND 255 = x mod 256" for x :: nat
    using take_bit_eq_mask [of 8 "x mod 256"] by (simp add: take_bit_eq_mod mask_eq_exp_minus_1)
  have lo: "unat (ucast (?d AND 0xFF) :: u8) = unat ?d mod 256"
    by (simp add: unsigned_ucast_eq unsigned_and_eq take_bit_eq_mod m)
  have hi: "unat (ucast (drop_bit 8 ?d) :: u8) = unat ?d div 256 mod 256"
    by (simp add: unsigned_ucast_eq unsigned_drop_bit_eq take_bit_eq_mod drop_bit_eq_div unat_div)
  have small: "unat ?d \<le> 65535 \<Longrightarrow> 256 * (unat ?d div 256 mod 256) + unat ?d mod 256 = unat ?d"
    by (simp add: mod_less)
  have ten: "init_pit_timer TIMER_FREQUENCY_HZ = Ok [(0x43, 0x36), (0x40, 0x9B), (0x40, 0x2E)]"
    by (simp add: init_pit_timer_def TIMER_FREQUENCY_HZ_def PIT_BASE_FREQUENCY_def Let_def)
  have lower: "1193182 div n \<le> 65535 \<longleftrightarrow> 19 \<le> n" if "0 < n" for n :: nat
  proof (cases "19 \<le> n")
    case True
    then show ?thesis using div_le_mono2 [of 19 n 1193182] by simp
  next
    case False
    then show ?thesis using div_le_mono2 [of n 18 1193182] that by simp
  qed
  show ?thesis
  proof (cases "19 \<le> unat f \<and> unat f \<le> 1193182")
    case True
    then have "unat ?d \<noteq> 0" "unat ?d \<le> 65535" using d lower [of "unat f"] by (auto simp: div_greater_zero_iff)
    then have "init_pit_timer f = Ok [(0x43, 0x36), (0x40, ucast (?d AND 0xFF)), (0x40, ucast (drop_bit 8 ?d))]"
      using True f dd by (simp add: init_pit_timer_def Let_def)
    moreover have "256 * unat (ucast (drop_bit 8 ?d) :: u8) + unat (ucast (?d AND 0xFF) :: u8) = 1193182 div unat f"
      unfolding lo hi using small [OF \<open>unat ?d \<le> 65535\<close>] d by simp
    ultimately obtain lo hi where ok: "init_pit_timer f = Ok [(0x43, 0x36), (0x40, lo), (0x40, hi)]"
      and e: "256 * unat hi + unat lo = 1193182 div unat f" by blast
    moreover have "19 \<le> f" "f \<le> 1193182" using True by (simp_all add: word_le_nat_alt)
    ultimately show ?thesis unfolding ok ten res.case using e by blast
  next
    case False
    then have "unat f = 0 \<or> unat ?d = 0 \<or> 65535 < unat ?d" using d lower [of "unat f"] by auto
    then have "\<exists>e. init_pit_timer f = Panic e"
      using f(3) dd by (auto simp: init_pit_timer_def Let_def)
    then show ?thesis using False f(1,2) ten by auto
  qed
qed

end
