(* ===== verification/ExecProps.thy ===== *)
theory ExecProps
  imports ExecRun SyscallProps
begin

text \<open>
  The properties of program loading, and of the way arguments take from the user library through \<open>exec\<close> to the
  argument iterator of the new program.
\<close>

section \<open>The state \<open>exec\<close> starts from\<close>

text \<open>A process runs, its thread has a trap frame at \<open>q\<close>, memory is initialised, the table in \<open>CR3\<close> is in use.\<close>

definition exec_ready :: "'h kernel \<Rightarrow> nat \<Rightarrow> nat \<Rightarrow> process \<Rightarrow> u64 \<Rightarrow> bool" where
  "exec_ready s i p pr q \<longleftrightarrow> running s i p pr \<and> tf (k_threads s ! i) = Some q \<and> frame_alloc_ok (fa (k_mem s)) \<and>
     phys_offset (k_mem s) \<noteq> None \<and> k_frames_ready s \<and> k_cr3 s \<notin> avail_frames (fa (k_mem s))"

text \<open>The segments lie in the user half, the arguments fit on the stack.\<close>

definition program_fits :: "u8 list \<Rightarrow> u8 list list \<Rightarrow> bool" where
  "program_fits img argv \<longleftrightarrow> length img < 2 ^ 63 \<and> (\<forall>h\<in>set (image_loads img). segment_user h) \<and> stack_need argv \<le> 32768"

lemma exec_outcome:
  assumes "mapper E" and "exec_ready s i p pr q" and "lookup_program E path = Some img" and "program_fits img argv"
  shows "ends
    (\<lambda>_ t. loadable img \<and> (\<exists>c\<in>avail_frames (fa (k_mem s)). \<exists>u. made_from E c s u \<and>
       space_image E c u = exec_image img argv \<and> t = committed (exec_result c img argv) i p pr q u))
    (\<lambda>e t. uses_free s t \<and> (loadable img \<longrightarrow> free_frames s < exec_cost img))
    (exec E path argv s)"
  by (rule mapper.exec_run [OF assms(1) _ _ _ _ _ _ assms(3)]) (use assms(2,4) in \<open>simp_all add: exec_ready_def program_fits_def\<close>)

text \<open>The pages of the stack belong to the user.\<close>

lemma exec_pages_user: "user_range (exec_pages img) (stack_hi - 32768) stack_hi"
  unfolding user_range_def
proof (intro allI impI)
  fix b assume b: "stack_hi - 32768 \<le> b \<and> b < stack_hi"
  then have "unat (of_nat b :: u64) = b" by (intro unat_small) (simp add: stack_hi_def)
  moreover have "b div 4096 \<in> {stack_page0..<stack_page0 + STACK_PAGES}"
    using b by (auto simp: stack_hi_def stack_page0_def STACK_PAGES_def)
  ultimately have "page_no (of_nat b) \<in> {stack_page0..<stack_page0 + STACK_PAGES}" by (simp add: page_no_def)
  moreover have "contains user_flags USER_ACCESSIBLE" "contains (fl OR user_flags) USER_ACCESSIBLE" for fl
    by (simp_all add: user_flags_def contains_bits bit_or_iff)
  ultimately show "\<exists>fl. fst (exec_pages img) (page_no (of_nat b)) = Some fl \<and> contains fl USER_ACCESSIBLE"
    by (auto simp: exec_pages_def add_pages_def split: option.splits)
qed

lemma exec_image_args:
  assumes need: "stack_need argv \<le> 32768" and strings: "\<forall>arg\<in>set argv. 0 \<notin> set arg \<and> utf8 arg"
  shows "args_all (exec_image img argv) (args_start (of_nat (length argv)) (of_nat (argv_addr stack_hi argv))) = Some argv"
proof -
  have hi: "stack_need argv \<le> stack_hi" "stack_hi \<le> 2 ^ 47" using need by (simp_all add: stack_hi_def)
  have user: "user_range (exec_pages img) lo stack_hi" if "stack_hi - 32768 \<le> lo" for lo
    by (rule user_range_sub [OF exec_pages_user that]) simp
  have S: "stack_shows (exec_image img argv) stack_hi argv"
    unfolding exec_image_def by (rule put_stack_shows [OF hi]) (rule user, use need in simp)
  have an: "args_need argv \<le> stack_hi" "args_need argv \<le> 32768" using hi need by (simp_all add: stack_need_def)
  have low: "0 < args_low stack_hi argv" using args_low_bounds [OF an(1)] an by (simp add: stack_hi_def)
  have above: "\<forall>i<length argv. 0 < arg_addrs stack_hi argv ! i \<and> arg_addrs stack_hi argv ! i + length (argv ! i) < 2 ^ 47"
  proof (intro allI impI)
    fix i assume i: "i < length argv"
    have "user_range (exec_pages img) (stack_hi - args_need argv) stack_hi" by (rule user) (use an in simp)
    from put_args_holds [OF i an(1) hi(2) this] show "0 < arg_addrs stack_hi argv ! i \<and> arg_addrs stack_hi argv ! i + length (argv ! i) < 2 ^ 47"
      using low hi(2) by simp
  qed
  have "length argv < 2 ^ 32" using need by (simp add: stack_need_def)
  from args_all_shows [OF S hi this strings _ above, of 0] show ?thesis by (simp add: args_start_def)
qed

lemma below_16:
  assumes "16 dvd n" and "24 \<le> n"
  shows "(n - 24) mod 16 = (8 :: nat)"
proof -
  obtain m where m: "n = 16 * m" using assms(1) by blast
  then have "n - 24 = 16 * (m - 2) + 8" using assms(2) by simp
  then show ?thesis by simp
qed

section \<open>An instance\<close>

text \<open>A file with one LOAD segment of eight bytes, four of them in the file, and a kernel with 41 free frames.\<close>

definition sample_elf :: "u8 list" where
  "sample_elf = [0x7F, 0x45, 0x4C, 0x46, 2, 1, 1, 0, 0, 0, 0, 0, 0, 0, 0, 0, 2, 0, 0x3E, 0, 1, 0, 0, 0,
     0, 0, 0, 0, 0, 0x10, 0, 0, 64, 0, 0, 0, 0, 0, 0, 0, 0, 0, 0, 0, 0, 0, 0, 0,
     0, 0, 0, 0, 64, 0, 56, 0, 1, 0, 0, 0, 0, 0, 0, 0] @
    [1, 0, 0, 0, 5, 0, 0, 0, 120, 0, 0, 0, 0, 0, 0, 0, 0, 0, 0, 0, 0, 0x10, 0, 0, 0, 0, 0, 0, 0, 0, 0, 0,
     4, 0, 0, 0, 0, 0, 0, 0, 8, 0, 0, 0, 0, 0, 0, 0, 0, 0x10, 0, 0, 0, 0, 0, 0] @ [0xB8, 1, 0, 0xC3]"

definition sample_segment :: Elf64ProgramHeader where
  "sample_segment = \<lparr>prog_type = 1, p_flags = 5, p_offset = 120, vaddr = 0x100000000000, paddr = 0, filesz = 4, memsz = 8, p_align = 0x1000\<rparr>"

definition free_40 :: "u64 list" where
  "free_40 = map (\<lambda>i. of_nat (4096 * i)) [256..<297]"

definition path_a :: "u8 list" where "path_a = [0x2F, 0x61]"

definition exec_env :: "u64 env" where
  "exec_env = sample_env\<lparr>programs := [(path_a, sample_elf)]\<rparr>"

definition exec_kernel :: "u64 kernel" where
  "exec_kernel = one_process\<lparr>k_mem := sample_mem free_40\<rparr>"

lemma exec_env_mapper: "mapper exec_env"
  by (rule sample_mapper) (simp_all add: exec_env_def bits.paging_crate_axioms, simp add: sample_env_def)

lemma sample_elf_header: "elf_accepted sample_elf" "phentsize (elf_header sample_elf) = 56"
  "phnum (elf_header sample_elf) = 1" "phoff (elf_header sample_elf) = 64" "e_entry (elf_header sample_elf) = 0x100000000000"
  by (simp_all add: elf_accepted_def elf_header_def field_def of_le_def sample_elf_def ehdr_size_def ELF_CLASS_64_def
      ELF_DATA_LE_def ELF_TYPE_EXEC_def ELF_MACHINE_X86_64_def)

lemma sample_elf_segment: "header_at sample_elf (elf_header sample_elf) 0 = sample_segment"
  by (simp add: header_at_def sample_elf_header phdr_size_def)
    (simp add: program_header_def field_def of_le_def sample_elf_def sample_segment_def)

lemma sample_elf_loads: "image_loads sample_elf = [sample_segment]"
  by (simp add: image_loads_def loads_def sample_elf_header sample_elf_segment)
    (simp add: sample_segment_def ELF_PROG_LOAD_def)

lemma sample_segment_pages: "segment_pages sample_segment = {2 ^ 32}"
  by (simp add: segment_pages_def sample_segment_def)

lemma sample_elf_loadable: "loadable sample_elf"
  by (simp add: loadable_def sample_elf_header sample_elf_loads sample_segment_pages headers_ok_def sample_elf_segment
      phdr_size_def stack_page0_def STACK_PAGES_def header_fits_def)
    (simp add: sample_segment_def segment_ok_def sample_elf_def)

lemma sample_elf_fits: "stack_need argv \<le> 32768 \<Longrightarrow> program_fits sample_elf argv"
  by (simp add: program_fits_def sample_elf_loads) (simp add: sample_segment_def segment_user_def sample_elf_def)

lemma free_40_frames: "distinct free_40" "\<forall>f\<in>set free_40. phys_frame f" "0xA000 \<notin> set free_40" "length free_40 = 41"
  by (simp_all add: free_40_def phys_frame_def page_aligned_def mask_eq_exp_minus_1)

lemma exec_kernel_avail: "avail_frames (fa (k_mem exec_kernel)) = set free_40" "card (set free_40) = 41"
  by (simp_all add: exec_kernel_def sample_alloc distinct_card free_40_frames)

definition sample_q :: u64 where "sample_q = sample_stack 0 + STACK_SIZE - TRAPFRAME_SIZE"

lemma exec_kernel_ready: "exec_ready exec_kernel 0 0 (sample_process 0 0 0x1000) sample_q"
proof -
  have "running exec_kernel 0 0 (sample_process 0 0 0x1000)"
    using one_running by (simp add: exec_kernel_def running_def tables_ok_def)
  moreover have "tf (k_threads exec_kernel ! 0) = Some sample_q" using one_frame by (simp add: exec_kernel_def sample_q_def)
  moreover have "k_frames_ready exec_kernel" using one_space(3) by (simp add: exec_kernel_def)
  moreover have "k_cr3 exec_kernel = 0xA000" by (simp add: exec_kernel_def one_process_def)
  ultimately show ?thesis
    using free_40_frames
    by (simp add: exec_ready_def exec_kernel_avail) (simp add: exec_kernel_def sample_alloc, simp add: sample_mem_def)
qed

lemma exec_env_lookup: "lookup_program exec_env path_a = Some sample_elf"
  by (simp add: lookup_program_def exec_env_def)

text \<open>One argument, \<open>"a"\<close>.\<close>

lemma sample_args: "stack_need [[0x61]] \<le> 32768"
  by (simp add: stack_need_def args_need_def)

lemma sample_elf_cost: "exec_cost sample_elf = 41"
  by (simp add: exec_cost_def load_cost_def sample_elf_loads sample_segment_pages STACK_PAGES_def)

section \<open>exec\<close>

text \<open>C1. \<open>exec\<close> of a program that can be loaded, with enough free frames, succeeds. The process then has a new
  address space made of frames that were free: the LOAD segments with their bytes from the file and zeros after them, the
  guard page, the stack with the arguments, and the kernel half of the current page table. The process gets the new
  break, the thread, its trap frame, the CPU and \<open>CR3\<close> what the program starts with.\<close>

theorem exec_installs_image:
  assumes "mapper E" and "exec_ready s i p pr q" and "lookup_program E path = Some img" and "program_fits img argv"
    and "loadable img" and "exec_cost img \<le> free_frames s"
  shows "\<exists>c\<in>avail_frames (fa (k_mem s)). \<exists>u. exec E path argv s = (Ok (), committed (exec_result c img argv) i p pr q u) \<and>
    made_from E c s u \<and> space_image E c u = exec_image img argv"
  using exec_outcome [OF assms(1-4)] assms(5,6) by (auto simp: ends_def split: prod.splits res.splits)

theorem exec_installs_image_witness:
  "\<exists>c u. exec exec_env path_a [[0x61]] exec_kernel =
     (Ok (), committed (exec_result c sample_elf [[0x61]]) 0 0 (sample_process 0 0 0x1000) sample_q u) \<and>
     space_image exec_env c u = exec_image sample_elf [[0x61]]"
  using exec_installs_image [OF exec_env_mapper exec_kernel_ready exec_env_lookup sample_elf_fits [OF sample_args] sample_elf_loadable]
  by (auto simp: sample_elf_cost exec_kernel_avail)



text \<open>C3. When \<open>exec\<close> has succeeded, the system call returns into the new program: user mode at the entry point of the file,
  the argument count in \<open>rdi\<close>, the argument vector in \<open>rsi\<close>, the stack pointer 24 bytes below it and 8 modulo 16. The argument
  iterator of the user library, reading the new address space from there, yields the arguments of \<open>exec\<close>.\<close>

theorem exec_enters_program:
  assumes "mapper E" and "exec_ready s i p pr q" and "lookup_program E path = Some img" and "program_fits img argv"
    and "exec E path argv s = (Ok (), t)" and "\<forall>arg\<in>set argv. 0 \<notin> set arg \<and> utf8 arg"
    and "kernel_gs k" and "sp k = q" and "stack k = k_stacks t" and "m_saved_user_rsp k = saved_user_rsp (k_cpu t)"
  shows "\<exists>m. exec_code syscall_epilogue k = Some m \<and> user_mode m \<and> \<not> kernel_gs m \<and> ip m = e_entry (elf_header img) \<and>
    gpr m RDI = of_nat (length argv) \<and> sp m = gpr m RSI - 24 \<and> unat (sp m) mod 16 = 8 \<and>
    args_all (space_image E (k_cr3 t) t) (args_start (gpr m RDI) (gpr m RSI)) = Some argv"
proof -
  obtain c u where I: "space_image E c u = exec_image img argv" and t: "t = committed (exec_result c img argv) i p pr q u"
    using exec_outcome [OF assms(1-4)] assms(5) by (auto simp: ends_def)
  have fit: "stack_need argv \<le> 32768" using assms(4) by (simp add: program_fits_def)
  then have need: "stack_need argv \<le> stack_hi" by (simp add: stack_hi_def)
  note P = argv_addr_bounds [OF need]
  let ?p = "argv_addr stack_hi argv"
  have p: "?p < 2 ^ 47" using P(1) args_low_bounds [of argv stack_hi] need by (simp add: stack_need_def stack_hi_def)
  have "k_mem t = k_mem u" "k_cr3 t = c" by (simp_all add: t committed_def exec_result_def)
  then have img: "space_image E (k_cr3 t) t = exec_image img argv"
    unfolding I [symmetric] space_image_def by (simp only:)
  have sub: "of_nat (?p - 24) = (of_nat ?p - 24 :: u64)" using P(4) by (simp add: of_nat_diff)
  have "unat (of_nat (?p - 24) :: u64) = ?p - 24" using p by (intro unat_small) simp
  moreover have "(?p - 24) mod 16 = 8" by (rule below_16) (rule P(3), rule P(4))
  ultimately have align: "unat (of_nat ?p - 24 :: u64) mod 16 = 8" using sub by simp
  note args = exec_image_args [OF fit assms(6), of img]
  define f where "f = start_frame (exec_result c img argv) (tf_load (k_stacks u) q)"
  have st: "stack k = tf_store q f (k_stacks u)" unfolding assms(9) by (simp add: t committed_def f_def)
  have regs: "stack k (q + 56) = of_nat ?p" "stack k (q + 64) = of_nat (length argv)" "stack k (q + 88) = e_entry (elf_header img)"
    unfolding st by (simp_all add: tf_store_def) (simp_all add: f_def start_frame_def exec_result_def)
  have top: "m_saved_user_rsp k = of_nat ?p - 24"
    unfolding assms(10) using sub by (simp add: t committed_def exec_result_def)
  show ?thesis
    unfolding epilogue_exec [OF assms(7,8)] img
    by (intro exI conjI, rule refl) (simp_all add: regs top args align)
qed

theorem exec_enters_program_witness:
  "\<exists>t m. exec exec_env path_a [[0x61]] exec_kernel = (Ok (), t) \<and> ip (m :: machine) = 0x100000000000 \<and>
     args_all (space_image exec_env (k_cr3 t) t) (args_start (gpr m RDI) (gpr m RSI)) = Some [[0x61]]"
proof -
  note fits = sample_elf_fits [OF sample_args]
  obtain t where t: "exec exec_env path_a [[0x61]] exec_kernel = (Ok (), t)"
    using exec_outcome [OF exec_env_mapper exec_kernel_ready exec_env_lookup fits] sample_elf_loadable
    by (auto simp: ends_def sample_elf_cost exec_kernel_avail split: prod.splits res.splits)
  define k where "k = \<lparr>gpr = (\<lambda>_. 0), sp = sample_q, flags = 0, ip = 0, user_mode = False, kernel_gs = True,
    stack = k_stacks t, m_saved_user_rsp = saved_user_rsp (k_cpu t), m_kernel_syscall_rsp = 0\<rparr>"
  have k: "kernel_gs k" "sp k = sample_q" "stack k = k_stacks t" "m_saved_user_rsp k = saved_user_rsp (k_cpu t)"
    by (simp_all add: k_def)
  have "\<forall>arg\<in>set [[0x61]]. 0 \<notin> set arg \<and> utf8 arg" by simp
  from exec_enters_program [OF exec_env_mapper exec_kernel_ready exec_env_lookup fits t this k] obtain m :: machine where
    "ip m = e_entry (elf_header sample_elf)"
    "args_all (space_image exec_env (k_cr3 t) t) (args_start (gpr m RDI) (gpr m RSI)) = Some [[0x61]]" by blast
  then show ?thesis using t sample_elf_header(5) by auto
qed

section \<open>The arguments of the user library\<close>

text \<open>The processor reads \<open>bs\<close> at the address \<open>a\<close>.\<close>

definition reads :: "'h env \<Rightarrow> 'h kernel \<Rightarrow> u64 \<Rightarrow> u8 list \<Rightarrow> bool" where
  "reads E s a bs \<longleftrightarrow> (\<forall>k<length bs. load_byte E (a + of_nat k) s = (Ok (bs ! k), s))"

lemma reads_append: "reads E s a (xs @ ys) \<longleftrightarrow> reads E s a xs \<and> reads E s (a + of_nat (length xs)) ys"
proof
  assume h: "reads E s a (xs @ ys)"
  have "load_byte E (a + of_nat (length xs) + of_nat k) s = (Ok (ys ! k), s)" if "k < length ys" for k
    using h [unfolded reads_def, rule_format, of "length xs + k"] that by (simp add: nth_append add.assoc)
  moreover have "load_byte E (a + of_nat k) s = (Ok (xs ! k), s)" if "k < length xs" for k
    using h [unfolded reads_def, rule_format, of k] that by (simp add: nth_append)
  ultimately show "reads E s a xs \<and> reads E s (a + of_nat (length xs)) ys" by (simp add: reads_def)
next
  assume h: "reads E s a xs \<and> reads E s (a + of_nat (length xs)) ys"
  show "reads E s a (xs @ ys)"
    unfolding reads_def
  proof (intro allI impI)
    fix k assume k: "k < length (xs @ ys)"
    show "load_byte E (a + of_nat k) s = (Ok ((xs @ ys) ! k), s)"
    proof (cases "k < length xs")
      case True
      then show ?thesis using h by (simp add: reads_def nth_append)
    next
      case False
      then have "a + of_nat (length xs) + of_nat (k - length xs) = a + of_nat k" by (simp add: of_nat_diff)
      then show ?thesis using h [THEN conjunct2, unfolded reads_def, rule_format, of "k - length xs"] False k
        by (simp add: nth_append)
    qed
  qed
qed

lemma reads_Cons: "reads E s a (b # bs) \<longleftrightarrow> load_byte E a s = (Ok b, s) \<and> reads E s (a + 1) bs"
  using reads_append [of E s a "[b]" bs] by (simp add: reads_def)

lemma cstr_loop_reads:
  "reads E s a (bs @ [0]) \<Longrightarrow> 0 \<notin> set bs \<Longrightarrow> cstr_loop E a n acc s =
    (if length bs < n then (Ok (acc @ bs), s) else (Err ''exec: argument is too long'', s))"
proof (induction bs arbitrary: a n acc)
  case Nil
  then show ?case by (cases n) (simp_all add: reads_Cons)
next
  case (Cons b bs)
  then show ?case by (cases n) (simp_all add: reads_Cons)
qed

lemma load_bytes_reads: "reads E s a bs \<Longrightarrow> load_bytes E a (length bs) s = (Ok bs, s)"
  by (induction bs arbitrary: a) (simp_all add: reads_Cons)

lemma load_u64_reads: "reads E s a (le_bytes w) \<Longrightarrow> load_u64 E a s = (Ok w, s)"
  using load_bytes_reads [of E s a "le_bytes w"] by (simp add: load_u64_def)

text \<open>The loop over the pointers.\<close>

lemma argv_loop_reads:
  assumes "length ps = length argv" and "reads E s a (concat (map le_bytes (ps @ [0])))"
    and "\<forall>i<length argv. ps ! i \<noteq> 0 \<and> 0 \<notin> set (argv ! i) \<and> reads E s (ps ! i) (argv ! i @ [0])"
  shows "\<exists>e. argv_loop E a n acc s = (if length argv < n \<and> (\<forall>arg\<in>set argv. length arg < MAX_ARG_LEN)
     then (Ok (acc @ argv), s) else (Err e, s))"
  using assms
proof (induction argv arbitrary: ps a n acc)
  case Nil
  then have "load_u64 E a s = (Ok 0, s)" by (intro load_u64_reads) simp
  then show ?case by (cases n) simp_all
next
  case (Cons arg argv)
  then obtain p ps' where ps: "ps = p # ps'" by (cases ps) auto
  show ?case
  proof (cases n)
    case (Suc k)
    have p: "p \<noteq> 0" "0 \<notin> set arg" "reads E s p (arg @ [0])" using Cons.prems(3) [rule_format, of 0] by (simp_all add: ps)
    have w: "load_u64 E a s = (Ok p, s)" "reads E s (a + 8) (concat (map le_bytes (ps' @ [0])))"
      using Cons.prems(2) load_u64_reads [of E s a p] by (simp_all add: ps reads_append)
    have "\<forall>i<length argv. ps' ! i \<noteq> 0 \<and> 0 \<notin> set (argv ! i) \<and> reads E s (ps' ! i) (argv ! i @ [0])"
      using Cons.prems(3) [rule_format, of "Suc _"] by (simp add: ps)
    from Cons.IH [OF _ w(2) this, of k "acc @ [arg]"] obtain e where
      IH: "argv_loop E (a + 8) k (acc @ [arg]) s = (if length argv < k \<and> (\<forall>arg\<in>set argv. length arg < MAX_ARG_LEN)
         then (Ok ((acc @ [arg]) @ argv), s) else (Err e, s))"
      using Cons.prems(1) ps by auto
    have c: "copy_cstr_from_user E p MAX_ARG_LEN s =
        (if length arg < MAX_ARG_LEN then (Ok arg, s) else (Err ''exec: argument is too long'', s))"
      using cstr_loop_reads [OF p(3,2)] p(1) by (simp add: copy_cstr_from_user_def)
    show ?thesis
      by (intro exI [of _ "if length arg < MAX_ARG_LEN then e else ''exec: argument is too long''"])
        (simp add: Suc w(1) p(1) c IH)
  qed simp
qed

lemma copy_c_string_buffer:
  assumes "length src \<le> EXEC_MAX_ARG_LEN"
  shows "copy_c_string src c_buffer = Some (src @ replicate (EXEC_MAX_ARG_LEN + 1 - length src) 0)"
proof -
  have "drop (length src) c_buffer = replicate (EXEC_MAX_ARG_LEN + 1 - length src) 0"
    by (simp only: c_buffer_def drop_replicate)
  also have "\<dots> = 0 # replicate (EXEC_MAX_ARG_LEN - length src) 0" using assms by (simp add: Suc_diff_le)
  finally have "drop (length src) c_buffer = 0 # replicate (EXEC_MAX_ARG_LEN - length src) 0" .
  then show ?thesis using assms by (simp add: copy_c_string_def list_update_append Suc_diff_le)
qed

lemma reads_buffer:
  assumes "copy_c_string src c_buffer = Some b" and "reads E s a b"
  shows "reads E s a (src @ [0])"
proof -
  have "length src \<le> EXEC_MAX_ARG_LEN" using assms(1) by (simp add: copy_c_string_def not_less split: if_splits)
  then have "b = (src @ [0]) @ replicate (EXEC_MAX_ARG_LEN - length src) 0"
    using assms(1) by (simp add: copy_c_string_buffer Suc_diff_le)
  then show ?thesis using assms(2) by (simp only: reads_append)
qed

text \<open>C4. The buffers that the user library's \<open>exec\<close> builds reach the kernel's \<open>exec\<close> as the path and the arguments they were
  made from, when there are at most 15 arguments and every string has at most 255 bytes. The library also accepts 16 arguments
  and strings of 256 bytes; the kernel's copies then fail, and it unwraps the error: the call stops the kernel.\<close>

theorem exec_arguments_arrive:
  assumes "exec_buffers path argv ptrs = Some (pb, bufs, words)"
    and "reads E s pbuf pb" and "reads E s av (concat (map le_bytes words))" and "pbuf \<noteq> 0" and "av \<noteq> 0"
    and "\<forall>i<length argv. ptrs i \<noteq> 0 \<and> reads E s (ptrs i) (bufs ! i)"
    and "utf8 path" and "0 \<notin> set path" and "\<forall>arg\<in>set argv. 0 \<notin> set arg"
  shows "sys_exec E pbuf av s =
    (if 256 \<le> length path then (Panic ''exec: failed to copy_cstr_from_user'', s)
     else if 16 \<le> length argv \<or> (\<exists>arg\<in>set argv. 256 \<le> length arg) then (Panic ''exec: failed to copy argv'', s)
     else catch (exec E path argv) (\<lambda>_. ret (Ret 0)) (\<lambda>e. bind (println (LMsg e)) (\<lambda>_. ret (Ret RET_ERROR))) s)"
proof -
  have B: "length argv \<le> EXEC_MAX_ARGC" "copy_c_string path c_buffer = Some pb"
    "\<forall>arg\<in>set argv. copy_c_string arg c_buffer \<noteq> None" "bufs = map (\<lambda>arg. the (copy_c_string arg c_buffer)) argv"
    "words = map ptrs [0..<length argv] @ replicate (EXEC_MAX_ARGC + 1 - length argv) 0"
    using assms(1) by (auto simp: exec_buffers_def not_less list_ex_iff split: if_splits option.splits)
  have path: "copy_cstr_from_user E pbuf MAX_ARG_LEN s =
      (if length path < MAX_ARG_LEN then (Ok path, s) else (Err ''exec: argument is too long'', s))"
    using cstr_loop_reads [OF reads_buffer [OF B(2) assms(2)] assms(8)] assms(4) by (simp add: copy_cstr_from_user_def)
  have "words = (map ptrs [0..<length argv] @ [0]) @ replicate (EXEC_MAX_ARGC - length argv) 0"
    using B(1) by (simp add: B(5) Suc_diff_le)
  then have w: "reads E s av (concat (map le_bytes (map ptrs [0..<length argv] @ [0])))"
    using assms(3) by (simp only: map_append concat_append reads_append)
  have args: "\<forall>i<length argv. map ptrs [0..<length argv] ! i \<noteq> 0 \<and> 0 \<notin> set (argv ! i) \<and>
      reads E s (map ptrs [0..<length argv] ! i) (argv ! i @ [0])"
  proof (intro allI impI)
    fix i assume i: "i < length argv"
    then have c: "copy_c_string (argv ! i) c_buffer = Some (bufs ! i)" using B(3,4) by simp
    have "reads E s (ptrs i) (argv ! i @ [0])" by (rule reads_buffer [OF c]) (use assms(6) i in simp)
    then show "map ptrs [0..<length argv] ! i \<noteq> 0 \<and> 0 \<notin> set (argv ! i) \<and> reads E s (map ptrs [0..<length argv] ! i) (argv ! i @ [0])"
      using assms(6,9) i by simp
  qed
  obtain e where loop: "copy_argv E av s = (if length argv < MAX_ARGC \<and> (\<forall>arg\<in>set argv. length arg < MAX_ARG_LEN)
      then (Ok argv, s) else (Err e, s))"
    using argv_loop_reads [OF _ w args, of MAX_ARGC "[]"] assms(5) unfolding copy_argv_def append_Nil by auto
  show ?thesis
  proof (cases "256 \<le> length path")
    case True
    then have "expect_ok m (copy_cstr_from_user E pbuf MAX_ARG_LEN) s = (Panic m, s)" for m
      using path True by (simp add: expect_ok_def catch_def MAX_ARG_LEN_def)
    then show ?thesis using True by (simp add: sys_exec_def)
  next
    case False
    then have p: "expect_ok m (copy_cstr_from_user E pbuf MAX_ARG_LEN) s = (Ok path, s)" for m
      using path False by (simp add: expect_ok_def catch_def MAX_ARG_LEN_def)
    show ?thesis
    proof (cases "16 \<le> length argv \<or> (\<exists>arg\<in>set argv. 256 \<le> length arg)")
      case True
      then have "copy_argv E av s = (Err e, s)" by (auto simp: loop MAX_ARGC_def MAX_ARG_LEN_def not_less)
      then have "expect_ok m (copy_argv E av) s = (Panic m, s)" for m by (simp add: expect_ok_def catch_def)
      then show ?thesis using False True p assms(7) by (simp add: sys_exec_def)
    next
      case ok: False
      then have "copy_argv E av s = (Ok argv, s)" by (auto simp: loop MAX_ARGC_def MAX_ARG_LEN_def)
      then have "expect_ok m (copy_argv E av) s = (Ok argv, s)" for m by (simp add: expect_ok_def catch_def)
      then show ?thesis using False ok p assms(7) by (simp add: sys_exec_def)
    qed
  qed
qed

text \<open>A path of 256 letters, in a kernel whose memory holds them at \<open>0x5000\<close> and zeros elsewhere.\<close>

definition long_path :: "u8 list" where "long_path = replicate 256 0x61"

definition path_kernel :: "u64 kernel" where
  "path_kernel = one_process\<lparr>k_mem := sample_memory\<lparr>pm := (\<lambda>f i. if f = 0x5000 \<and> i < 32 then 0x6161616161616161 else 0)\<rparr>\<rparr>"

definition flat_env :: "u64 env" where
  "flat_env = sample_env\<lparr>mmu := (\<lambda>m cr3 va. Some va)\<rparr>"

lemma byte_61: "r < 8 \<Longrightarrow> get_byte 0x6161616161616161 r = 0x61"
proof -
  assume "r < 8"
  then consider "r = 0" | "r = 1" | "r = 2" | "r = 3" | "r = 4" | "r = 5" | "r = 6" | "r = 7" by linarith
  then show ?thesis by cases (simp_all add: get_byte_def drop_bit_eq_div)
qed

lemma path_kernel_load:
  assumes "k < 4096"
  shows "load_byte flat_env (0x5000 + of_nat k) path_kernel = (Ok (if k < 256 then 0x61 else 0), path_kernel)"
    and "load_byte flat_env (0x6000 + of_nat k) path_kernel = (Ok 0, path_kernel)"
proof -
  have u: "unat (0x5000 + of_nat k :: u64) = 0x5000 + k" "unat (0x6000 + of_nat k :: u64) = 0x6000 + k"
    using assms by (subst unat_add_of_nat; simp)+
  have d: "(0x5000 + k) div 4096 = 5" "(0x6000 + k) div 4096 = 6" by (rule div_nat_eqI; use assms in simp)+
  have r: "(0x5000 + k) mod 4096 = k" "(0x6000 + k) mod 4096 = k" by (rule mod_nat_eqI; use assms in simp)+
  have f: "containing_frame (0x5000 + of_nat k) = 0x5000" "containing_frame (0x6000 + of_nat k) = 0x6000"
    by (simp_all add: page_containing page_no_def u page_addr_def d)
  have o': "page_offset (0x5000 + of_nat k) = k" "page_offset (0x6000 + of_nat k) = k"
    by (simp_all add: page_offset_nat u r)
  have "k div 8 < 32 \<longleftrightarrow> k < 256" by (simp add: div_less_iff_less_mult)
  then show "load_byte flat_env (0x5000 + of_nat k) path_kernel = (Ok (if k < 256 then 0x61 else 0), path_kernel)"
    by (simp add: load_byte_def flat_env_def path_kernel_def f o' frame_byte_def byte_61)
  show "load_byte flat_env (0x6000 + of_nat k) path_kernel = (Ok 0, path_kernel)"
    by (simp add: load_byte_def flat_env_def path_kernel_def f o' frame_byte_def get_byte_def)
qed

theorem exec_arguments_arrive_witness:
  "user_exec long_path [] (\<lambda>_. 0) 0x5000 0x6000 = Call SYS_EXEC 0x5000 0x6000 0 \<and>
   sys_exec flat_env 0x5000 0x6000 path_kernel = (Panic ''exec: failed to copy_cstr_from_user'', path_kernel)"
proof -
  have c: "copy_c_string long_path c_buffer = Some (long_path @ [0])"
    by (subst copy_c_string_buffer) (simp_all add: long_path_def EXEC_MAX_ARG_LEN_def)
  then have b: "exec_buffers long_path [] (\<lambda>_. 0) = Some (long_path @ [0], [], replicate 17 0)"
    by (simp add: exec_buffers_def EXEC_MAX_ARGC_def)
  have l: "length long_path = 256" by (simp add: long_path_def)
  have p: "reads flat_env path_kernel 0x5000 (long_path @ [0])"
    unfolding reads_def using path_kernel_load(1) l by (auto simp: nth_append less_Suc_eq long_path_def)
  have "le_bytes 0 = replicate 8 0" by (rule nth_equalityI) (simp_all add: le_bytes_def get_byte_def)
  then have z: "concat (map le_bytes (replicate n 0)) = replicate (8 * n) 0" for n
    by (induction n) (simp_all flip: replicate_add)
  have w: "reads flat_env path_kernel 0x6000 (concat (map le_bytes (replicate 17 0)))"
    unfolding z reads_def using path_kernel_load(2) by simp
  have "utf8 (replicate n 0x61)" for n by (induction n) simp_all
  then have u: "utf8 long_path" by (simp only: long_path_def)
  have "0 \<notin> set long_path" by (simp add: long_path_def)
  from exec_arguments_arrive [OF b p w _ _ _ u this]
  have "sys_exec flat_env 0x5000 0x6000 path_kernel = (Panic ''exec: failed to copy_cstr_from_user'', path_kernel)" by (simp add: l)
  then show ?thesis by (simp add: user_exec_def b)
qed

end
