(* ===== verification/Boot.thy ===== *)
theory Boot
  imports MemoryProps HeapProps ExecProps
begin

text \<open>
  The start of the kernel: \<open>kernel_main\<close> of kernel/src/main.rs with \<open>memory::init\<close>. It puts together the frame
  allocator, the heap, the thread and process tables, the loader and the scheduler. The state is the
  record \<open>kernel\<close> whose heap is the global allocator \<open>fsb\<close>, over the fallback \<open>ff\<close>, \<open>fr\<close> and \<open>ini\<close> of
  the crate linked_list_allocator. The output, the consoles and the devices that \<open>ferrios::init\<close> sets up are not part
  of this state; a timer interrupt before the scheduler runs only counts.
\<close>

section \<open>memory::init\<close>

text \<open>The \<open>OffsetPageTable\<close> that it returns is the field \<open>map_to\<close> of the environment at the PML4 of \<open>CR3\<close>; the
  sum of \<open>active_level_4_table\<close> is checked as \<open>VirtAddr\<close> does.\<close>

definition active_level_4_table :: "'h env \<Rightarrow> u64 \<Rightarrow> ('h, u64) kprog" where
  "active_level_4_table E off = bind (gets k_cr3) (\<lambda>phys. virt_new (crate E) (off + phys))"

definition memory_init :: "'h env \<Rightarrow> u64 \<Rightarrow> region list \<Rightarrow> ('h, u64) kprog" where
  "memory_init E off regions =
     bind (modify (\<lambda>s. s\<lparr>k_kernel_pt := Some (k_cr3 s)\<rparr>)) (\<lambda>_.
     bind (modify (\<lambda>s. s\<lparr>k_mem := (k_mem s)\<lparr>phys_offset := Some off\<rparr>\<rparr>)) (\<lambda>_.
     bind (modify (\<lambda>s. s\<lparr>k_mem := (k_mem s)\<lparr>fa := frame_alloc_init regions\<rparr>, k_frames_ready := True\<rparr>)) (\<lambda>_.
     active_level_4_table E off)))"

section \<open>The allocations of the start\<close>

text \<open>\<open>alloc\<close> of the global allocator as \<open>Box\<close>, \<open>Vec\<close> and \<open>Rc\<close> call it: the null pointer goes to the handler of
  allocation errors, which panics. Only the blocks matter, not the values stored in them.\<close>

definition global_alloc :: "(layout \<Rightarrow> 'f \<Rightarrow> u64 option \<times> 'f) \<Rightarrow> layout \<Rightarrow> ('f fsb, u64) program" where
  "global_alloc ff l = (\<lambda>s. case fsb_alloc ff l s of
     (p, t) \<Rightarrow> if p = 0 then (Panic ''allocation error'', t) else (Ok p, t))"

definition i32_array :: "nat \<Rightarrow> layout" where
  "i32_array n = \<lparr>lsize = 4 * n, lalign = 4\<rparr>"

text \<open>A vector grows by moving into a larger block, \<open>GlobalAlloc::realloc\<close>.\<close>

primrec vec_grow :: "(layout \<Rightarrow> 'f \<Rightarrow> u64 option \<times> 'f) \<Rightarrow> (u64 \<Rightarrow> layout \<Rightarrow> ('f, unit) program)
    \<Rightarrow> nat list \<Rightarrow> nat \<Rightarrow> u64 \<Rightarrow> ('f fsb, unit) program" where
  "vec_grow ff fr [] n p = ret ()"
| "vec_grow ff fr (k # ks) n p =
     bind (global_alloc ff (i32_array k)) (\<lambda>q.
     bind (fsb_dealloc fr p (i32_array n)) (\<lambda>_.
     vec_grow ff fr ks k q))"

text \<open>\<open>Box::new(41)\<close>, five hundred pushes into a vector that starts with room for four and doubles, a vector of three
  in an \<open>Rc\<close>: two counts and the three words of the vector. All of them stay in use.\<close>

definition heap_check :: "(layout \<Rightarrow> 'f \<Rightarrow> u64 option \<times> 'f) \<Rightarrow> (u64 \<Rightarrow> layout \<Rightarrow> ('f, unit) program) \<Rightarrow> ('f fsb, unit) program" where
  "heap_check ff fr =
     bind (global_alloc ff \<lparr>lsize = 4, lalign = 4\<rparr>) (\<lambda>_.
     bind (global_alloc ff (i32_array 4)) (\<lambda>v.
     bind (vec_grow ff fr [8, 16, 32, 64, 128, 256, 512] 4 v) (\<lambda>_.
     bind (global_alloc ff (i32_array 3)) (\<lambda>_.
     bind (global_alloc ff \<lparr>lsize = 40, lalign = 8\<rparr>) (\<lambda>_. ret ())))))"

section \<open>kernel_main\<close>

definition init_path :: "u8 list" where "init_path = [0x2F, 0x69, 0x6E, 0x69, 0x74]"

definition on_heap :: "('h, 'b) program \<Rightarrow> ('h, 'b) kprog" where
  "on_heap = zoom k_heap (\<lambda>h s. s\<lparr>k_heap := h\<rparr>)"

definition on_mem_heap :: "(frame_alloc mem \<times> 'h, 'b) program \<Rightarrow> ('h, 'b) kprog" where
  "on_mem_heap = zoom (\<lambda>s. (k_mem s, k_heap s)) (\<lambda>(m, h) s. s\<lparr>k_mem := m, k_heap := h\<rparr>)"

text \<open>\<open>input\<close> is the address of \<open>keyboard_and_serial_input_thread\<close>; \<open>ferrios::init\<close> ends by enabling interrupts.\<close>

definition kernel_main :: "'f fsb env \<Rightarrow> (layout \<Rightarrow> 'f \<Rightarrow> u64 option \<times> 'f) \<Rightarrow> (u64 \<Rightarrow> layout \<Rightarrow> ('f, unit) program)
    \<Rightarrow> (u64 \<Rightarrow> u64 \<Rightarrow> 'f \<Rightarrow> 'f) \<Rightarrow> region list \<Rightarrow> u64 option \<Rightarrow> u64 \<Rightarrow> ('f fsb, unit) kprog" where
  "kernel_main E ff fr ini regions offset input =
     bind (set_interrupts True) (\<lambda>_.
     bind (expect ''called Option::unwrap() on a None value'' offset) (\<lambda>off.
     bind (virt_new (crate E) off) (\<lambda>off.
     bind (memory_init E off regions) (\<lambda>_.
     bind frame_allocator_expect (\<lambda>_.
     bind (gets k_cr3) (\<lambda>pml4.
     bind (expect_ok ''heap initialization failed'' (on_mem_heap (init_heap (crate E) (map_to E pml4) ini))) (\<lambda>_.
     bind (on_heap (heap_check ff fr)) (\<lambda>_.
     bind (create_kernel_thread E input) (\<lambda>_.
     bind (expect_ok ''failed to create user process'' (create_user_process_from_path E init_path)) (\<lambda>_.
     scheduler_start))))))))))"

section \<open>The mapper on the kernel half\<close>

lemma heap_page_high:
  assumes p: "p \<in> set (pages_between (containing_frame HEAP_START) (containing_frame (HEAP_START + HEAP_SIZE - 1)))"
  shows "2 ^ 47 \<le> unat p"
proof -
  obtain x where x: "x < 256" "p = HEAP_START + of_nat (4096 * x)"
    using p by (auto simp: heap_addresses(4,5)) (auto simp: pages_between_def HEAP_START_def)
  have "unat p = unat HEAP_START + 4096 * x"
    unfolding x(2) by (rule unat_add_of_nat) (use x(1) in \<open>simp add: HEAP_START_def\<close>)
  then show ?thesis by (simp add: HEAP_START_def)
qed

text \<open>What a program on the memory keeps that takes only frames of \<open>A\<close>.\<close>

definition mem_kept :: "u64 set \<Rightarrow> u64 \<Rightarrow> frame_alloc mem \<Rightarrow> bool" where
  "mem_kept A po m \<longleftrightarrow> frame_alloc_ok (fa m) \<and> avail_frames (fa m) \<subseteq> A \<and> phys_offset m = Some po"

text \<open>Whatever comes of it, \<open>map_to\<close> of a page in the kernel half takes its tables from the frame allocator and
  touches nothing else of it.\<close>

locale boot_mapper = mapper E for E :: "'h env" +
  assumes map_kernel: "2 ^ 47 \<le> unat page \<Longrightarrow> preserves (mem_kept A po) (map_to E r page f (PRESENT OR WRITABLE))"
begin

lemma heap_page_kept:
  assumes "2 ^ 47 \<le> unat page"
  shows "preserves (mem_kept A po) (bind (take_frame allocate_frame msg) (\<lambda>f. map_to E r page f (PRESENT OR WRITABLE)))"
proof (rule preserves_bind)
  show "preserves (mem_kept A po) (take_frame allocate_frame msg)"
  proof (rule preservesI)
    fix s x t
    assume k: "mem_kept A po s" and run: "take_frame allocate_frame msg s = (x, t)"
    obtain f a where al: "allocate_frame (fa s) = (f, a)" by fastforce
    have "t = s\<lparr>fa := a\<rparr>" using run al by (cases f) (auto simp: take_frame_def)
    then show "mem_kept A po t"
      using k al boot.alloc_Some [of "fa s" _ a] boot.alloc_None [of "fa s" a] by (cases f) (auto simp: mem_kept_def)
  qed
qed (rule map_kernel [OF assms])

lemma init_heap_kept:
  assumes run: "init_heap (crate E) (map_to E r) ini (m, h) = (res, m', h')" and kept: "mem_kept A po m"
  shows "mem_kept A po m'"
proof -
  let ?pages = "pages_between (containing_frame HEAP_START) (containing_frame (HEAP_START + HEAP_SIZE - 1))"
  let ?loop = "foreach ?pages (\<lambda>page. bind (take_frame allocate_frame ''FrameAllocationFailed'')
      (\<lambda>f. map_to E r page f (PRESENT OR WRITABLE)))"
  have loop: "preserves (mem_kept A po) ?loop"
    by (rule preserves_foreach) (rule heap_page_kept [OF heap_page_high])
  show ?thesis
  proof (cases "virt_ok (crate E) HEAP_START \<and> virt_ok (crate E) (HEAP_START + HEAP_SIZE) \<and>
      virt_ok (crate E) (HEAP_START + HEAP_SIZE - 1)")
    case True
    then have "init_heap (crate E) (map_to E r) ini = bind (zoom fst (\<lambda>m s. (m, snd s)) ?loop)
        (\<lambda>_. modify (\<lambda>s. (fst s, fsb_init ini HEAP_START HEAP_SIZE (snd s))))"
      by (simp add: init_heap_def virt_new_def)
    moreover have "preserves (\<lambda>s. mem_kept A po (fst s)) (zoom fst (\<lambda>m s. (m, snd s)) ?loop)"
      by (rule preserves_zoom [OF _ loop]) simp_all
    ultimately have "preserves (\<lambda>s. mem_kept A po (fst s)) (init_heap (crate E) (map_to E r) ini)"
      by (auto intro!: preserves_bind preserves_modify)
    from preservesD [OF this _ run] kept show ?thesis by simp
  next
    case False
    then have "m' = m" using run by (auto simp: init_heap_def virt_new_def split: if_splits)
    then show ?thesis using kept by simp
  qed
qed

end

section \<open>What the start leaves\<close>

text \<open>The tables are empty and the scheduler has not run.\<close>

definition powered_on :: "'h kernel \<Rightarrow> bool" where
  "powered_on s \<longleftrightarrow> k_threads s = replicate NTHREAD new_thread \<and> k_procs s = replicate NPROCESS None \<and>
     current_tid (k_cpu s) = None \<and> \<not> k_started s"

definition input_thread :: "'h env \<Rightarrow> u64 \<Rightarrow> u64 \<Rightarrow> thread" where
  "input_thread E f b = new_thread\<lparr>tid := 0, state := Runnable, kstack := stack_top b,
     tf := Some (stack_top b - TRAPFRAME_SIZE), entry := Some f,
     ctx := new_context\<lparr>rsp := stack_top b, rip := kthread_entry_addr E, rflags := 0x200\<rparr>\<rparr>"

definition init_thread :: "'h env \<Rightarrow> exec_img \<Rightarrow> u64 \<Rightarrow> thread" where
  "init_thread E x b = (fresh_thread E 1 0 b)\<lparr>ctx := start_context x (ctx (fresh_thread E 1 0 b)), state := Runnable\<rparr>"

definition init_process :: "exec_img \<Rightarrow> process" where
  "init_process x = (fresh_process 0 1)\<lparr>page_table := Some (x_page_table x), heap_size := x_heap_size x\<rparr>"

definition boot_threads :: "'h env \<Rightarrow> u64 \<Rightarrow> exec_img \<Rightarrow> u64 \<Rightarrow> u64 \<Rightarrow> thread list" where
  "boot_threads E f x b0 b1 = (replicate NTHREAD new_thread)[0 := input_thread E f b0, 1 := init_thread E x b1]"

lemma boot_threads_nth:
  "boot_threads E f x b0 b1 ! 0 = input_thread E f b0" "boot_threads E f x b0 b1 ! 1 = init_thread E x b1"
  "2 \<le> i \<Longrightarrow> i < NTHREAD \<Longrightarrow> boot_threads E f x b0 b1 ! i = new_thread" "length (boot_threads E f x b0 b1) = NTHREAD"
  by (simp_all add: boot_threads_def NTHREAD_def)

lemma create_first_thread:
  assumes "powered_on s" and b: "kalloc E (k_heap s) = (b, h)" "block_ok b"
  shows "create_kernel_thread E f s = (Ok (), s\<lparr>k_heap := h,
     k_stacks := tf_store (stack_top b - TRAPFRAME_SIZE) new_trap_frame (k_stacks s),
     k_threads := (k_threads s)[0 := input_thread E f b]\<rparr>)"
proof -
  have n: "0 < length (k_threads s)" "k_threads s ! 0 = new_thread" and i: "first_index (NTHREAD - 1) (\<lambda>i. state (k_threads s ! i) = Unused) = Some 0"
    using assms(1) by (simp_all add: powered_on_def NTHREAD_def first_index_Some_iff)
  let ?s1 = "s\<lparr>k_threads := (k_threads s)[0 := new_thread\<lparr>tid := 0, state := Runnable\<rparr>]\<rparr>"
  have "kalloc E (k_heap ?s1) = (b, h)" using b(1) by simp
  note k = setup_kstack_run [OF this b(2)]
  show ?thesis
    using i n by (simp add: create_kernel_thread_def next_tid_run bind_def update_thread_run get_thread_run set_thread_run k)
      (simp add: input_thread_def new_thread_def)
qed

definition init_frame :: "exec_img \<Rightarrow> trap_frame" where
  "init_frame x = new_trap_frame\<lparr>tf_rdi := of_nat (x_argc x), tf_rsi := x_argv_ptr x, tf_rcx := x_entry x\<rparr>"

lemma create_init:
  assumes ts: "k_threads s = (replicate NTHREAD new_thread)[0 := input_thread E f b0]" and ps: "k_procs s = replicate NPROCESS None"
    and look: "lookup_program E path = Some img" and img: "prepare_exec_img E img [] s = (Ok x, u)" and U: "uses_free s u"
    and b: "kalloc E (k_heap s) = (b, h)" "block_ok b"
  shows "create_user_process_from_path E path s = (Ok (), u\<lparr>k_heap := h,
     k_stacks := tf_store (stack_top b - TRAPFRAME_SIZE) (init_frame x) (tf_store (stack_top b - TRAPFRAME_SIZE) new_trap_frame (k_stacks u)),
     k_threads := boot_threads E f x b0 b, k_procs := (replicate NPROCESS None)[0 := Some (init_process x)]\<rparr>)"
proof -
  have u: "k_threads u = k_threads s" "k_procs u = k_procs s" "k_heap u = k_heap s"
    using U uses_free_running [OF U] by (auto simp: uses_free_def)
  have tab: "tables_ok u" using u ts ps by (simp add: tables_ok_def)
  have p: "first_index (NPROCESS - 1) (\<lambda>i. k_procs u ! i = None) = Some 0"
    by (simp add: first_index_Some_iff u ps NPROCESS_def)
  have i: "first_index (NTHREAD - 1) (\<lambda>i. state (k_threads u ! i) = Unused) = Some 1"
    by (simp add: first_index_Some_iff u ts NTHREAD_def input_thread_def)
  have "kalloc E (k_heap u) = (b, h)" using b u by simp
  note A = alloc_proc_run [OF tab p i this b(2)]
  let ?q = "stack_top b - TRAPFRAME_SIZE"
  let ?t1 = "(k_threads s)[1 := fresh_thread E 1 0 b]"
  have len: "1 < length (k_threads s)" "NTHREAD > 1" "0 < NPROCESS" by (simp_all add: ts NTHREAD_def NPROCESS_def)
  have th: "threads (fresh_process 0 1) = Some 1 # replicate (NTHREAD_PER_PROCESS - 1) None" "pid (fresh_process 0 1) = 0"
    by (simp_all add: fresh_process_def)
  have q: "tf (fresh_thread E 1 0 b) = Some ?q" by (simp add: fresh_thread_def)
  let ?c = "start_context x (ctx (fresh_thread E 1 0 b))"
  let ?v = "u\<lparr>k_heap := h, k_threads := (k_threads s)[1 := (fresh_thread E 1 0 b)\<lparr>ctx := ?c\<rparr>],
     k_stacks := tf_store ?q (init_frame x) (tf_store ?q new_trap_frame (k_stacks u))\<rparr>"
  have run: "create_user_process_from_path E path s =
      bind (set_proc 0 (Some (init_process x))) (\<lambda>_. mark_threads_as_runnable (init_process x)) ?v"
    using look img A len th q
    by (simp add: create_user_process_from_path_def Let_def index_def update_thread_run get_thread_run u tf_load_store load_tf_def store_tf_def
       add_to_process_table_def) (simp add: init_process_def init_frame_def start_context_def)
  have sp: "set_proc 0 (Some (init_process x)) ?v = (Ok (), ?v\<lparr>k_procs := (k_procs ?v)[0 := Some (init_process x)]\<rparr>)"
    by (rule set_proc_run) (simp add: u ps len)
  have mk: "mark_threads_as_runnable (init_process x) w =
      (Ok (), w\<lparr>k_threads := (k_threads w)[1 := (k_threads w ! 1)\<lparr>state := Runnable\<rparr>]\<rparr>)"
    if "k_threads w = k_threads ?v" for w :: "'h kernel"
    by (rule mark_fresh_run [where n = "NTHREAD_PER_PROCESS - 1"])
      (use that len in \<open>simp_all add: init_process_def fresh_process_def\<close>)
  have ts': "(k_threads s)[1 := (fresh_thread E 1 0 b)\<lparr>ctx := ?c, state := Runnable\<rparr>] = boot_threads E f x b0 b"
    by (simp add: boot_threads_def ts init_thread_def)
  have pr: "k_procs ?v = replicate NPROCESS None" by (simp add: u ps)
  show ?thesis
    unfolding run bind_simps(1) [where f = "set_proc 0 (Some (init_process x))", OF sp] by (subst mk) (use len ts' pr in simp_all)
qed

section \<open>The run\<close>

definition kstack_layout :: layout where
  "kstack_layout = \<lparr>lsize = unat STACK_SIZE, lalign = 16\<rparr>"

text \<open>The blocks of the two kernel stacks, when every allocation before them succeeds.\<close>

definition boot_blocks :: "(layout \<Rightarrow> 'f \<Rightarrow> u64 option \<times> 'f) \<Rightarrow> (u64 \<Rightarrow> layout \<Rightarrow> ('f, unit) program) \<Rightarrow> 'f fsb \<Rightarrow> (u64 \<times> u64) option" where
  "boot_blocks ff fr h = (case heap_check ff fr h of
       (Ok _, h1) \<Rightarrow> (case fsb_alloc ff kstack_layout h1 of (b0, h2) \<Rightarrow> Some (b0, fst (fsb_alloc ff kstack_layout h2)))
     | _ \<Rightarrow> None)"

definition stack_block :: "'h env \<Rightarrow> u64 \<Rightarrow> bool" where
  "stack_block E b \<longleftrightarrow> block_ok b \<and> virt_ok (crate E) (stack_top b - TRAPFRAME_SIZE)"

definition boot_mem :: "region list \<Rightarrow> u64 \<Rightarrow> frame_alloc mem \<Rightarrow> frame_alloc mem" where
  "boot_mem mm off m = m\<lparr>phys_offset := Some off, fa := frame_alloc_init mm\<rparr>"

lemma memory_init_run:
  "virt_ok (crate E) (off + k_cr3 s) \<Longrightarrow> memory_init E off mm s = (Ok (off + k_cr3 s), s\<lparr>k_kernel_pt := Some (k_cr3 s),
     k_mem := boot_mem mm off (k_mem s), k_frames_ready := True\<rparr>)"
  by (simp add: memory_init_def active_level_4_table_def virt_new_def boot_mem_def)

lemma kernel_main_steps:
  assumes off: "virt_ok (crate E) off" "virt_ok (crate E) (off + k_cr3 s)"
    and heap: "init_heap (crate E) (map_to E (k_cr3 s)) ini (boot_mem mm off (k_mem s), k_heap s) = (Ok (), m, h)"
    and check: "heap_check ff fr h = (Ok (), h1)"
  shows "kernel_main E ff fr ini mm (Some off) f s =
    bind (create_kernel_thread E f) (\<lambda>_.
    bind (expect_ok ''failed to create user process'' (create_user_process_from_path E init_path)) (\<lambda>_.
    scheduler_start)) (s\<lparr>k_if := True, k_kernel_pt := Some (k_cr3 s), k_frames_ready := True, k_mem := m, k_heap := h1\<rparr>)"
  using assms by (simp add: kernel_main_def set_interrupts_def virt_new_def memory_init_run frame_allocator_expect_def
      expect_ok_def catch_def on_mem_heap_def on_heap_def zoom_def)

lemma boot_picks:
  "find_next_runnable_thread (boot_threads E f x b0 b1) None = Some 0"
  "find_next_runnable_thread (boot_threads E f x b0 b1) (Some 0) = Some 1"
proof -
  have run: "state (boot_threads E f x b0 b1 ! 0) = Runnable" "state (boot_threads E f x b0 b1 ! 1) = Runnable"
    unfolding boot_threads_nth by (simp_all add: input_thread_def init_thread_def)
  have a: "ahead (scan_start None) 0 = 1" "ahead (scan_start (Some 0)) 1 = 1" "scan_start None < NTHREAD" "scan_start (Some 0) < NTHREAD"
    by (simp_all add: ahead_def scan_start_def NTHREAD_def)
  show "find_next_runnable_thread (boot_threads E f x b0 b1) None = Some 0"
    unfolding find_next_Some_iff [OF a(3)] a(1) using run ahead_bounds [OF a(3)] by (simp add: NTHREAD_def)
  show "find_next_runnable_thread (boot_threads E f x b0 b1) (Some 0) = Some 1"
    unfolding find_next_Some_iff [OF a(4)] a(2) using run ahead_bounds [OF a(4)] by (simp add: NTHREAD_def)
qed

lemma booted_sched_ok:
  assumes "k_threads t = boot_threads E f x b0 b1" and "k_procs t = (replicate NPROCESS None)[0 := Some (init_process x)]"
    and "current_tid (k_cpu t) = None" and "stack_block E b0" "stack_block E b1"
  shows "sched_ok E t"
proof -
  have top: "TRAPFRAME_SIZE \<le> stack_top b" if "stack_block E b" for b
    using that stack_top_nat [of b] by (simp add: stack_block_def word_le_nat_alt TRAPFRAME_SIZE_nat)
  have r0: "thread_ready E t (input_thread E f b0)"
    using assms(4) top [OF assms(4)] by (simp add: thread_ready_def input_thread_def stack_block_def new_thread_def)
  have r1: "thread_ready E t (init_thread E x b1)"
    using assms(2,5) top [OF assms(5)]
    by (simp add: thread_ready_def init_thread_def fresh_thread_def stack_block_def init_process_def NPROCESS_def)
  have st: "state (boot_threads E f x b0 b1 ! i) \<noteq> Running \<and>
      (state (boot_threads E f x b0 b1 ! i) = Runnable \<longrightarrow> thread_ready E t (boot_threads E f x b0 b1 ! i))" if "i < NTHREAD" for i
  proof -
    consider "i = 0" | "i = 1" | "2 \<le> i" by linarith
    then show ?thesis
    proof cases
      case 1
      then show ?thesis using r0 boot_threads_nth(1) [of E f x b0 b1] by (simp add: input_thread_def)
    next
      case 2
      then show ?thesis using r1 boot_threads_nth(2) [of E f x b0 b1] by (simp add: init_thread_def)
    next
      case 3
      then show ?thesis using boot_threads_nth(3) [OF 3 that, of E f x b0 b1] by simp
    qed
  qed
  then show ?thesis
    using assms(1-3) boot_threads_nth(4) [of E f x b0 b1]
    by (auto simp: sched_ok_def tables_ok_def cur_ok_def scan_start_def NTHREAD_def)
qed


section \<open>An instance\<close>

lemma next_table_kept: "preserves (mem_kept A po) (next_table X allocate_frame alloc t i)"
proof (rule preservesI)
  fix s x u
  assume k: "mem_kept A po s" and run: "next_table X allocate_frame alloc t i s = (x, u)"
  obtain f a where al: "allocate_frame (fa s) = (f, a)" by fastforce
  have "mem_kept A po (s\<lparr>fa := a\<rparr>)"
    using k al boot.alloc_Some [of "fa s" _ a] boot.alloc_None [of "fa s" a] by (cases f) (auto simp: mem_kept_def)
  then show "mem_kept A po u"
    using k run al
    by (auto simp: next_table_def Let_def mem_kept_def zero_frame_def set_entry_def split: if_splits option.splits)
qed

lemma walk_kept: "preserves (mem_kept A po) (walk_pagetable X allocate_frame r va alloc)"
  unfolding walk_pagetable_def by (intro preserves_bind next_table_kept) (auto intro!: keeps next_table_kept split: option.split)

lemma sample_map_kept: "preserves (mem_kept A po) (sample_map_to X r page f fl)"
proof -
  have "preserves (mem_kept A po) (store_frame X t i f fl)" for t i
    by (auto simp: store_frame_def mem_kept_def set_entry_def intro!: keeps split: option.split)
  then show ?thesis
    unfolding sample_map_to_def by (auto intro!: keeps walk_kept split: prod.split)
qed

interpretation boot_loader: boot_mapper sample_env
  by (intro boot_mapper.intro loader.mapper_axioms boot_mapper_axioms.intro) (simp add: sample_env_def sample_map_kept)

text \<open>A heap that hands out 32 KiB for every block, a mapper that accepts the pages of the heap, 400 free frames.\<close>

definition count_up :: "layout \<Rightarrow> u64 \<Rightarrow> u64 option \<times> u64" where
  "count_up l p = (Some p, p + 0x8000)"

definition keep_block :: "u64 \<Rightarrow> layout \<Rightarrow> (u64, unit) program" where
  "keep_block p l = ret ()"

definition boot_env :: "u64 fsb env" where
  "boot_env = \<lparr>crate = x86_bits, kalloc = fsb_alloc count_up kstack_layout, kfree = (\<lambda>b h. h), mmu = mmu sample_env,
     map_to = (\<lambda>r page f fl. if 2 ^ 47 \<le> unat page then ret () else sample_map_to x86_bits r page f fl),
     kthread_entry_addr = 0xFFFF800000001000, ring3_entry_addr = 0xFFFF800000002000,
     fork_return_addr = 0xFFFF800000003000, user_cs = 0x23, user_ss = 0x1B, programs = [(init_path, sample_elf)],
     overflow_checks = True\<rparr>"

definition boot_map :: "region list" where
  "boot_map = [\<lparr>r_start = 0x100000, r_end = 0x290000, r_kind = Usable\<rparr>]"

definition boot_kernel :: "u64 fsb kernel" where
  "boot_kernel = \<lparr>k_threads = replicate NTHREAD new_thread, k_procs = replicate NPROCESS None, k_cpu = new_cpu 0,
     k_mem = sample_mem [], k_frames_ready = False, k_kernel_pt = None, k_cr3 = 0x1000, k_rsp0 = 0,
     k_regs = regs.truncate new_context, k_stacks = (\<lambda>_. 0), k_heap = fsb_new 0 (\<lambda>_. 0), k_ticks = 0,
     k_started = False, k_if = False, k_kernel_gs = False, k_out = []\<rparr>"

lemma boot_env_mapper: "boot_mapper boot_env"
proof (intro boot_mapper.intro mapper.intro boot_mapper_axioms.intro)
  show "paging_crate (crate boot_env)" by (simp add: boot_env_def bits.paging_crate_axioms)
  show "ends
      (\<lambda>_ t. page_view (crate boot_env) (pm s) r k = None \<and> evolves (crate boot_env) avail_frames frame_alloc_ok r s t \<and>
         avail_frames (fa t) \<subseteq> avail_frames (fa s) \<and> card (avail_frames (fa s)) \<le> card (avail_frames (fa t)) + 4 \<and>
         (\<forall>j<2 ^ 35. page_view (crate boot_env) (pm t) r j =
           (if j = k then Some (f, fl, \<lambda>_. 0) else page_view (crate boot_env) (pm s) r j)))
      (\<lambda>e t. confined (crate boot_env) r s t \<and>
         (page_view (crate boot_env) (pm s) r k \<noteq> None \<or> card (avail_frames (fa s)) < 4))
      (map_to boot_env r (page_addr k) f fl (zero_frame f (s\<lparr>fa := a\<rparr>)))"
    if "space_ok (crate boot_env) avail_frames frame_alloc_ok s r" "k < 2 ^ 35" "flag_word fl" "contains fl PRESENT"
      "allocate_frame (fa s) = (Some f, a)" for s r k fl f a
  proof -
    have "map_to boot_env r (page_addr k) f fl = sample_map_to (crate boot_env) r (page_addr k) f fl"
      using that(2) by (simp add: boot_env_def unat_page_addr)
    then show ?thesis
      using sample_map_to_outcome [of "crate boot_env", OF _ that] by (simp add: boot_env_def bits.paging_crate_axioms)
  qed
  show "preserves (mem_kept A po) (map_to boot_env r page f (PRESENT OR WRITABLE))" if "2 ^ 47 \<le> unat page" for page A po r f
    using that by (simp add: boot_env_def keeps)
qed

definition boot_heap :: "u64 fsb" where
  "boot_heap = (fsb_new 0 (\<lambda>_. 0))\<lparr>fallback := HEAP_START\<rparr>"

lemma list_index_cases:
  "list_index l = (let n = max (lsize l) (lalign l) in
     if n \<le> 8 then Some 0 else if n \<le> 16 then Some 1 else if n \<le> 32 then Some 2 else if n \<le> 64 then Some 3
     else if n \<le> 128 then Some 4 else if n \<le> 256 then Some 5 else if n \<le> 512 then Some 6 else if n \<le> 1024 then Some 7
     else if n \<le> 2048 then Some 8 else None)"
proof -
  have idx: "[0..<9] = [0, 1, 2, 3, 4, 5, 6, 7, 8 :: nat]" by (simp add: upt_rec)
  have len: "length BLOCK_SIZES = 9" by (simp add: BLOCK_SIZES_def)
  have nth: "BLOCK_SIZES ! 0 = 8" "BLOCK_SIZES ! 1 = 16" "BLOCK_SIZES ! 2 = 32" "BLOCK_SIZES ! 3 = 64" "BLOCK_SIZES ! 4 = 128"
      "BLOCK_SIZES ! 5 = 256" "BLOCK_SIZES ! 6 = 512" "BLOCK_SIZES ! 7 = 1024" "BLOCK_SIZES ! 8 = 2048"
    by (simp_all add: BLOCK_SIZES_def)
  show ?thesis by (simp only: list_index_def first_index_def len idx Let_def List.find.simps nth)
qed

lemma check_classes:
  "list_index \<lparr>lsize = 4, lalign = 4\<rparr> = Some 0" "list_index (i32_array 3) = Some 1" "list_index (i32_array 4) = Some 1"
  "list_index (i32_array 8) = Some 2" "list_index (i32_array 16) = Some 3" "list_index (i32_array 32) = Some 4"
  "list_index (i32_array 64) = Some 5" "list_index (i32_array 128) = Some 6" "list_index (i32_array 256) = Some 7"
  "list_index (i32_array 512) = Some 8" "list_index \<lparr>lsize = 40, lalign = 8\<rparr> = Some 3" "list_index kstack_layout = None"
  by (simp_all add: list_index_cases i32_array_def kstack_layout_def STACK_SIZE_def)

lemma boot_heap_blocks:
  "boot_blocks count_up keep_block boot_heap = Some (HEAP_START + 0x48000, HEAP_START + 0x50000)"
  by (simp add: boot_blocks_def heap_check_def global_alloc_def bind_def fsb_alloc_def fsb_dealloc_def check_classes boot_heap_def
      fsb_new_def fallback_alloc_def count_up_def BLOCK_SIZES_def NODE_SIZE_def modify_def HEAP_START_def)

lemma boot_map_ok: "map_ok boot_map"
  by (simp add: map_ok_def region_ok_def boot_map_def)

lemma boot_usable: "length (usable_frames (frame_alloc_init boot_map)) = 400" "distinct (usable_frames (frame_alloc_init boot_map))"
proof -
  show "length (usable_frames (frame_alloc_init boot_map)) = 400"
    by (simp add: usable_frames_def frame_alloc_init_def boot_map_def region_addresses_def)
  show "distinct (usable_frames (frame_alloc_init boot_map))"
    using usable_distinct [OF boot_map_ok] by (simp add: usable_frames_def frame_alloc_init_def)
qed

lemma accept_pages:
  assumes "\<And>p. p \<in> set ps \<Longrightarrow> 2 ^ 47 \<le> unat p" and "recycled_frames (fa m) = []" and "next_frame (fa m) + length ps \<le> length (usable_frames (fa m))"
  shows "foreach ps (\<lambda>page. bind (take_frame allocate_frame msg) (\<lambda>f. map_to boot_env r page f fl)) m =
    (Ok (), m\<lparr>fa := (fa m)\<lparr>next_frame := next_frame (fa m) + length ps\<rparr>\<rparr>)"
  using assms
proof (induction ps arbitrary: m)
  case (Cons p ps)
  let ?m = "m\<lparr>fa := (fa m)\<lparr>next_frame := Suc (next_frame (fa m))\<rparr>\<rparr>"
  have us: "usable_frames (fa ?m) = usable_frames (fa m)" by (simp add: usable_frames_def)
  have "take_frame allocate_frame msg m = (Ok (usable_frames (fa m) ! next_frame (fa m)), ?m)"
    using Cons.prems by (simp add: take_frame_def allocate_frame_def)
  moreover have "map_to boot_env r p f fl = ret ()" for f using Cons.prems(1) [of p] by (simp add: boot_env_def)
  moreover have "foreach ps (\<lambda>page. bind (take_frame allocate_frame msg) (\<lambda>f. map_to boot_env r page f fl)) ?m =
      (Ok (), ?m\<lparr>fa := (fa ?m)\<lparr>next_frame := next_frame (fa ?m) + length ps\<rparr>\<rparr>)"
    by (rule Cons.IH) (use Cons.prems us in simp_all)
  ultimately show ?case by (simp add: bind_def)
qed simp

definition boot_offset :: u64 where "boot_offset = 0xFFFFA00000000000"

definition boot_frames :: "frame_alloc mem" where
  "boot_frames = (boot_mem boot_map boot_offset (sample_mem []))\<lparr>fa := (frame_alloc_init boot_map)\<lparr>next_frame := 256\<rparr>\<rparr>"

lemma boot_heap_init:
  "init_heap (crate boot_env) (map_to boot_env 0x1000) (\<lambda>start sz f. start) (boot_mem boot_map boot_offset (sample_mem []), fsb_new 0 (\<lambda>_. 0)) =
     (Ok (), boot_frames, boot_heap)"
proof -
  let ?m = "boot_mem boot_map boot_offset (sample_mem [])"
  have fa: "fa ?m = frame_alloc_init boot_map" by (simp add: boot_mem_def)
  have "foreach (pages_between (containing_frame HEAP_START) (containing_frame (HEAP_START + HEAP_SIZE - 1)))
      (\<lambda>page. bind (take_frame allocate_frame msg) (\<lambda>f. map_to boot_env 0x1000 page f (PRESENT OR WRITABLE))) ?m = (Ok (), boot_frames)" for msg
    by (subst accept_pages [OF heap_page_high]) (simp_all add: fa boot_usable heap_addresses heap_pages boot_frames_def, simp_all add: frame_alloc_init_def)
  then show ?thesis
    by (simp add: init_heap_def virt_new_def boot_env_def heap_addresses zoom_def modify_def fsb_init_def boot_heap_def)
qed

lemma boot_frames_left: "card (avail_frames (fa boot_frames)) = 144"
proof -
  have "usable_frames (fa boot_frames) = usable_frames (frame_alloc_init boot_map)"
    by (simp add: boot_frames_def usable_frames_def)
  then have "avail_frames (fa boot_frames) = set (drop 256 (usable_frames (frame_alloc_init boot_map)))"
    by (simp add: avail_frames_def free_list_def) (simp add: boot_frames_def frame_alloc_init_def)
  then show ?thesis using distinct_drop [OF boot_usable(2), of 256] boot_usable(1) by (simp add: distinct_card)
qed


end
