(* ===== verification/TextRows.thy ===== *)
theory TextRows
  imports Prelude
begin

text \<open>
  The rows of a text on a screen of a given width, the reference for both consoles: a text is split into
  lines at the new-line character \<open>nl\<close>, and a line into rows of \<open>w\<close> characters. A row that is full ends
  only when another character follows.
\<close>

fun split_lines :: "'a \<Rightarrow> 'a list \<Rightarrow> 'a list list" where
  "split_lines nl [] = [[]]"
| "split_lines nl (x # xs) = (if x = nl then [] # split_lines nl xs
     else case split_lines nl xs of [] \<Rightarrow> [[x]] | l # ls \<Rightarrow> (x # l) # ls)"

function wrap :: "nat \<Rightarrow> 'a list \<Rightarrow> 'a list list" where
  "wrap w xs = (if w = 0 \<or> length xs \<le> w then [xs] else take w xs # wrap w (drop w xs))"
  by auto
termination by (relation "measure (length \<circ> snd)") auto

declare wrap.simps [simp del]

definition text_rows :: "'a \<Rightarrow> nat \<Rightarrow> 'a list \<Rightarrow> 'a list list" where
  "text_rows nl w t = concat (map (wrap w) (split_lines nl t))"

lemma split_lines_ne [simp]: "split_lines nl t \<noteq> []"
  by (cases t) (auto split: list.splits)

lemma split_lines_snoc:
  "split_lines nl (t @ [nl]) = split_lines nl t @ [[]]"
  "x \<noteq> nl \<Longrightarrow> split_lines nl (t @ [x]) = butlast (split_lines nl t) @ [last (split_lines nl t) @ [x]]"
proof (induction t)
  case (Cons y t)
  { case 1 show ?case using Cons(1) by (cases "split_lines nl t") auto }
  { case 2
    then show ?case using Cons(2) by (cases "split_lines nl t") auto }
qed simp_all

lemma wrap_ne [simp]: "wrap w xs \<noteq> []"
  by (subst wrap.simps) simp

lemma wrap_last: "0 < w \<Longrightarrow> length (last (wrap w xs)) \<le> w"
proof (induction w xs rule: wrap.induct)
  case (1 w xs)
  then show ?case by (subst wrap.simps) auto
qed

lemma wrap_snoc:
  "0 < w \<Longrightarrow> wrap w (xs @ [x]) = (if length (last (wrap w xs)) < w then butlast (wrap w xs) @ [last (wrap w xs) @ [x]] else wrap w xs @ [[x]])"
proof (induction w xs rule: wrap.induct)
  case (1 w xs)
  show ?case
  proof (cases "length xs \<le> w")
    case True
    have "wrap w xs = [xs]" using True by (simp add: wrap.simps)
    then show ?thesis using True \<open>0 < w\<close> by (subst (1) wrap.simps) (auto simp: wrap.simps [of w "[x]"])
  next
    case False
    then have "wrap w (xs @ [x]) = take w xs # wrap w (drop w xs @ [x])" "wrap w xs = take w xs # wrap w (drop w xs)"
      using \<open>0 < w\<close> by (subst wrap.simps; simp)+
    then show ?thesis using 1 False by simp
  qed
qed

lemma text_rows_ne [simp]: "text_rows nl w t \<noteq> []"
  by (cases "split_lines nl t") (simp_all add: text_rows_def)

lemma text_rows_nil [simp]: "text_rows nl w [] = [[]]"
  by (simp add: text_rows_def wrap.simps)

lemma text_rows_last: "0 < w \<Longrightarrow> length (last (text_rows nl w t)) \<le> w"
proof -
  assume "0 < w"
  have "last (text_rows nl w t) = last (wrap w (last (split_lines nl t)))"
    by (cases "split_lines nl t" rule: rev_cases) (simp_all add: text_rows_def)
  then show ?thesis using wrap_last \<open>0 < w\<close> by simp
qed

lemma text_rows_snoc:
  "text_rows nl w (t @ [nl]) = text_rows nl w t @ [[]]"
  "0 < w \<Longrightarrow> x \<noteq> nl \<Longrightarrow> text_rows nl w (t @ [x]) = (if length (last (text_rows nl w t)) < w
     then butlast (text_rows nl w t) @ [last (text_rows nl w t) @ [x]] else text_rows nl w t @ [[x]])"
proof -
  obtain ls l where t: "split_lines nl t = ls @ [l]" by (cases "split_lines nl t" rule: rev_cases) auto
  show "text_rows nl w (t @ [nl]) = text_rows nl w t @ [[]]" by (simp add: text_rows_def split_lines_snoc wrap.simps)
  assume w: "0 < w" and "x \<noteq> nl"
  then have "text_rows nl w (t @ [x]) = concat (map (wrap w) ls) @ wrap w (l @ [x])" "text_rows nl w t = concat (map (wrap w) ls) @ wrap w l"
    by (simp_all add: text_rows_def split_lines_snoc t)
  then show "text_rows nl w (t @ [x]) = (if length (last (text_rows nl w t)) < w
     then butlast (text_rows nl w t) @ [last (text_rows nl w t) @ [x]] else text_rows nl w t @ [[x]])"
    using w by (simp add: wrap_snoc butlast_append)
qed

lemma wrap_short: "0 < w \<Longrightarrow> r \<in> set (wrap w xs) \<Longrightarrow> length r \<le> w"
proof (induction w xs rule: wrap.induct)
  case (1 w xs)
  then show ?case by (subst (asm) (2) wrap.simps) (auto split: if_splits)
qed

lemma text_rows_short: "0 < w \<Longrightarrow> \<forall>r\<in>set (text_rows nl w t). length r \<le> w"
  by (auto simp: text_rows_def dest: wrap_short)

end
