(* ===== verification/Vga.thy ===== *)
theory Vga
  imports TextRows
begin

text \<open>
  The text console of console/vga_buffer.rs: a screen of 25 rows of 80 cells of which only the last row
  is written, and which moves up a row at every new line. The reference is the text itself, broken
  into rows: \<open>text_rows\<close>. The main result is that the screen always shows the last 25 rows of what
  was written.
\<close>

section \<open>The writer\<close>

datatype Color =
    Black | Blue | Green | Cyan | Red | Magenta | Brown | LightGray
  | DarkGray | LightBlue | LightGreen | LightCyan | LightRed | Pink | Yellow | White

primrec color_u8 :: "Color \<Rightarrow> u8" where
  "color_u8 Black = 0" | "color_u8 Blue = 1" | "color_u8 Green = 2" | "color_u8 Cyan = 3"
| "color_u8 Red = 4" | "color_u8 Magenta = 5" | "color_u8 Brown = 6" | "color_u8 LightGray = 7"
| "color_u8 DarkGray = 8" | "color_u8 LightBlue = 9" | "color_u8 LightGreen = 10" | "color_u8 LightCyan = 11"
| "color_u8 LightRed = 12" | "color_u8 Pink = 13" | "color_u8 Yellow = 14" | "color_u8 White = 15"

definition ColorCode_new :: "Color \<Rightarrow> Color \<Rightarrow> u8" where
  "ColorCode_new foreground background = push_bit 4 (color_u8 background) OR color_u8 foreground"

record screen_char =
  ascii_character :: u8
  char_color :: u8

definition BUFFER_HEIGHT :: nat where "BUFFER_HEIGHT = 25"
definition BUFFER_WIDTH :: nat where "BUFFER_WIDTH = 80"

text \<open>\<open>chars\<close> is the buffer at 0xb8000, row by row.\<close>

record vga =
  column_position :: nat
  color_code :: u8
  chars :: "screen_char list list"

text \<open>\<open>WRITER\<close>, over the contents that the buffer has at boot.\<close>

definition WRITER :: "screen_char list list \<Rightarrow> vga" where
  "WRITER buffer = \<lparr>column_position = 0, color_code = ColorCode_new Yellow Black, chars = buffer\<rparr>"

text \<open>\<open>buffer.chars[row][col]\<close>, read and written: an index out of range panics.\<close>

definition read_char :: "nat \<Rightarrow> nat \<Rightarrow> (vga, screen_char) program" where
  "read_char row col = (\<lambda>w. if row < BUFFER_HEIGHT \<and> col < BUFFER_WIDTH then (Ok (chars w ! row ! col), w)
     else (Panic ''index out of bounds'', w))"

definition write_screen_char :: "nat \<Rightarrow> nat \<Rightarrow> screen_char \<Rightarrow> (vga, unit) program" where
  "write_screen_char row col c = (\<lambda>w. if row < BUFFER_HEIGHT \<and> col < BUFFER_WIDTH
     then (Ok (), w\<lparr>chars := (chars w)[row := (chars w ! row)[col := c]]\<rparr>)
     else (Panic ''index out of bounds'', w))"

definition clear_row :: "nat \<Rightarrow> (vga, unit) program" where
  "clear_row row = bind (gets (\<lambda>w. \<lparr>ascii_character = 0x20, char_color = color_code w\<rparr>)) (\<lambda>blank.
     foreach [0..<BUFFER_WIDTH] (\<lambda>col. write_screen_char row col blank))"

definition new_line :: "(vga, unit) program" where
  "new_line =
     bind (foreach [1..<BUFFER_HEIGHT] (\<lambda>row. foreach [0..<BUFFER_WIDTH] (\<lambda>col.
       bind (read_char row col) (\<lambda>character. write_screen_char (row - 1) col character)))) (\<lambda>_.
     bind (clear_row (BUFFER_HEIGHT - 1)) (\<lambda>_.
     modify (\<lambda>w. w\<lparr>column_position := 0\<rparr>)))"

text \<open>The third arm of \<open>write_byte\<close>, which a blank reaches too.\<close>

definition put_byte :: "u8 \<Rightarrow> (vga, unit) program" where
  "put_byte byte =
     bind (gets column_position) (\<lambda>p.
     bind (if BUFFER_WIDTH \<le> p then new_line else ret ()) (\<lambda>_.
     bind (gets column_position) (\<lambda>col.
     bind (gets color_code) (\<lambda>code.
     bind (write_screen_char (BUFFER_HEIGHT - 1) col \<lparr>ascii_character = byte, char_color = code\<rparr>) (\<lambda>_.
     modify (\<lambda>w. w\<lparr>column_position := column_position w + 1\<rparr>))))))"

definition write_byte :: "u8 \<Rightarrow> (vga, unit) program" where
  "write_byte byte =
     (if byte = 0x0a then new_line
      else if byte = 0x09 then foreach [0..<4] (\<lambda>_. put_byte 0x20)
      else put_byte byte)"

definition write_string :: "u8 list \<Rightarrow> (vga, unit) program" where
  "write_string s = foreach s (\<lambda>byte.
     if 0x20 \<le> byte \<and> byte \<le> 0x7e \<or> byte = 0x0a \<or> byte = 0x09 then write_byte byte else write_byte 0xfe)"

section \<open>What the operations do to the screen\<close>

definition buffer_shape :: "vga \<Rightarrow> bool" where
  "buffer_shape w \<longleftrightarrow> length (chars w) = 25 \<and> (\<forall>r\<in>set (chars w). length r = 80) \<and> column_position w \<le> 80"

definition blank_row :: "vga \<Rightarrow> screen_char list" where
  "blank_row w = replicate 80 \<lparr>ascii_character = 0x20, char_color = color_code w\<rparr>"

lemma screen_row: "buffer_shape w \<Longrightarrow> row < 25 \<Longrightarrow> length (chars w ! row) = 80"
  by (simp add: buffer_shape_def)

lemma copy_row_run:
  assumes "buffer_shape w" and "row < 24" and "n \<le> 80"
  shows "foreach [0..<n] (\<lambda>col. bind (read_char (Suc row) col) (\<lambda>c. write_screen_char row col c)) w =
    (Ok (), w\<lparr>chars := (chars w)[row := take n (chars w ! Suc row) @ drop n (chars w ! row)]\<rparr>)"
  using assms(3)
proof (induction n)
  case 0
  then show ?case by simp
next
  case (Suc n)
  have len: "length (chars w) = 25" "length (chars w ! row) = 80" "length (chars w ! Suc row) = 80"
    using assms screen_row [OF assms(1)] by (simp_all add: buffer_shape_def)
  have "(take n (chars w ! Suc row) @ drop n (chars w ! row))[n := chars w ! Suc row ! n] =
      take (Suc n) (chars w ! Suc row) @ drop (Suc n) (chars w ! row)"
    using Suc.prems len by (simp add: list_update_append take_Suc_conv_app_nth Cons_nth_drop_Suc [symmetric])
  then show ?case
    using Suc assms(2) len
    by (simp add: upt_Suc_append foreach_append read_char_def write_screen_char_def BUFFER_HEIGHT_def BUFFER_WIDTH_def bind_def)
qed

lemma shift_step:
  assumes "Suc n < length xs"
  shows "(take n (drop 1 xs) @ drop n xs)[n := xs ! Suc n] = take (Suc n) (drop 1 xs) @ drop (Suc n) xs"
proof (cases xs)
  case (Cons y ys)
  have "drop n xs = xs ! n # drop (Suc n) xs" using assms by (simp add: Cons_nth_drop_Suc)
  then show ?thesis using assms by (simp add: Cons list_update_append take_Suc_conv_app_nth)
qed (use assms in simp)

lemma shift_all: "length xs = Suc n \<Longrightarrow> take n (drop 1 xs) @ drop n xs = tl xs @ [last xs]"
proof -
  assume len: "length xs = Suc n"
  have "drop n xs = [last xs]" using len by (cases xs rule: rev_cases) auto
  moreover have "take n (drop 1 xs) = tl xs" using len by (simp add: drop_Suc)
  ultimately show ?thesis by simp
qed

lemma move_up_run:
  assumes "buffer_shape w" and "n \<le> 24"
  shows "foreach [1..<Suc n] (\<lambda>row. foreach [0..<80] (\<lambda>col. bind (read_char row col) (\<lambda>c. write_screen_char (row - 1) col c))) w =
    (Ok (), w\<lparr>chars := take n (drop 1 (chars w)) @ drop n (chars w)\<rparr>)"
  using assms(2)
proof (induction n)
  case 0
  then show ?case by simp
next
  case (Suc n)
  let ?rows = "take n (drop 1 (chars w)) @ drop n (chars w)"
  have len: "length (chars w) = 25" using assms(1) by (simp add: buffer_shape_def)
  have rows: "buffer_shape (w\<lparr>chars := ?rows\<rparr>)"
    using assms(1) Suc.prems unfolding buffer_shape_def by (auto dest: in_set_takeD in_set_dropD)
  have "?rows ! Suc n = chars w ! Suc n" "length (chars w ! Suc n) = 80"
    using Suc.prems len screen_row [OF assms(1)] by (simp_all add: nth_append)
  moreover have "?rows[n := chars w ! Suc n] = take (Suc n) (drop 1 (chars w)) @ drop (Suc n) (chars w)"
    using Suc.prems len by (intro shift_step) simp
  moreover have "length (?rows ! n) = 80" using screen_row [OF rows, of n] Suc.prems by simp
  ultimately have step: "foreach [0..<80] (\<lambda>col. bind (read_char (Suc n) col) (\<lambda>c. write_screen_char (Suc n - 1) col c)) (w\<lparr>chars := ?rows\<rparr>) =
      (Ok (), w\<lparr>chars := take (Suc n) (drop 1 (chars w)) @ drop (Suc n) (chars w)\<rparr>)"
    using Suc.prems copy_row_run [OF rows, of n 80] by simp
  have split: "[1..<Suc (Suc n)] = [1..<Suc n] @ [Suc n]" by simp
  show ?case
    unfolding split foreach_append using Suc.IH Suc.prems step by (intro bind_run [where t = "w\<lparr>chars := ?rows\<rparr>"]) simp_all
qed

lemma clear_row_run:
  assumes "buffer_shape w" and "n \<le> 80"
  shows "foreach [0..<n] (\<lambda>col. write_screen_char 24 col c) w =
    (Ok (), w\<lparr>chars := (chars w)[24 := replicate n c @ drop n (chars w ! 24)]\<rparr>)"
  using assms(2)
proof (induction n)
  case 0
  then show ?case by simp
next
  case (Suc n)
  have len: "length (chars w) = 25" "length (chars w ! 24) = 80"
    using assms screen_row [OF assms(1)] by (simp_all add: buffer_shape_def)
  have "(replicate n c @ drop n (chars w ! 24))[n := c] = replicate (Suc n) c @ drop (Suc n) (chars w ! 24)"
    using Suc.prems len by (simp add: list_update_append replicate_append_same Cons_nth_drop_Suc [symmetric])
  then show ?case
    using Suc len by (simp add: upt_Suc_append foreach_append write_screen_char_def BUFFER_HEIGHT_def BUFFER_WIDTH_def bind_def)
qed

lemma new_line_run:
  assumes "buffer_shape w"
  shows "new_line w = (Ok (), w\<lparr>chars := tl (chars w) @ [blank_row w], column_position := 0\<rparr>)"
proof -
  have len: "length (chars w) = 25" using assms by (simp add: buffer_shape_def)
  then have ne: "chars w \<noteq> []" by auto
  let ?v = "w\<lparr>chars := tl (chars w) @ [last (chars w)]\<rparr>"
  have "take 24 (drop 1 (chars w)) @ drop 24 (chars w) = tl (chars w) @ [last (chars w)]"
    by (rule shift_all) (simp add: len)
  then have scroll: "foreach [1..<25] (\<lambda>row. foreach [0..<80] (\<lambda>col. bind (read_char row col) (\<lambda>c. write_screen_char (row - 1) col c))) w =
      (Ok (), ?v)"
    using move_up_run [OF assms, of 24] by simp
  have "buffer_shape ?v"
    using assms len last_in_set [OF ne] unfolding buffer_shape_def by (auto dest: list.set_sel(2) [rotated])
  from clear_row_run [OF this, of 80] screen_row [OF this, of 24]
  have "foreach [0..<80] (\<lambda>col. write_screen_char 24 col \<lparr>ascii_character = 0x20, char_color = color_code w\<rparr>) ?v =
      (Ok (), w\<lparr>chars := tl (chars w) @ [blank_row w]\<rparr>)"
    using len by (simp add: blank_row_def list_update_append)
  then show ?thesis
    using scroll by (simp add: new_line_def clear_row_def BUFFER_HEIGHT_def BUFFER_WIDTH_def bind_def modify_def gets_def)
qed

section \<open>The text in rows\<close>

text \<open>The bytes that \<open>write_string\<close> prints.\<close>

definition printed :: "u8 list \<Rightarrow> u8 list" where
  "printed s = concat (map (\<lambda>b. if b = 0x09 then replicate 4 0x20
     else if 0x20 \<le> b \<and> b \<le> 0x7e \<or> b = 0x0a then [b] else [0xfe]) s)"

lemma rows_snoc:
  "text_rows 0x0a 80 (t @ [0x0a]) = text_rows 0x0a 80 t @ [[]]"
  "(x :: u8) \<noteq> 0x0a \<Longrightarrow> text_rows 0x0a 80 (t @ [x]) = (if length (last (text_rows 0x0a 80 t)) < 80
     then butlast (text_rows 0x0a 80 t) @ [last (text_rows 0x0a 80 t) @ [x]] else text_rows 0x0a 80 t @ [[x]])"
  by (rule text_rows_snoc, rule text_rows_snoc, simp)

lemma rows_last: "length (last (text_rows (0x0a :: u8) 80 t)) \<le> 80"
  by (rule text_rows_last) simp

lemma rows_short: "\<forall>r\<in>set (text_rows (0x0a :: u8) 80 t). length r \<le> 80"
  by (rule text_rows_short) simp

section \<open>The screen shows the text\<close>

text \<open>A row of the text over what the row of the screen held before.\<close>

definition paint :: "vga \<Rightarrow> screen_char list \<Rightarrow> u8 list \<Rightarrow> screen_char list" where
  "paint w base bs = map (\<lambda>b. \<lparr>ascii_character = b, char_color = color_code w\<rparr>) bs @ drop (length bs) base"

text \<open>All rows there would be on an endless screen: those above the last row of the first screen, then the text.\<close>

definition roll :: "vga \<Rightarrow> u8 list list \<Rightarrow> screen_char list list" where
  "roll w rows = butlast (chars w) @ paint w (last (chars w)) (hd rows) # map (paint w (blank_row w)) (tl rows)"

definition showing :: "vga \<Rightarrow> u8 list \<Rightarrow> vga \<Rightarrow> bool" where
  "showing w0 t w \<longleftrightarrow> (let all = roll w0 (text_rows 0x0a 80 t) in
     color_code w = color_code w0 \<and> column_position w = length (last (text_rows 0x0a 80 t)) \<and>
     chars w = drop (length all - 25) all)"

lemma roll_snoc:
  assumes "rows \<noteq> []"
  shows "roll w (rows @ [r]) = roll w rows @ [paint w (blank_row w) r]"
  using assms by (cases rows) (simp_all add: roll_def)

lemma paint_snoc:
  assumes "length bs < length base"
  shows "paint w base (bs @ [b]) = (paint w base bs)[length bs := \<lparr>ascii_character = b, char_color = color_code w\<rparr>]"
  using assms by (simp add: paint_def list_update_append Cons_nth_drop_Suc [symmetric])

lemma length_paint: "length bs \<le> length base \<Longrightarrow> length (paint w base bs) = length base"
  by (simp add: paint_def)

text \<open>The last row is the one that grows.\<close>

lemma roll_last:
  assumes ok: "buffer_shape w" and rows: "rows \<noteq> []" and room: "length (last rows) < 80"
  shows "roll w (butlast rows @ [last rows @ [b]]) =
    butlast (roll w rows) @ [(last (roll w rows))[length (last rows) := \<lparr>ascii_character = b, char_color = color_code w\<rparr>]]"
proof (cases "butlast rows")
  case Nil
  then obtain r where r: "rows = [r]" using rows by (cases rows rule: rev_cases) auto
  have "chars w \<noteq> []" using ok by (auto simp: buffer_shape_def)
  then have "length (last (chars w)) = 80" using ok by (simp add: buffer_shape_def)
  then show ?thesis using room by (simp add: roll_def r paint_snoc butlast_append)
next
  case (Cons q qs)
  define r where "r = last rows"
  have rows': "rows = (q # qs) @ [r]" using rows Cons append_butlast_last_id [OF rows] by (simp add: r_def)
  have "length r < length (blank_row w)" using room by (simp add: blank_row_def rows')
  then show ?thesis
    unfolding rows' roll_snoc [OF list.distinct(2)] using paint_snoc [of r "blank_row w" w b]
    by (simp add: roll_snoc [of "q # qs", simplified])
qed

lemma roll_lengths:
  assumes ok: "buffer_shape w" and rows: "\<forall>r\<in>set rows. length r \<le> 80"
  shows "25 \<le> length (roll w rows)" and "rows \<noteq> [] \<Longrightarrow> r \<in> set (roll w rows) \<Longrightarrow> length r = 80"
proof -
  have ne: "chars w \<noteq> []" using ok by (auto simp: buffer_shape_def)
  show "25 \<le> length (roll w rows)" using ok by (simp add: roll_def buffer_shape_def)
  assume "rows \<noteq> []" "r \<in> set (roll w rows)"
  moreover have "length (last (chars w)) = 80" using ok ne by (simp add: buffer_shape_def)
  ultimately show "length r = 80"
    using ok rows unfolding roll_def
    by (cases rows) (auto simp: buffer_shape_def length_paint blank_row_def dest: in_set_butlastD)
qed

lemma showing_screen:
  assumes "buffer_shape w0" and "showing w0 t w"
  shows "buffer_shape w"
  using assms roll_lengths [OF assms(1) rows_short, of t] rows_last [of t]
  by (auto simp: showing_def Let_def buffer_shape_def dest: in_set_dropD)

lemma tl_window: "25 \<le> length xs \<Longrightarrow> tl (drop (length xs - 25) xs) @ [x] = drop (length (xs @ [x]) - 25) (xs @ [x])"
proof -
  assume "25 \<le> length xs"
  then obtain k where k: "length xs = k + 25" by (metis add.commute le_Suc_ex)
  then show ?thesis by (simp add: tl_drop drop_Suc)
qed

lemma window_update:
  assumes "25 \<le> length xs"
  shows "(drop (length xs - 25) xs)[24 := f (drop (length xs - 25) xs ! 24)] =
    drop (length (butlast xs @ [f (last xs)]) - 25) (butlast xs @ [f (last xs)])"
proof -
  obtain ys y where "xs = ys @ [y]" using assms by (cases xs rule: rev_cases) auto
  then show ?thesis using assms by (simp add: list_update_append nth_append)
qed

lemma new_line_shows:
  assumes ok: "buffer_shape w0" and w: "showing w0 t w"
  shows "\<exists>v. new_line w = (Ok (), v) \<and> showing w0 (t @ [0x0a]) v"
proof -
  let ?all = "roll w0 (text_rows 0x0a 80 t)"
  note W = w [unfolded showing_def Let_def]
  have "25 \<le> length ?all" by (rule roll_lengths [OF ok rows_short])
  moreover have "roll w0 (text_rows 0x0a 80 (t @ [0x0a])) = ?all @ [blank_row w0]"
    by (simp add: rows_snoc roll_snoc paint_def)
  moreover have "blank_row w = blank_row w0" using W by (simp add: blank_row_def)
  ultimately show ?thesis
    using new_line_run [OF showing_screen [OF ok w]] W tl_window [of ?all "blank_row w0"]
    by (simp add: showing_def rows_snoc Let_def)
qed

lemma put_cell_shows:
  assumes ok: "buffer_shape w0" and w: "showing w0 t w" and b: "b \<noteq> 0x0a" and room: "length (last (text_rows 0x0a 80 t)) < 80"
  shows "\<exists>v. put_byte b w = (Ok (), v) \<and> showing w0 (t @ [b]) v"
proof -
  let ?all = "roll w0 (text_rows 0x0a 80 t)" and ?c = "\<lparr>ascii_character = b, char_color = color_code w0\<rparr>"
  let ?col = "length (last (text_rows 0x0a 80 t))"
  note W = w [unfolded showing_def Let_def]
  have long: "25 \<le> length ?all" by (rule roll_lengths [OF ok rows_short])
  have "roll w0 (text_rows 0x0a 80 (t @ [b])) = butlast ?all @ [(last ?all)[?col := ?c]]"
    using roll_last [OF ok text_rows_ne room] by (simp add: rows_snoc(2) [OF b] room)
  then have "(chars w)[24 := (chars w ! 24)[?col := ?c]] =
      drop (length (roll w0 (text_rows 0x0a 80 (t @ [b]))) - 25) (roll w0 (text_rows 0x0a 80 (t @ [b])))"
    using W window_update [OF long, of "\<lambda>r. r[?col := ?c]"] by simp
  moreover have "put_byte b w = (Ok (), w\<lparr>chars := (chars w)[24 := (chars w ! 24)[?col := ?c]], column_position := ?col + 1\<rparr>)"
    using W room by (simp add: put_byte_def write_screen_char_def BUFFER_HEIGHT_def BUFFER_WIDTH_def bind_def gets_def modify_def)
  ultimately show ?thesis
    using W room by (simp add: showing_def Let_def rows_snoc(2) [OF b])
qed

lemma put_byte_shows:
  assumes ok: "buffer_shape w0" and w: "showing w0 t w" and b: "b \<noteq> 0x0a"
  shows "\<exists>v. put_byte b w = (Ok (), v) \<and> showing w0 (t @ [b]) v"
proof (cases "length (last (text_rows 0x0a 80 t)) < 80")
  case True
  then show ?thesis by (rule put_cell_shows [OF ok w b])
next
  case False
  obtain u where u: "new_line w = (Ok (), u)" "showing w0 (t @ [0x0a]) u" using new_line_shows [OF ok w] by blast
  have "length (last (text_rows 0x0a 80 (t @ [0x0a]))) < 80" by (simp add: rows_snoc)
  from put_cell_shows [OF ok u(2) b this] obtain v where v: "put_byte b u = (Ok (), v)" "showing w0 ((t @ [0x0a]) @ [b]) v" by blast
  have "text_rows 0x0a 80 ((t @ [0x0a]) @ [b]) = text_rows 0x0a 80 (t @ [b])"
    using False by (simp only: rows_snoc rows_snoc(2) [OF b]) simp
  then have "showing w0 (t @ [b]) v" using v(2) by (simp only: showing_def)
  moreover have "column_position w = 80" "column_position u = 0"
    using w u(2) False rows_last [of t] by (simp_all add: showing_def Let_def rows_snoc)
  then have "put_byte b w = put_byte b u"
    using u(1) by (simp add: put_byte_def bind_def gets_def BUFFER_WIDTH_def)
  ultimately show ?thesis using v(1) by simp
qed

lemma write_string_shows:
  assumes ok: "buffer_shape w0" and "showing w0 (printed t) w"
  shows "\<exists>v. write_string s w = (Ok (), v) \<and> showing w0 (printed (t @ s)) v"
  using assms(2)
proof (induction s arbitrary: t w)
  case Nil
  then show ?case by (simp add: write_string_def)
next
  case (Cons b s)
  let ?put = "if 0x20 \<le> b \<and> b \<le> 0x7e \<or> b = 0x0a \<or> b = 0x09 then write_byte b else write_byte 0xfe"
  have blanks: "\<exists>v. foreach [0..<4] (\<lambda>_. put_byte 0x20) u = (Ok (), v) \<and> showing w0 (p @ replicate 4 0x20) v" if "showing w0 p u" for p u
  proof -
    have "\<exists>v. foreach [0..<n] (\<lambda>_. put_byte 0x20) u = (Ok (), v) \<and> showing w0 (p @ replicate n 0x20) v" for n :: nat
    proof (induction n)
      case (Suc n)
      then obtain v where v: "foreach [0..<n] (\<lambda>_. put_byte 0x20) u = (Ok (), v)" "showing w0 (p @ replicate n 0x20) v" by blast
      obtain x where "put_byte 0x20 v = (Ok (), x)" "showing w0 ((p @ replicate n 0x20) @ [0x20]) x"
        using put_byte_shows [OF ok v(2), of "0x20"] by auto
      then show ?case using v(1) by (simp add: foreach_append replicate_append_same)
    qed (use that in simp)
    then show ?thesis by blast
  qed
  have "printed (t @ [b]) = printed t @ (if b = 0x09 then replicate 4 0x20
      else if 0x20 \<le> b \<and> b \<le> 0x7e \<or> b = 0x0a then [b] else [0xfe])"
    by (simp add: printed_def)
  moreover consider "b = 0x0a" | "b = 0x09" | "b \<noteq> 0x0a" "b \<noteq> 0x09" by blast
  then have "\<exists>u. ?put w = (Ok (), u) \<and> showing w0 (printed t @ (if b = 0x09 then replicate 4 0x20
      else if 0x20 \<le> b \<and> b \<le> 0x7e \<or> b = 0x0a then [b] else [0xfe])) u"
  proof cases
    case 1
    then show ?thesis using new_line_shows [OF ok Cons.prems] by (simp add: write_byte_def)
  next
    case 2
    then show ?thesis using blanks [OF Cons.prems] by (simp add: write_byte_def)
  next
    case 3
    then show ?thesis
      using put_byte_shows [OF ok Cons.prems, of b] put_byte_shows [OF ok Cons.prems, of "0xfe"] by (simp add: write_byte_def)
  qed
  ultimately obtain u where u: "?put w = (Ok (), u)" "showing w0 (printed (t @ [b])) u" by auto
  obtain v where "write_string s u = (Ok (), v)" "showing w0 (printed ((t @ [b]) @ s)) v" using Cons.IH [OF u(2)] by blast
  then show ?case using u(1) by (simp add: write_string_def)
qed

end
