(* ===== verification/Framebuffer.thy ===== *)
theory Framebuffer
  imports TextRows
begin

text \<open>
  The graphical console: the writer of framebuffer/framebuffer_writer.rs, which draws characters of
  8 by 16 pixels into the frame buffer, the scrolling writer of framebuffer/mod.rs around it, and the
  dispatch to it and to the serial port of console/mod.rs. The frame buffer is a list of bytes. The
  font, the crate noto_sans_mono_bitmap, is the parameter \<open>raster\<close>, a function from characters (code points) to
  rows of intensities; the serial port, the crate uart_16550, is the parameter \<open>send\<close>. Sizes and positions
  are naturals, with the panics of subtractions and slices written out.
\<close>

section \<open>The frame buffer writer\<close>

text \<open>\<open>PixelFormat\<close> and the fields of \<open>FrameBufferInfo\<close> that are used.\<close>

datatype pixel_format = Rgb | Bgr | U8 | Unknown

record fb_info =
  fi_width :: nat
  fi_height :: nat
  fi_format :: pixel_format
  fi_bytes_per_pixel :: nat
  fi_stride :: nat

definition CHAR_WIDTH :: nat where "CHAR_WIDTH = 8"
definition LINE_HEIGHT :: nat where "LINE_HEIGHT = 16"

record fb_writer =
  fb_buffer :: "u8 list"
  fb_info :: fb_info
  x_pos :: nat
  y_pos :: nat
  fb_color :: "u8 \<times> u8 \<times> u8"

definition fb_writer_new :: "u8 list \<Rightarrow> fb_info \<Rightarrow> fb_writer" where
  "fb_writer_new buffer info = \<lparr>fb_buffer = buffer, fb_info = info, x_pos = 0, y_pos = 0, fb_color = (255, 255, 0)\<rparr>"

definition fb_newline :: "fb_writer \<Rightarrow> fb_writer" where
  "fb_newline w = w\<lparr>x_pos := 0, y_pos := y_pos w + LINE_HEIGHT\<rparr>"

definition fb_clear :: "fb_writer \<Rightarrow> fb_writer" where
  "fb_clear w = w\<lparr>x_pos := 0, y_pos := 0, fb_buffer := replicate (length (fb_buffer w)) 0\<rparr>"

text \<open>\<open>(color as u16 * intensity as u16 / 255) as u8\<close>.\<close>

definition shade :: "u8 \<Rightarrow> u8 \<Rightarrow> u8" where
  "shade color intensity = ucast ((ucast color * ucast intensity :: u16) div 255)"

definition color_bytes :: "fb_writer \<Rightarrow> u8 \<Rightarrow> u8 list" where
  "color_bytes w intensity =
     (case fb_color w of (cr, cg, cb) \<Rightarrow>
      let r = shade cr intensity; g = shade cg intensity; b = shade cb intensity in
      case fi_format (fb_info w) of
        Rgb \<Rightarrow> [r, g, b, 0]
      | Bgr \<Rightarrow> [b, g, r, 0]
      | U8 \<Rightarrow> [intensity, 0, 0, 0]
      | Unknown \<Rightarrow> [r, g, b, 0])"

text \<open>\<open>buffer[at..at + bytes.len()].copy_from_slice(bytes)\<close>, for a range inside the buffer.\<close>

definition overwrite :: "nat \<Rightarrow> 'b list \<Rightarrow> 'b list \<Rightarrow> 'b list" where
  "overwrite at bytes buffer = take at buffer @ bytes @ drop (at + length bytes) buffer"

definition write_pixel :: "nat \<Rightarrow> nat \<Rightarrow> u8 \<Rightarrow> (fb_writer, unit) program" where
  "write_pixel x y intensity = (\<lambda>w.
     let pixel_offset = y * fi_stride (fb_info w) + x;
       bytes = color_bytes w intensity;
       n = fi_bytes_per_pixel (fb_info w);
       byte_offset = pixel_offset * n in
     if byte_offset + n \<le> length (fb_buffer w)
     then if length bytes < n then (Panic ''range end index out of range'', w)
       else (Ok (), w\<lparr>fb_buffer := overwrite byte_offset (take n bytes) (fb_buffer w)\<rparr>)
     else (Ok (), w))"

definition draw_char :: "(nat \<Rightarrow> u8 list list option) \<Rightarrow> nat \<Rightarrow> (fb_writer, unit) program" where
  "draw_char raster c =
     bind (case raster c of Some r \<Rightarrow> ret r | None \<Rightarrow> expect ''called Option::unwrap() on a None value'' (raster 32)) (\<lambda>char_raster.
     bind (gets x_pos) (\<lambda>x_pos. bind (gets y_pos) (\<lambda>y_pos.
     foreach (enumerate 0 char_raster) (\<lambda>(y, row).
       foreach (enumerate 0 row) (\<lambda>(x, intensity). write_pixel (x_pos + x) (y_pos + y) intensity)))))"

definition fb_write_char :: "(nat \<Rightarrow> u8 list list option) \<Rightarrow> nat \<Rightarrow> (fb_writer, unit) program" where
  "fb_write_char raster c =
     (if c = 10 then modify fb_newline
      else
        bind (modify (\<lambda>w. if fi_width (fb_info w) < x_pos w + CHAR_WIDTH then fb_newline w else w)) (\<lambda>_.
        bind (draw_char raster c) (\<lambda>_.
        modify (\<lambda>w. w\<lparr>x_pos := x_pos w + CHAR_WIDTH\<rparr>))))"

section \<open>The scrolling writer\<close>

text \<open>\<open>ScrollingWriter\<close> keeps a second copy of the information.\<close>

record scrolling_writer =
  writer :: fb_writer
  sw_info :: fb_info

definition scrolling_writer_new :: "u8 list \<Rightarrow> fb_info \<Rightarrow> scrolling_writer" where
  "scrolling_writer_new buffer info = \<lparr>writer = fb_clear (fb_writer_new buffer info), sw_info = info\<rparr>"

definition on_writer :: "(fb_writer, 'a) program \<Rightarrow> (scrolling_writer, 'a) program" where
  "on_writer = zoom writer (\<lambda>w s. s\<lparr>writer := w\<rparr>)"

text \<open>The ranges \<open>a..b\<close> of \<open>copy_within\<close> and of the slice are checked against the buffer.\<close>

definition slice_check :: "nat \<Rightarrow> nat \<Rightarrow> (fb_writer, unit) program" where
  "slice_check a b = bind (gets (\<lambda>w. length (fb_buffer w))) (\<lambda>n.
     if b < a \<or> n < b then panic ''range out of range for slice'' else ret ())"

definition copy_down :: "nat \<Rightarrow> nat \<Rightarrow> (fb_writer, unit) program" where
  "copy_down a b = bind (slice_check a b) (\<lambda>_.
     modify (\<lambda>w. w\<lparr>fb_buffer := overwrite 0 (take (b - a) (drop a (fb_buffer w))) (fb_buffer w)\<rparr>))"

definition fill_zero :: "nat \<Rightarrow> nat \<Rightarrow> (fb_writer, unit) program" where
  "fill_zero a b = bind (slice_check a b) (\<lambda>_.
     modify (\<lambda>w. w\<lparr>fb_buffer := overwrite a (replicate (b - a) 0) (fb_buffer w)\<rparr>))"

definition sub_checked :: "nat \<Rightarrow> nat \<Rightarrow> ('s, nat) program" where
  "sub_checked a b = (if a < b then panic ''attempt to subtract with overflow'' else ret (a - b))"

definition scroll :: "(scrolling_writer, unit) program" where
  "scroll =
     bind (gets sw_info) (\<lambda>info.
     let stride = fi_stride info * fi_bytes_per_pixel info;
       line_h = 16;
       line_size = line_h * stride;
       total_size = fi_height info * stride in
     on_writer (
       bind (copy_down line_size total_size) (\<lambda>_.
       bind (sub_checked (fi_height info) line_h) (\<lambda>rows.
       bind (fill_zero (rows * stride) total_size) (\<lambda>_.
       bind (gets y_pos) (\<lambda>y.
       bind (sub_checked y line_h) (\<lambda>y'.
       modify (\<lambda>w. w\<lparr>y_pos := y'\<rparr>))))))))"

definition fb_write_one :: "(nat \<Rightarrow> u8 list list option) \<Rightarrow> nat \<Rightarrow> (scrolling_writer, unit) program" where
  "fb_write_one raster c =
     bind (gets (\<lambda>s. fi_height (sw_info s) < y_pos (writer s) + 16)) (\<lambda>full.
     bind (if full then scroll else ret ()) (\<lambda>_.
     bind (gets (\<lambda>s. (c = 10 \<or> fi_width (sw_info s) < x_pos (writer s) + 8) \<and> fi_height (sw_info s) < y_pos (writer s) + 32)) (\<lambda>ends.
     bind (if ends then scroll else ret ()) (\<lambda>_.
     on_writer (fb_write_char raster c)))))"

definition fb_write_str :: "(nat \<Rightarrow> u8 list list option) \<Rightarrow> nat list \<Rightarrow> (scrolling_writer, unit) program" where
  "fb_write_str raster s = foreach s (fb_write_one raster)"

text \<open>\<open>WRITER\<close> is \<open>None\<close> until \<open>init\<close>.\<close>

definition fb_init :: "u8 list \<Rightarrow> fb_info \<Rightarrow> scrolling_writer option \<Rightarrow> scrolling_writer option" where
  "fb_init buffer info W = Some (scrolling_writer_new buffer info)"

definition set_color :: "u8 \<Rightarrow> u8 \<Rightarrow> u8 \<Rightarrow> scrolling_writer option \<Rightarrow> scrolling_writer option" where
  "set_color r g b W = map_option (\<lambda>s. s\<lparr>writer := (writer s)\<lparr>fb_color := (r, g, b)\<rparr>\<rparr>) W"

text \<open>\<open>_print\<close>: \<open>write_fmt\<close> passes the pieces of the formatted text to \<open>write_str\<close> one after the other.\<close>

definition fb_print :: "(nat \<Rightarrow> u8 list list option) \<Rightarrow> nat list list \<Rightarrow> (scrolling_writer option, unit) program" where
  "fb_print raster pieces = (\<lambda>W. case W of
       None \<Rightarrow> (Ok (), None)
     | Some s \<Rightarrow> (case foreach pieces (fb_write_str raster) s of (r, t) \<Rightarrow> (r, Some t)))"

section \<open>The console\<close>

datatype ConsoleMode = Serial | Vga | Both

text \<open>\<open>CONSOLE\<close>, the serial port and the frame buffer writer.\<close>

record 'p console =
  mode :: ConsoleMode
  serial_port :: 'p
  screen :: "scrolling_writer option"

definition console_new :: ConsoleMode where
  "console_new = Both"

definition is_serial_available :: "u8 \<Rightarrow> bool" where
  "is_serial_available status \<longleftrightarrow> status AND 0x60 \<noteq> 0"

definition update_mode :: "u8 \<Rightarrow> 'p console \<Rightarrow> 'p console" where
  "update_mode status k = k\<lparr>mode := (if is_serial_available status then Both else Vga)\<rparr>"

text \<open>\<open>init\<close>, for the line status that the port reads and the frame buffer that the boot loader set up, if any.\<close>

definition console_init :: "u8 \<Rightarrow> (u8 list \<times> fb_info) option \<Rightarrow> 'p console \<Rightarrow> 'p console" where
  "console_init status framebuffer k =
     (let k = update_mode status k in
      case framebuffer of
        Some (buffer, info) \<Rightarrow> k\<lparr>screen := fb_init buffer info (screen k)\<rparr>
      | None \<Rightarrow> k)"

definition console_print :: "(nat list list \<Rightarrow> 'p \<Rightarrow> 'p) \<Rightarrow> (nat \<Rightarrow> u8 list list option) \<Rightarrow> nat list list \<Rightarrow> ('p console, unit) program" where
  "console_print send raster pieces =
     (let serial = modify (\<lambda>k. k\<lparr>serial_port := send pieces (serial_port k)\<rparr>);
        framebuffer = zoom screen (\<lambda>W k. k\<lparr>screen := W\<rparr>) (fb_print raster pieces) in
      bind (gets mode) (\<lambda>m. case m of
        Serial \<Rightarrow> serial
      | Vga \<Rightarrow> framebuffer
      | Both \<Rightarrow> bind serial (\<lambda>_. framebuffer)))"

end
