(* ===== verification/FbText.thy ===== *)
theory FbText
  imports Framebuffer
begin

text \<open>
  What the graphical console shows. First the pixels: what drawing a character and scrolling do to each
  of them. Then the text: the screen always shows the last rows of what was written, each character in
  its cell, and no operation panics on a screen that has room for two rows.
\<close>

section \<open>Pixels\<close>

lemma length_overwrite: "at + length bytes \<le> length buffer \<Longrightarrow> length (overwrite at bytes buffer) = length buffer"
  by (simp add: overwrite_def)

lemma nth_overwrite:
  assumes "at + length bytes \<le> length buffer" and "i < length buffer"
  shows "overwrite at bytes buffer ! i = (if at \<le> i \<and> i < at + length bytes then bytes ! (i - at) else buffer ! i)"
  using assms by (auto simp: overwrite_def nth_append)

text \<open>The bytes of the pixel in column \<open>x\<close> of line \<open>y\<close>.\<close>

definition pixel :: "fb_writer \<Rightarrow> nat \<Rightarrow> nat \<Rightarrow> u8 list" where
  "pixel w x y = (let n = fi_bytes_per_pixel (fb_info w) in
     take n (drop ((y * fi_stride (fb_info w) + x) * n) (fb_buffer w)))"

text \<open>A buffer that has room for all lines of the screen.\<close>

definition buffer_ok :: "fb_writer \<Rightarrow> bool" where
  "buffer_ok w \<longleftrightarrow> (let i = fb_info w in
     0 < fi_bytes_per_pixel i \<and> fi_bytes_per_pixel i \<le> 4 \<and>
     fi_height i * fi_stride i * fi_bytes_per_pixel i \<le> length (fb_buffer w))"

lemma index_less:
  assumes "y < h" and "x < s" and "j < n"
  shows "(y * s + x) * n + j < h * s * (n :: nat)"
proof -
  have "y * s + x < h * s"
    using assms(1,2) mult_le_mono1 [of "Suc y" h s] by simp
  then have "(Suc (y * s + x)) * n \<le> h * s * n" by (intro mult_le_mono1) simp
  then show ?thesis using assms(3) by simp
qed

lemma index_at_least:
  assumes "h \<le> y"
  shows "h * s * n \<le> (y * s + x) * (n :: nat) + j"
proof -
  have "h * s \<le> y * s + x" using mult_le_mono1 [OF assms, of s] by (rule trans_le_add1)
  then have "h * s * n \<le> (y * s + x) * n" by (rule mult_le_mono1)
  then show ?thesis by (rule trans_le_add1)
qed

lemma index_inj:
  assumes "x < s" and "x' < s"
  shows "y * s + x = y' * s + x' \<longleftrightarrow> y = y' \<and> x = (x' :: nat)"
proof
  assume eq: "y * s + x = y' * s + x'"
  have "(y * s + x) div s = y" "(y' * s + x') div s = y'" using assms by simp_all
  then show "y = y' \<and> x = x'" using eq by simp
qed simp

lemma pixel_nth:
  assumes "buffer_ok w" and "y < fi_height (fb_info w)" and "x < fi_stride (fb_info w)"
  shows "length (pixel w x y) = fi_bytes_per_pixel (fb_info w)"
    and "j < fi_bytes_per_pixel (fb_info w) \<Longrightarrow>
      pixel w x y ! j = fb_buffer w ! ((y * fi_stride (fb_info w) + x) * fi_bytes_per_pixel (fb_info w) + j)"
proof -
  let ?i = "fb_info w"
  have "(y * fi_stride ?i + x) * fi_bytes_per_pixel ?i + (fi_bytes_per_pixel ?i - 1) < length (fb_buffer w)"
    using index_less [OF assms(2,3), of "fi_bytes_per_pixel ?i - 1" "fi_bytes_per_pixel ?i"] assms(1)
    by (auto simp: buffer_ok_def Let_def)
  moreover have "0 < fi_bytes_per_pixel ?i" using assms(1) by (simp add: buffer_ok_def Let_def)
  ultimately have room: "(y * fi_stride ?i + x) * fi_bytes_per_pixel ?i + fi_bytes_per_pixel ?i \<le> length (fb_buffer w)"
    by linarith
  then show "length (pixel w x y) = fi_bytes_per_pixel ?i" by (simp add: pixel_def Let_def)
  show "pixel w x y ! j = fb_buffer w ! ((y * fi_stride ?i + x) * fi_bytes_per_pixel ?i + j)" if "j < fi_bytes_per_pixel ?i"
    using that room by (simp add: pixel_def Let_def)
qed

text \<open>The color of an intensity.\<close>

definition ink :: "fb_writer \<Rightarrow> u8 \<Rightarrow> u8 list" where
  "ink w intensity = take (fi_bytes_per_pixel (fb_info w)) (color_bytes w intensity)"

lemma length_color_bytes: "length (color_bytes w i) = 4"
  by (simp add: color_bytes_def Let_def split: prod.splits pixel_format.splits)

text \<open>All of a writer but its pixels; the buffer keeps its length.\<close>

definition same_writer :: "fb_writer \<Rightarrow> fb_writer \<Rightarrow> bool" where
  "same_writer w v \<longleftrightarrow> fb_info v = fb_info w \<and> x_pos v = x_pos w \<and> y_pos v = y_pos w \<and> fb_color v = fb_color w \<and>
     length (fb_buffer v) = length (fb_buffer w)"

lemma same_writer_refl [simp]: "same_writer w w"
  by (simp add: same_writer_def)

lemma same_writer_trans: "same_writer w v \<Longrightarrow> same_writer v u \<Longrightarrow> same_writer w u"
  by (simp add: same_writer_def)

lemma same_writer_ink: "same_writer w v \<Longrightarrow> ink v = ink w" "same_writer w v \<Longrightarrow> buffer_ok v = buffer_ok w"
  by (simp_all add: same_writer_def ink_def fun_eq_iff color_bytes_def buffer_ok_def)

lemma write_pixel_run:
  assumes ok: "buffer_ok w" and y: "y < fi_height (fb_info w)" and x: "x < fi_stride (fb_info w)"
  shows "\<exists>v. write_pixel x y i w = (Ok (), v) \<and> same_writer w v \<and>
    (\<forall>y'<fi_height (fb_info w). \<forall>x'<fi_stride (fb_info w). pixel v x' y' = (if x' = x \<and> y' = y then ink w i else pixel w x' y'))"
proof -
  let ?n = "fi_bytes_per_pixel (fb_info w)" and ?s = "fi_stride (fb_info w)" and ?h = "fi_height (fb_info w)"
  let ?at = "(y * ?s + x) * ?n"
  let ?v = "w\<lparr>fb_buffer := overwrite ?at (ink w i) (fb_buffer w)\<rparr>"
  have n: "0 < ?n" "?n \<le> 4" "?h * ?s * ?n \<le> length (fb_buffer w)" using ok by (simp_all add: buffer_ok_def Let_def)
  have len: "length (ink w i) = ?n" using n by (simp add: ink_def length_color_bytes)
  have "?at + (?n - 1) < ?h * ?s * ?n" using n by (intro index_less y x) simp
  then have room: "?at + ?n \<le> length (fb_buffer w)" using n by linarith
  have run: "write_pixel x y i w = (Ok (), ?v)"
    using room n by (simp add: write_pixel_def Let_def length_color_bytes ink_def)
  have same: "same_writer w ?v" using room by (simp add: same_writer_def length_overwrite len)
  have "pixel ?v x' y' = (if x' = x \<and> y' = y then ink w i else pixel w x' y')" if xy: "y' < ?h" "x' < ?s" for x' y'
  proof (rule nth_equalityI)
    have ok': "buffer_ok ?v" using same_writer_ink(2) [OF same] ok by simp
    show l: "length (pixel ?v x' y') = length (if x' = x \<and> y' = y then ink w i else pixel w x' y')"
      using pixel_nth(1) [OF ok, of y' x'] pixel_nth(1) [OF ok', of y' x'] xy len by simp
    fix j assume "j < length (pixel ?v x' y')"
    then have j: "j < ?n" using pixel_nth(1) [OF ok', of y' x'] xy by simp
    let ?k = "(y' * ?s + x') * ?n + j"
    have k: "?k < length (fb_buffer w)" using index_less [OF xy j] n(3) by simp
    have "pixel ?v x' y' ! j = overwrite ?at (ink w i) (fb_buffer w) ! ?k"
      using pixel_nth(2) [OF ok', of y' x' j] xy j by simp
    also have "\<dots> = (if ?at \<le> ?k \<and> ?k < ?at + ?n then ink w i ! (?k - ?at) else fb_buffer w ! ?k)"
      using nth_overwrite [of ?at "ink w i" "fb_buffer w" ?k] room k len by simp
    also have "?at \<le> ?k \<and> ?k < ?at + ?n \<longleftrightarrow> y' * ?s + x' = y * ?s + x"
    proof
      assume "?at \<le> ?k \<and> ?k < ?at + ?n"
      then have "?k div ?n = y * ?s + x" using n by (intro div_nat_eqI) (simp_all add: algebra_simps)
      then show "y' * ?s + x' = y * ?s + x" using j by simp
    qed (use j in simp)
    also have "y' * ?s + x' = y * ?s + x \<longleftrightarrow> x' = x \<and> y' = y" using index_inj [OF xy(2) x, of y' y] by blast
    finally show "pixel ?v x' y' ! j = (if x' = x \<and> y' = y then ink w i else pixel w x' y') ! j"
      using pixel_nth(2) [OF ok xy j] by auto
  qed
  then show ?thesis using run same by blast
qed

lemma draw_row_run:
  assumes "buffer_ok w" and "y < fi_height (fb_info w)" and "px + k + length row \<le> fi_stride (fb_info w)"
  shows "\<exists>v. foreach (enumerate k row) (\<lambda>(x, i). write_pixel (px + x) y i) w = (Ok (), v) \<and> same_writer w v \<and>
    (\<forall>y'<fi_height (fb_info w). \<forall>x'<fi_stride (fb_info w). pixel v x' y' =
      (if y' = y \<and> px + k \<le> x' \<and> x' < px + k + length row then ink w (row ! (x' - px - k)) else pixel w x' y'))"
  using assms
proof (induction row arbitrary: k w)
  case (Cons i row)
  let ?h = "fi_height (fb_info w)" and ?s = "fi_stride (fb_info w)"
  have "px + k < ?s" using Cons.prems(3) by simp
  from write_pixel_run [OF Cons.prems(1,2) this, of i]
  obtain u where u: "write_pixel (px + k) y i w = (Ok (), u)" "same_writer w u"
    and pu: "\<And>x' y'. y' < ?h \<Longrightarrow> x' < ?s \<Longrightarrow> pixel u x' y' = (if x' = px + k \<and> y' = y then ink w i else pixel w x' y')" by blast
  have info: "fb_info u = fb_info w" using u(2) by (simp add: same_writer_def)
  have "buffer_ok u" using same_writer_ink(2) [OF u(2)] Cons.prems(1) by simp
  from Cons.IH [OF this, of "Suc k"] Cons.prems(2,3) obtain v where
    v: "foreach (enumerate (Suc k) row) (\<lambda>(x, i). write_pixel (px + x) y i) u = (Ok (), v)" "same_writer u v"
    and pv: "\<And>x' y'. y' < ?h \<Longrightarrow> x' < ?s \<Longrightarrow> pixel v x' y' =
      (if y' = y \<and> px + Suc k \<le> x' \<and> x' < px + Suc k + length row then ink u (row ! (x' - px - Suc k)) else pixel u x' y')"
    unfolding info by auto
  have "pixel v x' y' = (if y' = y \<and> px + k \<le> x' \<and> x' < px + k + length (i # row) then ink w ((i # row) ! (x' - px - k)) else pixel w x' y')"
    if "y' < ?h" "x' < ?s" for x' y'
  proof (cases "x' \<le> px + k")
    case False
    then have "x' - px - k = Suc (x' - px - Suc k)" by simp
    then show ?thesis using pu [OF that] pv [OF that] False same_writer_ink(1) [OF u(2)] by auto
  qed (use pu [OF that] pv [OF that] in auto)
  then show ?case using u v same_writer_trans by auto
qed auto

lemma draw_rows_run:
  assumes "buffer_ok w" and "py + k + length rows \<le> fi_height (fb_info w)" and "px + 8 \<le> fi_stride (fb_info w)"
    and "\<forall>r\<in>set rows. length r = 8"
  shows "\<exists>v. foreach (enumerate k rows) (\<lambda>(y, row). foreach (enumerate 0 row) (\<lambda>(x, i). write_pixel (px + x) (py + y) i)) w = (Ok (), v) \<and>
    same_writer w v \<and>
    (\<forall>y'<fi_height (fb_info w). \<forall>x'<fi_stride (fb_info w). pixel v x' y' =
      (if py + k \<le> y' \<and> y' < py + k + length rows \<and> px \<le> x' \<and> x' < px + 8 then ink w (rows ! (y' - py - k) ! (x' - px))
       else pixel w x' y'))"
  using assms
proof (induction rows arbitrary: k w)
  case (Cons row rows)
  let ?h = "fi_height (fb_info w)" and ?s = "fi_stride (fb_info w)"
  have "py + k < ?h" "length row = 8" using Cons.prems(2,4) by simp_all
  with draw_row_run [OF Cons.prems(1), of "py + k" px 0 row] Cons.prems(3)
  obtain u where u: "foreach (enumerate 0 row) (\<lambda>(x, i). write_pixel (px + x) (py + k) i) w = (Ok (), u)" "same_writer w u"
    and pu: "\<And>x' y'. y' < ?h \<Longrightarrow> x' < ?s \<Longrightarrow> pixel u x' y' =
      (if y' = py + k \<and> px \<le> x' \<and> x' < px + 8 then ink w (row ! (x' - px)) else pixel w x' y')" by auto
  have info: "fb_info u = fb_info w" using u(2) by (simp add: same_writer_def)
  have "buffer_ok u" using same_writer_ink(2) [OF u(2)] Cons.prems(1) by simp
  from Cons.IH [OF this, of "Suc k"] Cons.prems(2-4) obtain v where
    v: "foreach (enumerate (Suc k) rows) (\<lambda>(y, row). foreach (enumerate 0 row) (\<lambda>(x, i). write_pixel (px + x) (py + y) i)) u = (Ok (), v)"
      "same_writer u v"
    and pv: "\<And>x' y'. y' < ?h \<Longrightarrow> x' < ?s \<Longrightarrow> pixel v x' y' =
      (if py + Suc k \<le> y' \<and> y' < py + Suc k + length rows \<and> px \<le> x' \<and> x' < px + 8
       then ink u (rows ! (y' - py - Suc k) ! (x' - px)) else pixel u x' y')"
    unfolding info by auto
  have "pixel v x' y' = (if py + k \<le> y' \<and> y' < py + k + length (row # rows) \<and> px \<le> x' \<and> x' < px + 8
      then ink w ((row # rows) ! (y' - py - k) ! (x' - px)) else pixel w x' y')"
    if "y' < ?h" "x' < ?s" for x' y'
  proof (cases "y' \<le> py + k")
    case False
    then have "y' - py - k = Suc (y' - py - Suc k)" by simp
    then show ?thesis using pu [OF that] pv [OF that] False same_writer_ink(1) [OF u(2)] by auto
  qed (use pu [OF that] pv [OF that] in auto)
  then show ?case using u v same_writer_trans by auto
qed auto

text \<open>A font whose glyphs are 16 rows of 8 pixels, with a glyph for the blank at least.\<close>

definition font_ok :: "(nat \<Rightarrow> u8 list list option) \<Rightarrow> bool" where
  "font_ok raster \<longleftrightarrow> raster 32 \<noteq> None \<and>
     (\<forall>c g. raster c = Some g \<longrightarrow> length g = 16 \<and> (\<forall>row\<in>set g. length row = 8))"

definition glyph :: "(nat \<Rightarrow> u8 list list option) \<Rightarrow> nat \<Rightarrow> u8 list list" where
  "glyph raster c = (case raster c of Some g \<Rightarrow> g | None \<Rightarrow> the (raster 32))"

lemma glyph_size:
  assumes "font_ok raster"
  shows "length (glyph raster c) = 16" and "row \<in> set (glyph raster c) \<Longrightarrow> length row = 8"
  using assms by (auto simp: font_ok_def glyph_def split: option.splits)

lemma draw_char_run:
  assumes font: "font_ok raster" and ok: "buffer_ok w" and y: "y_pos w + 16 \<le> fi_height (fb_info w)"
    and x: "x_pos w + 8 \<le> fi_stride (fb_info w)"
  shows "\<exists>v. draw_char raster c w = (Ok (), v) \<and> same_writer w v \<and>
    (\<forall>y'<fi_height (fb_info w). \<forall>x'<fi_stride (fb_info w). pixel v x' y' =
      (if y_pos w \<le> y' \<and> y' < y_pos w + 16 \<and> x_pos w \<le> x' \<and> x' < x_pos w + 8
       then ink w (glyph raster c ! (y' - y_pos w) ! (x' - x_pos w)) else pixel w x' y'))"
proof -
  have "(case raster c of Some r \<Rightarrow> ret r | None \<Rightarrow> expect ''called Option::unwrap() on a None value'' (raster 32)) w = (Ok (glyph raster c), w)"
    using font by (auto simp: font_ok_def glyph_def split: option.splits)
  then have "draw_char raster c w = foreach (enumerate 0 (glyph raster c)) (\<lambda>(y, row).
      foreach (enumerate 0 row) (\<lambda>(x, i). write_pixel (x_pos w + x) (y_pos w + y) i)) w"
    by (simp add: draw_char_def)
  then show ?thesis
    using draw_rows_run [OF ok, of "y_pos w" 0 "glyph raster c" "x_pos w"] glyph_size(1) [OF font, of c] glyph_size(2) [OF font, of _ c] y x by (simp cong: if_cong)
qed

section \<open>Scrolling\<close>

text \<open>The scrolling writer over a buffer that is large enough, with room for two rows of text.\<close>

definition sw_ok :: "scrolling_writer \<Rightarrow> bool" where
  "sw_ok s \<longleftrightarrow> buffer_ok (writer s) \<and> sw_info s = fb_info (writer s) \<and>
     8 \<le> fi_width (sw_info s) \<and> fi_width (sw_info s) \<le> fi_stride (sw_info s) \<and> 32 \<le> fi_height (sw_info s)"

lemma scroll_run:
  assumes ok: "sw_ok s" and y: "16 \<le> y_pos (writer s)"
  shows "\<exists>v. scroll s = (Ok (), s\<lparr>writer := v\<rparr>) \<and> fb_info v = fb_info (writer s) \<and> fb_color v = fb_color (writer s) \<and>
    x_pos v = x_pos (writer s) \<and> y_pos v = y_pos (writer s) - 16 \<and> length (fb_buffer v) = length (fb_buffer (writer s)) \<and>
    (\<forall>y<fi_height (sw_info s). \<forall>x<fi_stride (sw_info s). pixel v x y =
      (if y + 16 < fi_height (sw_info s) then pixel (writer s) x (y + 16) else replicate (fi_bytes_per_pixel (sw_info s)) 0))"
proof -
  let ?w = "writer s" and ?i = "sw_info s"
  let ?n = "fi_bytes_per_pixel ?i" and ?s = "fi_stride ?i" and ?h = "fi_height ?i"
  let ?line = "?s * ?n"
  have i: "?i = fb_info ?w" "32 \<le> ?h" and bok: "buffer_ok ?w" using ok unfolding sw_ok_def by blast+
  have n: "0 < ?n" "?h * ?s * ?n \<le> length (fb_buffer ?w)" using bok i by (simp_all add: buffer_ok_def Let_def)
  define total where "total = ?h * ?line"
  define rest where "rest = (?h - 16) * ?line"
  have total: "total = rest + 16 * ?line" "total \<le> length (fb_buffer ?w)"
    using i(2) n(2) by (simp_all add: total_def rest_def algebra_simps flip: add_mult_distrib)
  let ?up = "take rest (drop (16 * ?line) (fb_buffer ?w))"
  let ?b = "overwrite 0 ?up (fb_buffer ?w)"
  let ?c = "overwrite rest (replicate (16 * ?line) 0) ?b"
  let ?v = "?w\<lparr>fb_buffer := ?c, y_pos := y_pos ?w - 16\<rparr>"
  have up: "length ?up = rest" using total by simp
  have lb: "length ?b = length (fb_buffer ?w)" using total up by (simp add: length_overwrite)
  have lc: "length ?c = length (fb_buffer ?w)" using total lb by (simp add: length_overwrite)
  have eqs: "16 * ?line \<le> total" "total - 16 * ?line = rest" "rest \<le> total" "total - rest = 16 * ?line" using total by simp_all
  have lt: "\<not> ?h < 16" "\<not> y_pos ?w < 16" using i(2) y by simp_all
  have run: "scroll s = (Ok (), s\<lparr>writer := ?v\<rparr>)"
    unfolding scroll_def Let_def bind_gets on_writer_def zoom_def total_def [symmetric]
    using eqs total(2) lt lb by (simp add: copy_down_def fill_zero_def slice_check_def sub_checked_def bind_def modify_def gets_def rest_def [symmetric])
  have "pixel ?v x y = (if y + 16 < ?h then pixel ?w x (y + 16) else replicate ?n 0)" if xy: "y < ?h" "x < ?s" for x y
  proof (rule nth_equalityI)
    have bok': "buffer_ok ?v" using bok lc by (simp add: buffer_ok_def Let_def)
    have plen: "length (pixel ?v x y) = ?n" using pixel_nth(1) [OF bok', of y x] xy i by simp
    then show "length (pixel ?v x y) = length (if y + 16 < ?h then pixel ?w x (y + 16) else replicate ?n 0)"
      using pixel_nth(1) [OF bok, of "y + 16" x] xy i by simp
    fix j assume "j < length (pixel ?v x y)"
    then have j: "j < ?n" using plen by simp
    let ?k = "(y * ?s + x) * ?n + j"
    have k: "?k < total" using index_less [OF xy j] by (simp add: total_def algebra_simps)
    have pk: "pixel ?v x y ! j = ?c ! ?k" using pixel_nth(2) [OF bok', of y x j] xy j i by simp
    show "pixel ?v x y ! j = (if y + 16 < ?h then pixel ?w x (y + 16) else replicate ?n 0) ! j"
    proof (cases "y + 16 < ?h")
      case True
      have "y < ?h - 16" using True by simp
      then have kr: "?k < rest" using index_less [of y "?h - 16" x ?s j ?n] xy(2) j by (simp add: rest_def algebra_simps)
      have "?c ! ?k = ?b ! ?k" using nth_overwrite [of rest "replicate (16 * ?line) 0" ?b ?k] total lb k kr by simp
      also have "\<dots> = ?up ! ?k" using nth_overwrite [of 0 ?up "fb_buffer ?w" ?k] total up k kr by simp
      also have "\<dots> = fb_buffer ?w ! (16 * ?line + ?k)" using kr total by simp
      also have "16 * ?line + ?k = ((y + 16) * ?s + x) * ?n + j" by (simp add: algebra_simps)
      finally show ?thesis using pk pixel_nth(2) [OF bok, of "y + 16" x j] True xy j i by simp
    next
      case False
      have "?h - 16 \<le> y" using False by simp
      then have kr: "rest \<le> ?k" using index_at_least [of "?h - 16" y ?s ?n x j] by (simp add: rest_def algebra_simps)
      have "?c ! ?k = 0" using nth_overwrite [of rest "replicate (16 * ?line) 0" ?b ?k] total lb k kr by simp
      then show ?thesis using pk False j by simp
    qed
  qed
  then show ?thesis using run lc by (intro exI [of _ ?v]) simp
qed

section \<open>The screen shows the text\<close>

text \<open>The pixel of a screen that shows \<open>rows\<close>, in the color of \<open>w\<close>.\<close>

definition cell_pixel :: "(nat \<Rightarrow> u8 list list option) \<Rightarrow> fb_writer \<Rightarrow> nat list list \<Rightarrow> nat \<Rightarrow> nat \<Rightarrow> u8 list" where
  "cell_pixel raster w rows x y =
     (if y div 16 < length rows \<and> x div 8 < length (rows ! (y div 16))
      then ink w (glyph raster (rows ! (y div 16) ! (x div 8)) ! (y mod 16) ! (x mod 8))
      else replicate (fi_bytes_per_pixel (fb_info w)) 0)"

text \<open>The rows that are on the screen: the last ones.\<close>

definition visible :: "fb_writer \<Rightarrow> nat list list \<Rightarrow> nat list list" where
  "visible w rows = drop (length rows - fi_height (fb_info w) div 16) rows"

definition showing_rows :: "(nat \<Rightarrow> u8 list list option) \<Rightarrow> fb_writer \<Rightarrow> nat list list \<Rightarrow> scrolling_writer \<Rightarrow> bool" where
  "showing_rows raster w0 rows s \<longleftrightarrow>
     sw_info s = fb_info w0 \<and> fb_info (writer s) = fb_info w0 \<and> fb_color (writer s) = fb_color w0 \<and>
     length (fb_buffer (writer s)) = length (fb_buffer w0) \<and>
     x_pos (writer s) = 8 * length (last rows) \<and> y_pos (writer s) = 16 * (length (visible w0 rows) - 1) \<and>
     (\<forall>y<fi_height (fb_info w0). \<forall>x<fi_stride (fb_info w0). pixel (writer s) x y = cell_pixel raster w0 (visible w0 rows) x y)"

definition room_ok :: "fb_writer \<Rightarrow> bool" where
  "room_ok w \<longleftrightarrow> buffer_ok w \<and> 8 \<le> fi_width (fb_info w) \<and> fi_width (fb_info w) \<le> fi_stride (fb_info w) \<and> 32 \<le> fi_height (fb_info w)"

lemma showing_sw_ok:
  assumes "room_ok w0" and "showing_rows raster w0 rows s"
  shows "sw_ok s"
  using assms unfolding room_ok_def showing_rows_def sw_ok_def buffer_ok_def Let_def by simp

lemma two_rows: "room_ok w \<Longrightarrow> 2 \<le> fi_height (fb_info w) div 16"
  using div_le_mono [of 32 "fi_height (fb_info w)" 16] by (simp add: room_ok_def)

lemma pixel_cursor [simp]: "pixel (w\<lparr>x_pos := a, y_pos := b\<rparr>) = pixel w" "pixel (w\<lparr>x_pos := a\<rparr>) = pixel w"
  by (simp_all add: fun_eq_iff pixel_def)

lemma visible_length:
  assumes "room_ok w" and "rows \<noteq> []"
  shows "length (visible w rows) = min (length rows) (fi_height (fb_info w) div 16)" and "1 \<le> length (visible w rows)"
  using assms(2) two_rows [OF assms(1)] by (auto simp: visible_def Suc_le_eq)

lemma visible_last: "visible w rows \<noteq> [] \<Longrightarrow> last (visible w rows) = last rows"
  by (simp add: visible_def)

lemma visible_snoc:
  assumes "room_ok w" and "rows \<noteq> []"
  shows "visible w (rows @ [r]) = (if length (visible w rows) < fi_height (fb_info w) div 16 then visible w rows else tl (visible w rows)) @ [r]"
proof -
  let ?H = "fi_height (fb_info w) div 16"
  show ?thesis
  proof (cases "length rows < ?H")
    case True
    then show ?thesis by (simp add: visible_def)
  next
    case False
    then obtain k where k: "length rows = k + ?H" by (metis add.commute le_Suc_ex not_less)
    have "0 < ?H" using two_rows [OF assms(1)] by simp
    then have "visible w (rows @ [r]) = drop (Suc k) rows @ [r]" using k by (simp add: visible_def)
    then show ?thesis using k by (simp add: visible_def tl_drop drop_Suc)
  qed
qed

lemma visible_grow:
  assumes "room_ok w" and "rows \<noteq> []"
  shows "visible w (butlast rows @ [r]) = butlast (visible w rows) @ [r]"
proof -
  have "0 < fi_height (fb_info w) div 16" using two_rows [OF assms(1)] by simp
  moreover obtain qs q where "rows = qs @ [q]" using assms(2) by (cases rows rule: rev_cases) auto
  ultimately show ?thesis by (auto simp: visible_def butlast_append drop_butlast)
qed

text \<open>Is the current row the last one that fits?\<close>

lemma at_bottom:
  assumes "room_ok w0" and "rows \<noteq> []" and "showing_rows raster w0 rows s"
  shows "fi_height (fb_info w0) < y_pos (writer s) + 32 \<longleftrightarrow> \<not> length (visible w0 rows) < fi_height (fb_info w0) div 16"
    and "y_pos (writer s) + 16 \<le> fi_height (fb_info w0)"
    and "\<not> length (visible w0 rows) < fi_height (fb_info w0) div 16 \<Longrightarrow> 16 \<le> y_pos (writer s)"
proof -
  let ?m = "length (visible w0 rows)" and ?h = "fi_height (fb_info w0)"
  have y: "y_pos (writer s) = 16 * (?m - 1)" using assms(3) by (simp add: showing_rows_def)
  have m: "1 \<le> ?m" "?m \<le> ?h div 16" using visible_length [OF assms(1,2)] by simp_all
  have h: "2 \<le> ?h div 16" using assms(1) by (rule two_rows)
  show "?h < y_pos (writer s) + 32 \<longleftrightarrow> \<not> ?m < ?h div 16" using y m by linarith
  show "y_pos (writer s) + 16 \<le> ?h" using y m by linarith
  show "16 \<le> y_pos (writer s)" if "\<not> ?m < ?h div 16" using y m h that by linarith
qed

lemma cell_pixel_scrolled:
  assumes rows: "length rows = h div 16" and ne: "rows \<noteq> []"
  shows "(if y + 16 < h then cell_pixel raster w rows x (y + 16) else replicate (fi_bytes_per_pixel (fb_info w)) 0) =
    cell_pixel raster w (tl rows @ [[]]) x y"
proof -
  obtain r rs where r: "rows = r # rs" using ne by (cases rows) auto
  have q: "(y + 16) div 16 = Suc (y div 16)" "(y + 16) mod 16 = y mod 16" by simp_all
  consider "y div 16 < length rs" | "y div 16 = length rs" | "length rs < y div 16" by linarith
  then show ?thesis
  proof cases
    case 1
    then have "y + 16 < h" using rows r by simp
    then show ?thesis using 1 by (simp add: cell_pixel_def q r nth_append)
  qed (simp_all add: cell_pixel_def q r nth_append)
qed

lemma newline_shows:
  assumes room: "room_ok w0" and rows: "rows \<noteq> []" and s: "showing_rows raster w0 rows s"
    and cause: "c = 10 \<or> fi_width (fb_info w0) < x_pos (writer s) + 8"
  shows "\<exists>u. bind (gets (\<lambda>s. fi_height (sw_info s) < y_pos (writer s) + 16)) (\<lambda>full.
      bind (if full then scroll else ret ()) (\<lambda>_.
      bind (gets (\<lambda>s. (c = 10 \<or> fi_width (sw_info s) < x_pos (writer s) + 8) \<and> fi_height (sw_info s) < y_pos (writer s) + 32)) (\<lambda>ends.
      if ends then scroll else ret ()))) s = (Ok (), u) \<and> x_pos (writer u) = x_pos (writer s) \<and> sw_info u = sw_info s \<and>
    showing_rows raster w0 (rows @ [[]]) (u\<lparr>writer := fb_newline (writer u)\<rparr>)"
proof -
  let ?H = "fi_height (fb_info w0) div 16" and ?vis = "visible w0 rows"
  note S = s [unfolded showing_rows_def]
  note bottom = at_bottom [OF room rows s]
  have vis: "?vis \<noteq> []" "length ?vis \<le> ?H" using visible_length [OF room rows] by auto
  have step: "16 * (length ?vis - Suc 0) + 16 = 16 * length ?vis" using vis(1) by (cases ?vis) simp_all
  show ?thesis
  proof (cases "length ?vis < ?H")
    case True
    have "cell_pixel raster w0 (?vis @ [[]]) x y = cell_pixel raster w0 ?vis x y" for x y
      by (auto simp: cell_pixel_def nth_append less_Suc_eq)
    then have "showing_rows raster w0 (rows @ [[]]) (s\<lparr>writer := fb_newline (writer s)\<rparr>)"
      using S True vis step unfolding showing_rows_def
      by (simp add: visible_snoc [OF room rows] fb_newline_def LINE_HEIGHT_def Suc_le_eq)
    then show ?thesis using bottom(1,2) True S by (intro exI [of _ s]) (simp add: not_less)
  next
    case False
    obtain v where v: "scroll s = (Ok (), s\<lparr>writer := v\<rparr>)" "fb_info v = fb_info (writer s)" "fb_color v = fb_color (writer s)"
        "x_pos v = x_pos (writer s)" "y_pos v = y_pos (writer s) - 16" "length (fb_buffer v) = length (fb_buffer (writer s))"
      and pv: "\<And>x y. y < fi_height (sw_info s) \<Longrightarrow> x < fi_stride (sw_info s) \<Longrightarrow> pixel v x y =
        (if y + 16 < fi_height (sw_info s) then pixel (writer s) x (y + 16) else replicate (fi_bytes_per_pixel (sw_info s)) 0)"
      using scroll_run [OF showing_sw_ok [OF room s] bottom(3) [OF False]] by blast
    have len: "length ?vis = ?H" using False vis by simp
    have "pixel v x y = cell_pixel raster w0 (tl ?vis @ [[]]) x y" if "y < fi_height (fb_info w0)" "x < fi_stride (fb_info w0)" for x y
      using pv [of y x] that S cell_pixel_scrolled [OF len vis(1), of y raster w0 x] by auto
    then have "showing_rows raster w0 (rows @ [[]]) (s\<lparr>writer := fb_newline v\<rparr>)"
      using S v(2-6) len vis False bottom(3) [OF False] unfolding showing_rows_def
      by (simp add: visible_snoc [OF room rows] fb_newline_def LINE_HEIGHT_def)
    then show ?thesis using bottom(1,2) False S v(1,4) cause by (intro exI [of _ "s\<lparr>writer := v\<rparr>"]) (auto simp: not_less)
  qed
qed

lemma put_shows:
  assumes room: "room_ok w0" and font: "font_ok raster" and rows: "rows \<noteq> []" and s: "showing_rows raster w0 rows s"
    and fits: "length (last rows) < fi_width (fb_info w0) div 8"
  shows "\<exists>v. draw_char raster c (writer s) = (Ok (), v) \<and>
    showing_rows raster w0 (butlast rows @ [last rows @ [c]]) (s\<lparr>writer := v\<lparr>x_pos := x_pos v + CHAR_WIDTH\<rparr>\<rparr>)"
proof -
  let ?vis = "visible w0 rows" and ?w = "writer s" and ?h = "fi_height (fb_info w0)" and ?st = "fi_stride (fb_info w0)"
  let ?row = "last rows" and ?new = "butlast (visible w0 rows) @ [last rows @ [c]]"
  note S = s [unfolded showing_rows_def]
  have vis: "?vis \<noteq> []" using visible_length(2) [OF room rows] by auto
  have row: "last ?vis = ?row" using vis by (rule visible_last)
  have same_ink: "ink ?w = ink w0" using S by (simp add: ink_def fun_eq_iff color_bytes_def)
  have bok: "buffer_ok ?w" "fi_width (fb_info w0) \<le> ?st" using room S by (simp_all add: room_ok_def buffer_ok_def Let_def)
  have y: "y_pos ?w + 16 \<le> fi_height (fb_info ?w)" using at_bottom(2) [OF room rows s] S by simp
  have x: "x_pos ?w + 8 \<le> fi_stride (fb_info ?w)" using S fits bok(2) by simp
  obtain v where v: "draw_char raster c ?w = (Ok (), v)" "same_writer ?w v"
    and pv: "\<And>y' x'. y' < ?h \<Longrightarrow> x' < ?st \<Longrightarrow> pixel v x' y' =
      (if y_pos ?w \<le> y' \<and> y' < y_pos ?w + 16 \<and> x_pos ?w \<le> x' \<and> x' < x_pos ?w + 8
       then ink ?w (glyph raster c ! (y' - y_pos ?w) ! (x' - x_pos ?w)) else pixel ?w x' y')"
    using draw_char_run [OF font bok(1) y x, of c] S by auto
  define q where "q = length ?vis - 1"
  have q: "length ?vis = Suc q" "butlast ?vis ! i = ?vis ! i" if "i < q" for i using vis that by (simp_all add: q_def nth_butlast)
  have "length ?vis = Suc q" using vis by (simp add: q_def)
  have last: "?vis ! q = ?row" using row vis by (simp add: last_conv_nth q_def)
  have pos: "x_pos ?w = 8 * length ?row" "y_pos ?w = 16 * q" using S by (simp_all add: q_def)
  have "pixel v x' y' = cell_pixel raster w0 ?new x' y'" if xy: "y' < ?h" "x' < ?st" for x' y'
  proof -
    have cell: "y_pos ?w \<le> y' \<and> y' < y_pos ?w + 16 \<longleftrightarrow> y' div 16 = q" "x_pos ?w \<le> x' \<and> x' < x_pos ?w + 8 \<longleftrightarrow> x' div 8 = length ?row"
      unfolding pos by linarith+
    have old: "pixel ?w x' y' = cell_pixel raster w0 ?vis x' y'" using S xy by simp
    show ?thesis
    proof (cases "y' div 16 = q")
      case True
      then have y': "y' - y_pos ?w = y' mod 16" "?new ! (y' div 16) = ?row @ [c]" "y' div 16 < length ?new"
          "?vis ! (y' div 16) = ?row" "y' div 16 < length ?vis"
        using vis last \<open>length ?vis = Suc q\<close> by (simp_all add: pos minus_mult_div_eq_mod [symmetric] nth_append)
      show ?thesis
      proof (cases "x' div 8 = length ?row")
        case x': True
        then have "x' - x_pos ?w = x' mod 8" by (simp add: pos minus_mult_div_eq_mod [symmetric])
        then show ?thesis using pv [OF xy] cell True x' y' same_ink by (simp add: cell_pixel_def)
      next
        case False
        then show ?thesis using pv [OF xy] cell True y' old by (auto simp: cell_pixel_def nth_append)
      qed
    next
      case False
      then have "pixel v x' y' = pixel ?w x' y'" using pv [OF xy] cell by auto
      moreover have "cell_pixel raster w0 ?new x' y' = cell_pixel raster w0 ?vis x' y'"
        using False \<open>length ?vis = Suc q\<close> by (auto simp: cell_pixel_def nth_append nth_butlast less_Suc_eq)
      ultimately show ?thesis using old by simp
    qed
  qed
  moreover have "visible w0 (butlast rows @ [?row @ [c]]) = ?new" by (rule visible_grow [OF room rows])
  ultimately have "showing_rows raster w0 (butlast rows @ [?row @ [c]]) (s\<lparr>writer := v\<lparr>x_pos := x_pos v + CHAR_WIDTH\<rparr>\<rparr>)"
    using S v(2) vis unfolding showing_rows_def same_writer_def by (simp add: CHAR_WIDTH_def)
  then show ?thesis using v(1) by blast
qed

lemma bind_head3:
  assumes "bind f (\<lambda>a. bind (g a) (\<lambda>b. bind h k)) s = (Ok x, u)"
  shows "bind f (\<lambda>a. bind (g a) (\<lambda>b. bind h (\<lambda>c. bind (k c) (\<lambda>_. m)))) s = m u"
  using assms by (elim bind_OkE) simp

lemma write_one_shows:
  assumes room: "room_ok w0" and font: "font_ok raster"
    and s: "showing_rows raster w0 (text_rows 10 (fi_width (fb_info w0) div 8) t) s"
  shows "\<exists>v. fb_write_one raster c s = (Ok (), v) \<and> showing_rows raster w0 (text_rows 10 (fi_width (fb_info w0) div 8) (t @ [c])) v"
proof -
  let ?W = "fi_width (fb_info w0) div 8"
  let ?rows = "text_rows 10 ?W t"
  have W: "0 < ?W" using room by (simp add: room_ok_def div_greater_zero_iff)
  have rows: "?rows \<noteq> []" by simp
  note S = s [unfolded showing_rows_def]
  have lastlen: "length (last ?rows) \<le> ?W" by (rule text_rows_last [OF W])
  have wide: "fi_width (fb_info w0) < x_pos (writer s) + 8 \<longleftrightarrow> \<not> length (last ?rows) < ?W" using S by auto
  show ?thesis
  proof (cases "c = 10 \<or> \<not> length (last ?rows) < ?W")
    case False
    then have c: "c \<noteq> 10" "length (last ?rows) < ?W" "\<not> fi_width (fb_info w0) < x_pos (writer s) + 8" using wide by auto
    obtain v where v: "draw_char raster c (writer s) = (Ok (), v)"
        "showing_rows raster w0 (butlast ?rows @ [last ?rows @ [c]]) (s\<lparr>writer := v\<lparr>x_pos := x_pos v + CHAR_WIDTH\<rparr>\<rparr>)"
      using put_shows [OF room font rows s c(2)] by blast
    have "fb_write_one raster c s = (Ok (), s\<lparr>writer := v\<lparr>x_pos := x_pos v + CHAR_WIDTH\<rparr>\<rparr>)"
      using at_bottom(2) [OF room rows s] S c(1,3) v(1)
      by (simp add: fb_write_one_def fb_write_char_def on_writer_def zoom_def bind_def gets_def modify_def CHAR_WIDTH_def not_less)
    then show ?thesis using v(2) c W by (simp add: text_rows_snoc)
  next
    case True
    have cause: "c = 10 \<or> fi_width (fb_info w0) < x_pos (writer s) + 8" using True wide by blast
    from newline_shows [OF room rows s this] obtain u where
      u: "bind (gets (\<lambda>s. fi_height (sw_info s) < y_pos (writer s) + 16)) (\<lambda>full.
        bind (if full then scroll else ret ()) (\<lambda>_.
        bind (gets (\<lambda>s. (c = 10 \<or> fi_width (sw_info s) < x_pos (writer s) + 8) \<and> fi_height (sw_info s) < y_pos (writer s) + 32)) (\<lambda>ends.
        if ends then scroll else ret ()))) s = (Ok (), u)" "x_pos (writer u) = x_pos (writer s)" "sw_info u = sw_info s"
        "showing_rows raster w0 (?rows @ [[]]) (u\<lparr>writer := fb_newline (writer u)\<rparr>)" by blast
    have run: "fb_write_one raster c s = on_writer (fb_write_char raster c) u"
      unfolding fb_write_one_def by (rule bind_head3 [OF u(1)])
    show ?thesis
    proof (cases "c = 10")
      case True
      have "fb_write_one raster c s = (Ok (), u\<lparr>writer := fb_newline (writer u)\<rparr>)"
        unfolding run by (simp add: True fb_write_char_def on_writer_def zoom_def modify_def)
      then show ?thesis using u(4) by (simp add: True text_rows_snoc)
    next
      case False
      then have full: "\<not> length (last ?rows) < ?W" using cause wide by blast
      obtain v where v: "draw_char raster c (fb_newline (writer u)) = (Ok (), v)"
          "showing_rows raster w0 (?rows @ [[c]]) (u\<lparr>writer := v\<lparr>x_pos := x_pos v + CHAR_WIDTH\<rparr>\<rparr>)"
        using put_shows [OF room font _ u(4), of c] W by auto
      have "fi_width (fb_info (writer u)) < x_pos (writer u) + CHAR_WIDTH"
        using u(2,4) full wide by (simp add: CHAR_WIDTH_def showing_rows_def fb_newline_def)
      then have "fb_write_one raster c s = (Ok (), u\<lparr>writer := v\<lparr>x_pos := x_pos v + CHAR_WIDTH\<rparr>\<rparr>)"
        unfolding run using v(1) False by (simp add: fb_write_char_def on_writer_def zoom_def bind_def modify_def)
      then show ?thesis using v(2) full False W by (simp add: text_rows_snoc)
    qed
  qed
qed

definition showing_text :: "(nat \<Rightarrow> u8 list list option) \<Rightarrow> fb_writer \<Rightarrow> nat list \<Rightarrow> scrolling_writer \<Rightarrow> bool" where
  "showing_text raster w0 t s \<longleftrightarrow> showing_rows raster w0 (text_rows 10 (fi_width (fb_info w0) div 8) t) s"

lemma write_str_shows:
  assumes "room_ok w0" and "font_ok raster" and "showing_text raster w0 t s"
  shows "\<exists>v. fb_write_str raster cs s = (Ok (), v) \<and> showing_text raster w0 (t @ cs) v"
  using assms(3)
proof (induction cs arbitrary: t s)
  case (Cons c cs)
  obtain u where u: "fb_write_one raster c s = (Ok (), u)" "showing_text raster w0 (t @ [c]) u"
    using write_one_shows [OF assms(1,2) Cons.prems [unfolded showing_text_def], of c] by (auto simp: showing_text_def)
  obtain v where "fb_write_str raster cs u = (Ok (), v)" "showing_text raster w0 ((t @ [c]) @ cs) v"
    using Cons.IH [OF u(2)] by blast
  then show ?case using u(1) by (simp add: fb_write_str_def)
qed (simp add: fb_write_str_def)

lemma print_pieces_shows:
  assumes "room_ok w0" and "font_ok raster" and "showing_text raster w0 t s"
  shows "\<exists>v. fb_print raster pieces (Some s) = (Ok (), Some v) \<and> showing_text raster w0 (t @ concat pieces) v"
proof -
  have "\<exists>v. foreach pieces (fb_write_str raster) s = (Ok (), v) \<and> showing_text raster w0 (t @ concat pieces) v"
    using assms(3)
  proof (induction pieces arbitrary: t s)
    case (Cons p ps)
    obtain u where u: "fb_write_str raster p s = (Ok (), u)" "showing_text raster w0 (t @ p) u"
      using write_str_shows [OF assms(1,2) Cons.prems] by blast
    obtain v where "foreach ps (fb_write_str raster) u = (Ok (), v)" "showing_text raster w0 ((t @ p) @ concat ps) v"
      using Cons.IH [OF u(2)] by blast
    then show ?case using u(1) by simp
  qed simp
  then show ?thesis by (auto simp: fb_print_def)
qed

text \<open>A new screen is black and shows no text.\<close>

lemma new_shows:
  assumes "room_ok (fb_writer_new buffer info)"
  shows "showing_text raster (fb_writer_new buffer info) [] (scrolling_writer_new buffer info)"
proof -
  let ?w = "fb_clear (fb_writer_new buffer info)"
  have ok: "buffer_ok ?w" using assms by (simp add: room_ok_def buffer_ok_def fb_clear_def fb_writer_new_def)
  have black: "pixel ?w x y = replicate (fi_bytes_per_pixel info) 0" if xy: "y < fi_height info" "x < fi_stride info" for x y
  proof (rule nth_equalityI)
    have "length (fb_buffer ?w) = length buffer" by (simp add: fb_clear_def fb_writer_new_def)
    moreover have "fi_height info * fi_stride info * fi_bytes_per_pixel info \<le> length buffer"
      using assms by (simp add: room_ok_def buffer_ok_def fb_writer_new_def Let_def)
    moreover have i: "fb_info ?w = info" by (simp add: fb_clear_def fb_writer_new_def)
    ultimately show "pixel ?w x y ! j = replicate (fi_bytes_per_pixel info) 0 ! j" if "j < length (pixel ?w x y)" for j
      using pixel_nth [OF ok, of y x] xy that index_less [OF xy, of j "fi_bytes_per_pixel info"]
      by (simp add: fb_clear_def fb_writer_new_def)
    show "length (pixel ?w x y) = length (replicate (fi_bytes_per_pixel info) (0 :: u8))"
      using pixel_nth(1) [OF ok, of y x] xy i by simp
  qed
  have "visible (fb_writer_new buffer info) [[]] = [[]]"
    using two_rows [OF assms] by (simp add: visible_def)
  moreover have "cell_pixel raster (fb_writer_new buffer info) [[]] x y = replicate (fi_bytes_per_pixel info) 0" for x y
    by (cases "y div 16") (simp_all add: cell_pixel_def fb_writer_new_def)
  ultimately show ?thesis
    using black by (simp add: showing_text_def showing_rows_def scrolling_writer_new_def)
      (simp add: fb_clear_def fb_writer_new_def)
qed

end
