(* ===== verification/Tasks.thy ===== *)
theory Tasks
  imports Prelude
begin

text \<open>
  The input of the kernel: the asynchronous tasks of task/keyboard.rs and task/serial_input.rs, the
  executor of task/executor.rs that runs them, and the interrupt handlers that feed them. The crates below
  it are parameters: bounded queues (crossbeam_queue), which an interrupt handler fills while a task
  empties them, and the cell for the waker of a task (futures_util). Their documented behaviour is the
  locale \<open>task_crates\<close>.

  Interrupts arrive between any two operations of the executor, except where it switches them off. The
  executor and the tasks are therefore a step relation, a step for every operation on shared state.
\<close>

section \<open>The crates\<close>

record ('a, 'q) array_queue =
  aq_new :: "nat \<Rightarrow> 'q"
  aq_push :: "'a \<Rightarrow> 'q \<Rightarrow> 'q option"
  aq_pop :: "'q \<Rightarrow> ('a \<times> 'q) option"
  aq_is_empty :: "'q \<Rightarrow> bool"

record ('b, 't, 'w) task_crates =
  byte_queue :: "(u8, 'b) array_queue"
  id_queue :: "(nat, 't) array_queue"
  aw_new :: 'w
  aw_register :: "nat \<Rightarrow> 'w \<Rightarrow> 'w"
  aw_take :: "'w \<Rightarrow> nat option \<times> 'w"

locale bounded_queue =
  fixes Q :: "('a, 'q) array_queue" and content :: "'q \<Rightarrow> 'a list" and capacity :: "'q \<Rightarrow> nat"
  assumes new_queue: "content (aq_new Q n) = [] \<and> capacity (aq_new Q n) = n"
    and push_room: "length (content q) < capacity q \<Longrightarrow>
      \<exists>r. aq_push Q x q = Some r \<and> content r = content q @ [x] \<and> capacity r = capacity q"
    and push_full: "capacity q \<le> length (content q) \<Longrightarrow> aq_push Q x q = None"
    and pop_empty: "content q = [] \<Longrightarrow> aq_pop Q q = None"
    and pop_first: "content q = x # xs \<Longrightarrow> \<exists>r. aq_pop Q q = Some (x, r) \<and> content r = xs \<and> capacity r = capacity q"
    and is_empty: "aq_is_empty Q q \<longleftrightarrow> content q = []"
begin

lemma push_Some: "aq_push Q x q = Some r \<Longrightarrow> content r = content q @ [x] \<and> capacity r = capacity q \<and> length (content q) < capacity q"
  using push_room [of q x] push_full [of q x] by (cases "length (content q) < capacity q") auto

lemma pop_Some: "aq_pop Q q = Some (x, r) \<Longrightarrow> content q = x # content r \<and> capacity r = capacity q"
  using pop_empty [of q] pop_first [of q] by (cases "content q") auto

lemma pop_None: "aq_pop Q q = None \<Longrightarrow> content q = []"
  using pop_first [of q] by (cases "content q") auto

end

section \<open>State\<close>

datatype device = Keyboard | SerialPort

text \<open>Where the processor is: in the loop of \<open>run_ready_tasks\<close>, in \<open>sleep_if_idle\<close> with interrupts on or off, asleep,
  or in a task, before or after an operation of \<open>poll_next\<close>.\<close>

datatype place =
    Ready | Idle | Masked | Asleep
  | Resume device | First device | Register device | Second device | Taken device u8
  | Panicked

text \<open>\<open>inputs\<close> are \<open>SCANCODE_QUEUE\<close> and \<open>INPUT_QUEUE\<close>, \<open>None\<close> before they are initialised; \<open>wakers\<close> the two \<open>WAKER\<close>s;
  \<open>tasks\<close> and \<open>waker_cache\<close> the keys of the executor's maps. \<open>received\<close> and \<open>arrived\<close> are histories: the bytes a task got, and those
  the queue accepted. \<open>warnings\<close> is what was printed.\<close>

record ('b, 't, 'w) task_system =
  tasks :: "nat set"
  task_queue :: 't
  waker_cache :: "nat set"
  inputs :: "device \<Rightarrow> 'b option"
  wakers :: "device \<Rightarrow> 'w"
  place :: place
  received :: "device \<Rightarrow> u8 list"
  arrived :: "device \<Rightarrow> u8 list"
  warnings :: "string list"

definition TASK_MAX :: nat where "TASK_MAX = 100"

text \<open>\<open>Executor::new\<close>, with both queues not initialised.\<close>

definition executor_new :: "('b, 't, 'w) task_crates \<Rightarrow> ('b, 't, 'w) task_system" where
  "executor_new C = \<lparr>tasks = {}, task_queue = aq_new (id_queue C) TASK_MAX, waker_cache = {}, inputs = (\<lambda>_. None),
     wakers = (\<lambda>_. aw_new C), place = Ready, received = (\<lambda>_. []), arrived = (\<lambda>_. []), warnings = []\<rparr>"

text \<open>\<open>TaskId::new\<close>: the ids count up from 0.\<close>

definition TaskId_new :: "nat \<Rightarrow> nat \<times> nat" where
  "TaskId_new next_id = (next_id, next_id + 1)"

definition spawn :: "('b, 't, 'w) task_crates \<Rightarrow> nat \<Rightarrow> (('b, 't, 'w) task_system, unit) program" where
  "spawn C task_id = (\<lambda>s.
     let s' = s\<lparr>tasks := insert task_id (tasks s)\<rparr> in
     if task_id \<in> tasks s then (Panic ''task with same ID already in tasks'', s')
     else case aq_push (id_queue C) task_id (task_queue s') of
       None \<Rightarrow> (Panic ''task queue full'', s')
     | Some q \<Rightarrow> (Ok (), s'\<lparr>task_queue := q\<rparr>))"

section \<open>The interrupt handlers\<close>

definition wake_task :: "('b, 't, 'w) task_crates \<Rightarrow> nat \<Rightarrow> (('b, 't, 'w) task_system, unit) program" where
  "wake_task C task_id = (\<lambda>s. case aq_push (id_queue C) task_id (task_queue s) of
     None \<Rightarrow> (Panic ''task_queue full'', s)
   | Some q \<Rightarrow> (Ok (), s\<lparr>task_queue := q\<rparr>))"

text \<open>\<open>WAKER.wake()\<close>.\<close>

definition wake :: "('b, 't, 'w) task_crates \<Rightarrow> device \<Rightarrow> (('b, 't, 'w) task_system, unit) program" where
  "wake C d = (\<lambda>s. case aw_take C (wakers s d) of
     (None, w) \<Rightarrow> (Ok (), s\<lparr>wakers := (wakers s)(d := w)\<rparr>)
   | (Some task_id, w) \<Rightarrow> wake_task C task_id (s\<lparr>wakers := (wakers s)(d := w)\<rparr>))"

definition enqueue :: "('b, 't, 'w) task_crates \<Rightarrow> device \<Rightarrow> u8 \<Rightarrow> 'b \<Rightarrow> ('b, 't, 'w) task_system \<Rightarrow> ('b, 't, 'w) task_system" where
  "enqueue C d b q s = s\<lparr>inputs := (inputs s)(d := Some q), arrived := (arrived s)(d := arrived s d @ [b])\<rparr>"

definition add_scancode :: "('b, 't, 'w) task_crates \<Rightarrow> u8 \<Rightarrow> (('b, 't, 'w) task_system, unit) program" where
  "add_scancode C scancode = (\<lambda>s. case inputs s Keyboard of
     Some queue \<Rightarrow> (case aq_push (byte_queue C) scancode queue of
         None \<Rightarrow> (Ok (), s\<lparr>warnings := warnings s @ [''WARNING: scancode queue full; dropping keyboard input'']\<rparr>)
       | Some q \<Rightarrow> wake C Keyboard (enqueue C Keyboard scancode q s))
   | None \<Rightarrow> (Ok (), s\<lparr>warnings := warnings s @ [''WARNING: scancode queue uninitalized'']\<rparr>))"

definition add_byte :: "('b, 't, 'w) task_crates \<Rightarrow> u8 \<Rightarrow> (('b, 't, 'w) task_system, unit) program" where
  "add_byte C b = (\<lambda>s. case inputs s SerialPort of
     Some queue \<Rightarrow> (case aq_push (byte_queue C) b queue of
         None \<Rightarrow> (Panic ''serial_input queue is full'', s)
       | Some q \<Rightarrow> wake C SerialPort (enqueue C SerialPort b q s))
   | None \<Rightarrow> (Ok (), s))"

text \<open>\<open>keyboard_interrupt_handler\<close> and \<open>serial_interrupt_handler\<close>, for the byte that the port reads.\<close>

definition input_interrupt :: "('b, 't, 'w) task_crates \<Rightarrow> device \<Rightarrow> u8 \<Rightarrow> (('b, 't, 'w) task_system, unit) program" where
  "input_interrupt C d byte = (case d of Keyboard \<Rightarrow> add_scancode C byte | SerialPort \<Rightarrow> add_byte C byte)"

section \<open>The streams\<close>

text \<open>\<open>ScancodeStream::new\<close> and \<open>SerialInputStream::new\<close>.\<close>

definition stream_new :: "('b, 't, 'w) task_crates \<Rightarrow> device \<Rightarrow> (('b, 't, 'w) task_system, unit) program" where
  "stream_new C d = (\<lambda>s. case inputs s d of
     None \<Rightarrow> (Ok (), s\<lparr>inputs := (inputs s)(d := Some (aq_new (byte_queue C) 100))\<rparr>)
   | Some _ \<Rightarrow> (Panic ''new should only be called once'', s))"

text \<open>\<open>queue.pop()\<close> on the queue of a device.\<close>

definition pop_input :: "('b, 't, 'w) task_crates \<Rightarrow> device \<Rightarrow> (('b, 't, 'w) task_system, u8 option) program" where
  "pop_input C d = (\<lambda>s. case inputs s d of
     None \<Rightarrow> (Panic ''not initialized'', s)
   | Some queue \<Rightarrow> (case aq_pop (byte_queue C) queue of
       None \<Rightarrow> (Ok None, s)
     | Some (b, q) \<Rightarrow> (Ok (Some b), s\<lparr>inputs := (inputs s)(d := Some q)\<rparr>)))"

definition register_waker :: "('b, 't, 'w) task_crates \<Rightarrow> device \<Rightarrow> nat \<Rightarrow> (('b, 't, 'w) task_system, unit) program" where
  "register_waker C d task_id = modify (\<lambda>s. s\<lparr>wakers := (wakers s)(d := aw_register C task_id (wakers s d))\<rparr>)"

definition take_waker :: "('b, 't, 'w) task_crates \<Rightarrow> device \<Rightarrow> (('b, 't, 'w) task_system, unit) program" where
  "take_waker C d = modify (\<lambda>s. s\<lparr>wakers := (wakers s)(d := snd (aw_take C (wakers s d)))\<rparr>)"

text \<open>\<open>poll_next\<close>; \<open>None\<close> is \<open>Poll::Pending\<close>.\<close>

definition poll_next :: "('b, 't, 'w) task_crates \<Rightarrow> device \<Rightarrow> nat \<Rightarrow> (('b, 't, 'w) task_system, u8 option) program" where
  "poll_next C d task_id =
     bind (pop_input C d) (\<lambda>x. case x of
       Some b \<Rightarrow> ret (Some b)
     | None \<Rightarrow>
         bind (register_waker C d task_id) (\<lambda>_.
         bind (pop_input C d) (\<lambda>y. case y of
           Some b \<Rightarrow> bind (take_waker C d) (\<lambda>_. ret (Some b))
         | None \<Rightarrow> ret None)))"

text \<open>What \<open>thread_serial_input\<close> prints for a byte.\<close>

definition echo :: "u8 \<Rightarrow> nat list" where
  "echo b = (if b = 0x0d \<or> b = 0x0a then [10]
     else if b = 0x7f \<or> b = 0x08 then [8, 32, 8]
     else if 0x20 \<le> b \<and> b \<le> 0x7e then [unat b]
     else [])"

section \<open>The executor among interrupts\<close>

text \<open>The tasks spawned by \<open>keyboard_and_serial_input_thread\<close>, first the keyboard's, then that of the serial port.\<close>

definition task_of :: "device \<Rightarrow> nat" where
  "task_of d = (case d of Keyboard \<Rightarrow> 0 | SerialPort \<Rightarrow> 1)"

definition boot_tasks :: "('b, 't, 'w) task_crates \<Rightarrow> (('b, 't, 'w) task_system, unit) program" where
  "boot_tasks C =
     (case TaskId_new 0 of (k, n) \<Rightarrow> bind (spawn C k) (\<lambda>_.
      case TaskId_new n of (i, n) \<Rightarrow> spawn C i))"

text \<open>A program that runs and leaves the processor in a given place, unless it panics.\<close>

definition then_at :: "('a \<Rightarrow> place) \<Rightarrow> (('b, 't, 'w) task_system, 'a) program \<Rightarrow> ('b, 't, 'w) task_system \<Rightarrow> ('b, 't, 'w) task_system" where
  "then_at at p s = (case p s of (Ok a, t) \<Rightarrow> t\<lparr>place := at a\<rparr> | (_, t) \<Rightarrow> t\<lparr>place := Panicked\<rparr>)"

text \<open>A task gets a byte and goes on with the next \<open>poll_next\<close>. The futures of the tasks never complete.\<close>

definition deliver :: "device \<Rightarrow> u8 \<Rightarrow> ('b, 't, 'w) task_system \<Rightarrow> ('b, 't, 'w) task_system" where
  "deliver d b s = s\<lparr>received := (received s)(d := received s d @ [b]), place := First d\<rparr>"

text \<open>The next step of the processor when no interrupt arrives.\<close>

definition next_step :: "('b, 't, 'w) task_crates \<Rightarrow> ('b, 't, 'w) task_system \<Rightarrow> ('b, 't, 'w) task_system" where
  "next_step C s = (case place s of
       Ready \<Rightarrow> (case aq_pop (id_queue C) (task_queue s) of
           None \<Rightarrow> s\<lparr>place := Idle\<rparr>
         | Some (i, q) \<Rightarrow>
             let s' = s\<lparr>task_queue := q\<rparr> in
             if i \<notin> tasks s then s'
             else s'\<lparr>waker_cache := insert i (waker_cache s), place := Resume (if i = task_of Keyboard then Keyboard else SerialPort)\<rparr>)
     | Idle \<Rightarrow> s\<lparr>place := Masked\<rparr>
     | Masked \<Rightarrow> s\<lparr>place := (if aq_is_empty (id_queue C) (task_queue s) then Asleep else Ready)\<rparr>
     | Asleep \<Rightarrow> s
     | Resume d \<Rightarrow> (if inputs s d = None then then_at (\<lambda>_. First d) (stream_new C d) s else s\<lparr>place := First d\<rparr>)
     | First d \<Rightarrow> (case pop_input C d s of
           (Ok (Some b), t) \<Rightarrow> deliver d b t
         | (Ok None, t) \<Rightarrow> t\<lparr>place := Register d\<rparr>
         | (_, t) \<Rightarrow> t\<lparr>place := Panicked\<rparr>)
     | Register d \<Rightarrow> then_at (\<lambda>_. Second d) (register_waker C d (task_of d)) s
     | Second d \<Rightarrow> then_at (\<lambda>x. case x of Some b \<Rightarrow> Taken d b | None \<Rightarrow> Ready) (pop_input C d) s
     | Taken d b \<Rightarrow> deliver d b (snd (take_waker C d s))
     | Panicked \<Rightarrow> s)"

text \<open>An interrupt, which wakes the processor.\<close>

definition interrupted :: "('b, 't, 'w) task_crates \<Rightarrow> device \<Rightarrow> u8 \<Rightarrow> ('b, 't, 'w) task_system \<Rightarrow> ('b, 't, 'w) task_system" where
  "interrupted C d byte s = then_at (\<lambda>_. if place s = Asleep then Ready else place s) (input_interrupt C d byte) s"

inductive task_step :: "('b, 't, 'w) task_crates \<Rightarrow> ('b, 't, 'w) task_system \<Rightarrow> ('b, 't, 'w) task_system \<Rightarrow> bool" for C where
  run: "task_step C s (next_step C s)"
| interrupt: "place s \<noteq> Masked \<Longrightarrow> place s \<noteq> Panicked \<Longrightarrow> task_step C s (interrupted C d byte s)"

inductive task_reach :: "('b, 't, 'w) task_crates \<Rightarrow> ('b, 't, 'w) task_system \<Rightarrow> bool" for C where
  boot: "boot_tasks C (executor_new C) = (Ok (), s) \<Longrightarrow> task_reach C s"
| step: "task_reach C s \<Longrightarrow> task_step C s t \<Longrightarrow> task_reach C t"

inductive_cases task_step_cases: "task_step C s t"

section \<open>The simple executor\<close>

text \<open>\<open>SimpleExecutor\<close> of task/simple_executor.rs, for the poll function of the tasks: a task that is not ready goes to the end of the
  queue. \<open>None\<close> is a run that does not end.\<close>

definition simple_spawn :: "'k \<Rightarrow> 'k list \<Rightarrow> 'k list" where
  "simple_spawn task q = q @ [task]"

partial_function (option) simple_run :: "('k \<Rightarrow> 's \<Rightarrow> 'k option \<times> 's) \<Rightarrow> 'k list \<Rightarrow> 's \<Rightarrow> 's option" where
  "simple_run poll q s = (case q of
     [] \<Rightarrow> Some s
   | task # q' \<Rightarrow> (case poll task s of
       (None, t) \<Rightarrow> simple_run poll q' t
     | (Some task', t) \<Rightarrow> simple_run poll (q' @ [task']) t))"

lemma simple_run_returns:
  assumes "\<And>k s k' t. poll k s = (Some k', t) \<Longrightarrow> (polls_left k' :: nat) < polls_left k"
  shows "\<exists>t. simple_run poll q s = Some t"
proof (induction "length q + sum_list (map polls_left q)" arbitrary: q s rule: less_induct)
  case less
  show ?case
  proof (cases q)
    case Nil
    then show ?thesis by (subst simple_run.simps) simp
  next
    case (Cons k q')
    obtain r t where r: "poll k s = (r, t)" by fastforce
    show ?thesis
    proof (cases r)
      case None
      then show ?thesis using less [of q' t] r Cons by (subst simple_run.simps) simp
    next
      case (Some k')
      then have "polls_left k' < polls_left k" using assms r by blast
      then show ?thesis using less [of "q' @ [k']" t] r Cons Some by (subst simple_run.simps) simp
    qed
  qed
qed

end
