(* ===== verification/TaskProps.thy ===== *)
theory TaskProps
  imports Tasks
begin

text \<open>
  The properties of the input tasks: no wake-up is lost, whenever the interrupts arrive; the bytes that
  the queues accept reach their task in order; without further interrupts everything is served and the
  processor goes to sleep; and a burst of bytes on the serial port panics the kernel. The crates are those
  of \<open>task_crates\<close>, of which queues kept as lists are an instance.
\<close>

locale task_crates =
  bytes: bounded_queue "byte_queue C" bcontent bcap + ids: bounded_queue "id_queue C" icontent icap
  for C :: "('b, 't, 'w) task_crates" and bcontent :: "'b \<Rightarrow> u8 list" and bcap and icontent :: "'t \<Rightarrow> nat list" and icap +
  fixes holds :: "'w \<Rightarrow> nat option"
  assumes new_waker: "holds (aw_new C) = None"
    and registered: "holds (aw_register C i w) = Some i"
    and taken: "aw_take C w = (r, v) \<Longrightarrow> r = holds w \<and> holds v = None"
begin

definition pending :: "('b, 't, 'w) task_system \<Rightarrow> device \<Rightarrow> u8 list" where
  "pending s d = (case inputs s d of None \<Rightarrow> [] | Some q \<Rightarrow> bcontent q)"

definition in_task :: "device \<Rightarrow> place \<Rightarrow> bool" where
  "in_task d p \<longleftrightarrow> p = Resume d \<or> p = First d \<or> p = Register d \<or> p = Second d \<or> (\<exists>b. p = Taken d b)"

text \<open>The byte on its way to the task.\<close>

definition on_way :: "device \<Rightarrow> place \<Rightarrow> u8 list" where
  "on_way d p = (case p of Taken e b \<Rightarrow> if e = d then [b] else [] | _ \<Rightarrow> [])"

text \<open>A task that is not running is queued, or has its waker registered and nothing to read.\<close>

definition device_ok :: "device \<Rightarrow> ('b, 't, 'w) task_system \<Rightarrow> bool" where
  "device_ok d s \<longleftrightarrow> (let queued = task_of d \<in> set (icontent (task_queue s)); waker = holds (wakers s d) in
     (\<not> in_task d (place s) \<longrightarrow> queued \<or> waker = Some (task_of d) \<and> pending s d = []) \<and>
     (place s = Second d \<longrightarrow> queued \<or> waker = Some (task_of d)) \<and>
     (waker = None \<or> waker = Some (task_of d) \<and> inputs s d \<noteq> None) \<and>
     (in_task d (place s) \<and> place s \<noteq> Resume d \<longrightarrow> inputs s d \<noteq> None) \<and>
     (\<forall>q. inputs s d = Some q \<longrightarrow> bcap q = 100) \<and>
     arrived s d = received s d @ on_way d (place s) @ pending s d)"

definition system_ok :: "('b, 't, 'w) task_system \<Rightarrow> bool" where
  "system_ok s \<longleftrightarrow> place s = Panicked \<or> tasks s = range task_of \<and> icap (task_queue s) = 100 \<and>
     (place s = Asleep \<longrightarrow> icontent (task_queue s) = []) \<and> (\<forall>d. device_ok d s)"

lemma all_devices: "(\<forall>d. P d) \<longleftrightarrow> P Keyboard \<and> P SerialPort"
  by (metis device.exhaust)

lemma task_of_inj: "task_of d = task_of e \<longleftrightarrow> d = e"
  by (simp add: task_of_def split: device.splits)

lemma tasks_range: "range task_of = {0, 1}"
  by (auto simp: task_of_def image_iff split: device.splits)

lemma boot_ok:
  assumes "boot_tasks C (executor_new C) = (Ok (), s)"
  shows "system_ok s"
proof -
  have new: "icontent (aq_new (id_queue C) 100) = []" "icap (aq_new (id_queue C) 100) = 100" using ids.new_queue by auto
  from ids.push_room [of "aq_new (id_queue C) 100" 0] obtain q where
    q: "aq_push (id_queue C) 0 (aq_new (id_queue C) 100) = Some q" "icontent q = [0]" "icap q = 100" using new by auto
  from ids.push_room [of q 1] obtain r where r: "aq_push (id_queue C) 1 q = Some r" "icontent r = [0, 1]" "icap r = 100" using q new by auto
  have s: "s = (executor_new C)\<lparr>tasks := {1, 0}, task_queue := r\<rparr>"
    using assms q r by (simp add: boot_tasks_def TaskId_new_def spawn_def executor_new_def TASK_MAX_def bind_def Let_def)
  show ?thesis
    unfolding s
    by (auto simp: system_ok_def executor_new_def tasks_range device_ok_def Let_def r(2,3) task_of_def new_waker pending_def on_way_def in_task_def
        split: device.splits)
qed

lemma wake_run:
  assumes "wake C d s = (r, t)" and "holds (wakers s d) = None \<or> holds (wakers s d) = Some (task_of d)"
  shows "(\<exists>e. r = Panic e) \<or> r = Ok () \<and> (\<exists>q w. t = s\<lparr>wakers := (wakers s)(d := w), task_queue := q\<rparr> \<and> holds w = None \<and> icap q = icap (task_queue s) \<and>
    icontent q = icontent (task_queue s) @ (if holds (wakers s d) = None then [] else [task_of d]))"
proof -
  obtain x w where x: "aw_take C (wakers s d) = (x, w)" by fastforce
  note T = taken [OF x]
  show ?thesis
  proof (cases x)
    case None
    then have "t = s\<lparr>wakers := (wakers s)(d := w), task_queue := task_queue s\<rparr> \<and> r = Ok ()" using assms(1) x by (auto simp: wake_def)
    then show ?thesis using T None by (intro disjI2) (auto intro!: exI [of _ "task_queue s"] exI [of _ w])
  next
    case (Some i)
    then have i: "holds (wakers s d) = Some (task_of d)" "i = task_of d" using T assms(2) by auto
    show ?thesis
    proof (cases "aq_push (id_queue C) i (task_queue s)")
      case None
      then show ?thesis using assms(1) x Some by (simp add: wake_def wake_task_def) blast
    next
      case (Some q)
      have "t = s\<lparr>wakers := (wakers s)(d := w), task_queue := q\<rparr> \<and> r = Ok ()"
        using assms(1) x \<open>x = Some i\<close> Some by (auto simp: wake_def wake_task_def)
      then show ?thesis using T ids.push_Some [OF Some] i by (intro disjI2) (auto intro!: exI [of _ q] exI [of _ w])
    qed
  qed
qed

text \<open>An interrupt queues its byte and wakes the task, drops the byte, or panics.\<close>

lemma input_interrupt_run:
  assumes "input_interrupt C d b s = (r, t)" and "holds (wakers s d) = None \<or> holds (wakers s d) = Some (task_of d)"
  shows "(\<exists>e. r = Panic e) \<or> r = Ok () \<and>
    ((\<exists>ws. t = s\<lparr>warnings := ws\<rparr>) \<or>
     (\<exists>p p' q w. inputs s d = Some p \<and> bcontent p' = bcontent p @ [b] \<and> bcap p' = bcap p \<and>
        t = (enqueue C d b p' s)\<lparr>wakers := (wakers s)(d := w), task_queue := q\<rparr> \<and> holds w = None \<and> icap q = icap (task_queue s) \<and>
        icontent q = icontent (task_queue s) @ (if holds (wakers s d) = None then [] else [task_of d])))"
proof (cases "inputs s d")
  case None
  have "t = s\<lparr>warnings := warnings t\<rparr> \<and> r = Ok ()"
    using assms(1) None by (cases d) (auto simp: input_interrupt_def add_scancode_def add_byte_def)
  then show ?thesis by blast
next
  case (Some p)
  show ?thesis
  proof (cases "aq_push (byte_queue C) b p")
    case None
    then have "(\<exists>e. r = Panic e) \<or> t = s\<lparr>warnings := warnings t\<rparr> \<and> r = Ok ()"
      using assms(1) Some by (cases d) (auto simp: input_interrupt_def add_scancode_def add_byte_def)
    then show ?thesis by blast
  next
    case (Some p')
    have run: "wake C d (enqueue C d b p' s) = (r, t)"
      using assms(1) Some \<open>inputs s d = Some p\<close>
      by (cases d) (simp_all add: input_interrupt_def add_scancode_def add_byte_def)
    have same: "wakers (enqueue C d b p' s) = wakers s" "task_queue (enqueue C d b p' s) = task_queue s"
      by (simp_all add: enqueue_def)
    show ?thesis
      using wake_run [OF run, unfolded same, OF assms(2)] bytes.push_Some [OF Some] \<open>inputs s d = Some p\<close> by blast
  qed
qed

lemma interrupted_ok:
  assumes ok: "system_ok s" and p: "place s \<noteq> Masked" "place s \<noteq> Panicked"
  shows "system_ok (interrupted C d b s)"
proof -
  obtain r t where run: "input_interrupt C d b s = (r, t)" by fastforce
  have D: "device_ok e s" for e using ok p by (simp add: system_ok_def)
  have w: "holds (wakers s d) = None \<or> holds (wakers s d) = Some (task_of d)" using D [of d] by (auto simp: device_ok_def Let_def)
  let ?p = "if place s = Asleep then Ready else place s"
  have place': "\<not> in_task e ?p \<longleftrightarrow> \<not> in_task e (place s)" "on_way e ?p = on_way e (place s)" "?p = Second e \<longleftrightarrow> place s = Second e"
      "in_task e ?p \<and> ?p \<noteq> Resume e \<longleftrightarrow> in_task e (place s) \<and> place s \<noteq> Resume e" for e
    by (auto simp: in_task_def on_way_def)
  from input_interrupt_run [OF run w] show ?thesis
  proof (elim disjE exE conjE, goal_cases)
    case (1 e)
    then show ?case by (simp add: interrupted_def then_at_def run system_ok_def)
  next
    case (2 ws)
    then have i: "interrupted C d b s = s\<lparr>warnings := ws, place := ?p\<rparr>" by (simp add: interrupted_def then_at_def run)
    have "device_ok e (interrupted C d b s)" for e
      unfolding i device_ok_def pending_def using D [of e] place' [of e] by (simp add: device_ok_def pending_def Let_def)
    then show ?case unfolding system_ok_def using ok p by (simp add: system_ok_def i)
  next
    case (3 q q' ids w)
    then have i: "interrupted C d b s = (enqueue C d b q' s)\<lparr>wakers := (wakers s)(d := w), task_queue := ids, place := ?p\<rparr>"
      by (simp add: interrupted_def then_at_def run)
    have "device_ok e (interrupted C d b s)" for e
    proof (cases "e = d")
      case True
      then show ?thesis
        unfolding i device_ok_def pending_def enqueue_def using D [of e] place' [of e] 3 by (auto simp: device_ok_def pending_def Let_def)
    next
      case False
      then show ?thesis
        unfolding i device_ok_def pending_def enqueue_def using D [of e] place' [of e] 3 by (auto simp: device_ok_def pending_def Let_def)
    qed
    then show ?case unfolding system_ok_def using ok p \<open>icap ids = icap (task_queue s)\<close> by (simp add: system_ok_def i enqueue_def)
  qed
qed

text \<open>The step of the processor itself, and what it does to the amount of work that is left.\<close>

definition rank :: "('b, 't, 'w) task_system \<Rightarrow> nat" where
  "rank s = (let idle = icontent (task_queue s) = [] in case place s of
       Asleep \<Rightarrow> 0 | Panicked \<Rightarrow> 0 | Masked \<Rightarrow> if idle then 1 else 4 | Idle \<Rightarrow> if idle then 2 else 5
     | Ready \<Rightarrow> 3 | Second d \<Rightarrow> 4 | Register d \<Rightarrow> 5 | First d \<Rightarrow> 6 | Resume d \<Rightarrow> 7 | Taken d b \<Rightarrow> 7)"

definition work :: "('b, 't, 'w) task_system \<Rightarrow> nat" where
  "work s = 8 * (length (icontent (task_queue s)) + length (pending s Keyboard) + length (pending s SerialPort)) + rank s"

definition progress :: "('b, 't, 'w) task_system \<Rightarrow> ('b, 't, 'w) task_system \<Rightarrow> bool" where
  "progress s t \<longleftrightarrow> system_ok t \<and> place t \<noteq> Panicked \<and> arrived t = arrived s \<and> (place s \<noteq> Asleep \<longrightarrow> work t < work s)"

lemma pop_input_run:
  assumes "inputs s d = Some q"
  shows "pop_input C d s = (Ok None, s) \<and> pending s d = [] \<or>
    (\<exists>b r. pop_input C d s = (Ok (Some b), s\<lparr>inputs := (inputs s)(d := Some r)\<rparr>) \<and> pending s d = b # bcontent r \<and> bcap r = bcap q)"
proof (cases "aq_pop (byte_queue C) q")
  case None
  then show ?thesis using assms bytes.pop_None [OF None] by (simp add: pop_input_def pending_def)
next
  case (Some x)
  obtain b r where x: "x = (b, r)" by fastforce
  have "pop_input C d s = (Ok (Some b), s\<lparr>inputs := (inputs s)(d := Some r)\<rparr>)" using assms Some by (simp add: pop_input_def x)
  moreover have "pending s d = b # bcontent r" "bcap r = bcap q"
    using assms Some bytes.pop_Some [of q b r] by (simp_all add: pending_def x)
  ultimately show ?thesis by blast
qed

lemma next_step_ready:
  assumes ok: "system_ok s" and p: "place s = Ready"
  shows "progress s (next_step C s)"
proof (cases "aq_pop (id_queue C) (task_queue s)")
  case None
  have e: "icontent (task_queue s) = []" using ids.pop_None [OF None] .
  have n: "next_step C s = s\<lparr>place := Idle\<rparr>" using p None by (simp add: next_step_def)
  have "device_ok d s \<Longrightarrow> device_ok d (s\<lparr>place := Idle\<rparr>)" for d
    by (auto simp: device_ok_def pending_def in_task_def on_way_def p Let_def)
  then show ?thesis using ok p e by (simp add: n progress_def system_ok_def work_def rank_def pending_def)
next
  case (Some x)
  obtain i q where x: "x = (i, q)" by fastforce
  have e: "icontent (task_queue s) = i # icontent q" "icap q = icap (task_queue s)" using ids.pop_Some [of "task_queue s" i q] Some x by simp_all
  show ?thesis
  proof (cases "i \<in> range task_of")
    case False
    then have n: "next_step C s = s\<lparr>task_queue := q\<rparr>" using p Some x ok by (simp add: next_step_def system_ok_def)
    have "device_ok d s \<Longrightarrow> device_ok d (s\<lparr>task_queue := q\<rparr>)" for d
      using False by (auto simp: device_ok_def pending_def in_task_def on_way_def p Let_def e)
    then show ?thesis using ok p e by (simp add: n progress_def system_ok_def work_def rank_def pending_def)
  next
    case True
    then obtain d where d: "i = task_of d" by blast
    have "(if i = task_of Keyboard then Keyboard else SerialPort) = d" unfolding d by (cases d) (simp_all add: task_of_def)
    then have n: "next_step C s = s\<lparr>task_queue := q, waker_cache := insert i (waker_cache s), place := Resume d\<rparr>"
      using p Some x ok True by (simp add: next_step_def system_ok_def Let_def)
    have "device_ok f s \<Longrightarrow> device_ok f (s\<lparr>task_queue := q, waker_cache := insert i (waker_cache s), place := Resume d\<rparr>)" for f
      using d task_of_inj [of f d] by (auto simp: device_ok_def pending_def in_task_def on_way_def p Let_def e)
    then show ?thesis using ok p e by (simp add: n progress_def system_ok_def work_def rank_def pending_def)
  qed
qed

lemma device_ok_place:
  assumes "device_ok d s" and "\<not> in_task d (place s)" and "\<not> in_task d p"
  shows "device_ok d (s\<lparr>place := p\<rparr>)"
proof -
  have q: "on_way d q = []" "q \<noteq> Second d" if "\<not> in_task d q" for q
    using that by (auto simp: in_task_def on_way_def split: place.splits)
  show ?thesis
    using assms q [OF assms(2)] q [OF assms(3)] by (simp add: device_ok_def pending_def Let_def)
qed

lemma next_step_idle:
  assumes ok: "system_ok s" and p: "place s = Idle \<or> place s = Masked \<or> place s = Asleep"
  shows "progress s (next_step C s)"
proof -
  have D: "device_ok d s" "\<not> in_task d (place s)" for d using ok p by (auto simp: system_ok_def in_task_def)
  have T: "tasks s = range task_of" "icap (task_queue s) = 100" using ok p by (auto simp: system_ok_def)
  have go: "device_ok d (s\<lparr>place := q\<rparr>)" if "q = Masked \<or> q = Asleep \<or> q = Ready" for d q
    using D that by (intro device_ok_place) (auto simp: in_task_def)
  from p show ?thesis
  proof (elim disjE)
    assume p: "place s = Idle"
    have n: "next_step C s = s\<lparr>place := Masked\<rparr>" using p by (simp add: next_step_def)
    show ?thesis using T go p by (simp add: n progress_def system_ok_def work_def rank_def pending_def)
  next
    assume p: "place s = Masked"
    have n: "next_step C s = s\<lparr>place := (if icontent (task_queue s) = [] then Asleep else Ready)\<rparr>"
      using p ids.is_empty by (simp add: next_step_def)
    show ?thesis using T go p by (simp add: n progress_def system_ok_def work_def rank_def pending_def)
  next
    assume p: "place s = Asleep"
    then have "next_step C s = s" by (simp add: next_step_def)
    then show ?thesis using ok p by (simp add: progress_def)
  qed
qed

lemma work_pop:
  assumes "pending s d = b # bs" and "pending t d = bs" and "\<And>e. e \<noteq> d \<Longrightarrow> pending t e = pending s e" and "task_queue t = task_queue s"
    and "rank t \<le> rank s + 7"
  shows "work t < work s"
  using assms by (cases d) (simp_all add: work_def)

lemma next_step_task:
  assumes ok: "system_ok s" and p: "place s = Resume d \<or> place s = First d \<or> place s = Register d \<or> place s = Second d \<or> (\<exists>b. place s = Taken d b)"
  shows "progress s (next_step C s)"
proof -
  have D: "device_ok e s" for e using ok p by (auto simp: system_ok_def)
  have T: "tasks s = range task_of" "icap (task_queue s) = 100" using ok p by (auto simp: system_ok_def)
  note unfold = device_ok_def pending_def in_task_def on_way_def Let_def
  from p show ?thesis
  proof (elim disjE exE)
    assume p: "place s = Resume d"
    show ?thesis
    proof (cases "inputs s d")
      case None
      let ?t = "s\<lparr>inputs := (inputs s)(d := Some (aq_new (byte_queue C) 100)), place := First d\<rparr>"
      have n: "next_step C s = ?t" using p None by (simp add: next_step_def then_at_def stream_new_def)
      have "device_ok e ?t" for e
        using D [of e] None p bytes.new_queue [of 100] by (cases "e = d") (auto simp: unfold)
      moreover have "pending ?t = pending s" using None bytes.new_queue [of 100] by (auto simp: fun_eq_iff pending_def)
      ultimately show ?thesis using T p by (simp add: n progress_def system_ok_def work_def rank_def)
    next
      case (Some q)
      have n: "next_step C s = s\<lparr>place := First d\<rparr>" using p Some by (simp add: next_step_def)
      have "device_ok e (s\<lparr>place := First d\<rparr>)" for e using D [of e] Some p by (cases "e = d") (auto simp: unfold)
      then show ?thesis using T p by (simp add: n progress_def system_ok_def work_def rank_def pending_def)
    qed
  next
    assume p: "place s = First d"
    then obtain q where q: "inputs s d = Some q" using D [of d] by (auto simp: device_ok_def in_task_def Let_def)
    from pop_input_run [OF q] show ?thesis
    proof (elim disjE exE conjE)
      assume r: "pop_input C d s = (Ok None, s)"
      then have n: "next_step C s = s\<lparr>place := Register d\<rparr>" using p by (simp add: next_step_def)
      have "device_ok e (s\<lparr>place := Register d\<rparr>)" for e using D [of e] q p by (cases "e = d") (auto simp: unfold)
      then show ?thesis using T p by (simp add: n progress_def system_ok_def work_def rank_def pending_def)
    next
      fix b r assume r: "pop_input C d s = (Ok (Some b), s\<lparr>inputs := (inputs s)(d := Some r)\<rparr>)" "pending s d = b # bcontent r" "bcap r = bcap q"
      let ?t = "deliver d b (s\<lparr>inputs := (inputs s)(d := Some r)\<rparr>)"
      have n: "next_step C s = ?t" using p r(1) by (simp add: next_step_def)
      have "device_ok e ?t" for e using D [of e] q p r(2,3) by (cases "e = d") (auto simp: unfold deliver_def)
      moreover have "work ?t < work s"
        by (rule work_pop [OF r(2)]) (auto simp: pending_def deliver_def rank_def p)
      ultimately show ?thesis using T p by (simp add: n progress_def system_ok_def deliver_def)
    qed
  next
    assume p: "place s = Register d"
    let ?t = "s\<lparr>wakers := (wakers s)(d := aw_register C (task_of d) (wakers s d)), place := Second d\<rparr>"
    have n: "next_step C s = ?t" using p by (simp add: next_step_def then_at_def register_waker_def modify_def)
    have "device_ok e ?t" for e using D [of e] p registered by (cases "e = d") (auto simp: unfold)
    then show ?thesis using T p by (simp add: n progress_def system_ok_def work_def rank_def pending_def)
  next
    assume p: "place s = Second d"
    then obtain q where q: "inputs s d = Some q" using D [of d] by (auto simp: device_ok_def in_task_def Let_def)
    from pop_input_run [OF q] show ?thesis
    proof (elim disjE exE conjE)
      assume r: "pop_input C d s = (Ok None, s)" "pending s d = []"
      then have n: "next_step C s = s\<lparr>place := Ready\<rparr>" using p by (simp add: next_step_def then_at_def)
      have "device_ok e (s\<lparr>place := Ready\<rparr>)" for e using D [of e] q p r(2) by (cases "e = d") (auto simp: unfold)
      then show ?thesis using T p by (simp add: n progress_def system_ok_def work_def rank_def pending_def)
    next
      fix b r assume r: "pop_input C d s = (Ok (Some b), s\<lparr>inputs := (inputs s)(d := Some r)\<rparr>)" "pending s d = b # bcontent r" "bcap r = bcap q"
      let ?t = "s\<lparr>inputs := (inputs s)(d := Some r), place := Taken d b\<rparr>"
      have n: "next_step C s = ?t" using p r(1) by (simp add: next_step_def then_at_def)
      have "device_ok e ?t" for e using D [of e] q p r(2,3) by (cases "e = d") (auto simp: unfold)
      moreover have "work ?t < work s" by (rule work_pop [OF r(2)]) (auto simp: pending_def rank_def p)
      ultimately show ?thesis using T p by (simp add: n progress_def system_ok_def)
    qed
  next
    fix b assume p: "place s = Taken d b"
    obtain x w where x: "aw_take C (wakers s d) = (x, w)" by fastforce
    let ?t = "deliver d b (s\<lparr>wakers := (wakers s)(d := w)\<rparr>)"
    have n: "next_step C s = ?t" using p x by (simp add: next_step_def take_waker_def modify_def)
    have "device_ok e ?t" for e using D [of e] p taken [OF x] by (cases "e = d") (auto simp: unfold deliver_def)
    then show ?thesis using T p by (simp add: n progress_def system_ok_def work_def rank_def pending_def deliver_def)
  qed
qed

lemma next_step_progress:
  assumes "system_ok s" and "place s \<noteq> Panicked"
  shows "progress s (next_step C s)"
proof (cases "place s")
  case Ready
  then show ?thesis by (rule next_step_ready [OF assms(1)])
next
  case Panicked
  then show ?thesis using assms(2) by simp
qed (use next_step_idle [OF assms(1)] next_step_task [OF assms(1)] in blast)+

lemma reach_ok:
  assumes "task_reach C s"
  shows "system_ok s"
  using assms
proof induction
  case (boot s)
  then show ?case by (rule boot_ok)
next
  case (step s t)
  show ?case
  proof (cases "place s = Panicked")
    case True
    then have "t = s" using step.hyps(2) by (auto simp: next_step_def elim!: task_step_cases)
    then show ?thesis using step.IH by simp
  next
    case False
    from step.hyps(2) show ?thesis
      using next_step_progress [OF step.IH False] interrupted_ok [OF step.IH _ False]
      by (cases rule: task_step_cases) (auto simp: progress_def)
  qed
qed

lemma asleep_served:
  assumes ok: "system_ok s" and p: "place s = Asleep"
  shows "received s d = arrived s d" and "\<exists>q. inputs s d = Some q \<and> bcontent q = [] \<and> bcap q = 100"
    and "holds (wakers s d) = Some (task_of d)"
proof -
  have "device_ok d s" "icontent (task_queue s) = []" using ok p by (simp_all add: system_ok_def)
  then have d: "holds (wakers s d) = Some (task_of d)" "pending s d = []" "inputs s d \<noteq> None"
      "\<And>q. inputs s d = Some q \<Longrightarrow> bcap q = 100" "arrived s d = received s d @ on_way d (place s) @ pending s d"
    using p by (auto simp: device_ok_def in_task_def Let_def)
  show "holds (wakers s d) = Some (task_of d)" using d(1) .
  show "received s d = arrived s d" using d(2,5) p by (simp add: on_way_def)
  show "\<exists>q. inputs s d = Some q \<and> bcontent q = [] \<and> bcap q = 100" using d(2-4) by (auto simp: pending_def)
qed

text \<open>Left alone, the processor goes to sleep.\<close>

lemma goes_to_sleep:
  assumes "system_ok s" and "place s \<noteq> Panicked"
  shows "\<exists>n t. (next_step C ^^ n) s = t \<and> system_ok t \<and> place t = Asleep \<and> arrived t = arrived s"
  using assms
proof (induction "work s" arbitrary: s rule: less_induct)
  case less
  show ?case
  proof (cases "place s = Asleep")
    case True
    have "(next_step C ^^ 0) s = s" by simp
    then show ?thesis using less.prems True by blast
  next
    case False
    have P: "progress s (next_step C s)" by (rule next_step_progress [OF less.prems])
    then obtain n where "system_ok ((next_step C ^^ n) (next_step C s))" "place ((next_step C ^^ n) (next_step C s)) = Asleep"
        "arrived ((next_step C ^^ n) (next_step C s)) = arrived s"
      using less.hyps [of "next_step C s"] False by (auto simp: progress_def)
    then show ?thesis by (intro exI [of _ "Suc n"]) (simp add: funpow_swap1)
  qed
qed

lemma reach_sleeps:
  assumes "task_reach C s" and "place s \<noteq> Panicked"
  obtains n where "place ((next_step C ^^ n) s) = Asleep" and "system_ok ((next_step C ^^ n) s)" and "arrived ((next_step C ^^ n) s) = arrived s"
    and "task_reach C ((next_step C ^^ n) s)"
proof -
  have "task_reach C ((next_step C ^^ n) s)" for n
    by (induction n) (auto intro: assms(1) task_reach.step task_step.run)
  then show ?thesis using goes_to_sleep [OF reach_ok [OF assms(1)] assms(2)] that by blast
qed

text \<open>An interrupt while the processor sleeps.\<close>

lemma interrupt_asleep:
  assumes ok: "system_ok s" and p: "place s = Asleep"
  shows "place (interrupted C d b s) = Ready \<and> arrived (interrupted C d b s) = (arrived s)(d := arrived s d @ [b])"
proof -
  note A = asleep_served [OF ok p, of d]
  obtain q where q: "inputs s d = Some q" "bcontent q = []" "bcap q = 100" using A(2) by blast
  obtain r where r: "aq_push (byte_queue C) b q = Some r" using bytes.push_room [of q b] q by auto
  obtain x w where x: "aw_take C (wakers s d) = (x, w)" by fastforce
  have x': "x = Some (task_of d)" using taken [OF x] A(3) by simp
  have "icontent (task_queue s) = []" "icap (task_queue s) = 100" using ok p by (simp_all add: system_ok_def)
  then obtain i where i: "aq_push (id_queue C) (task_of d) (task_queue s) = Some i" using ids.push_room [of "task_queue s"] by auto
  have "input_interrupt C d b s = (Ok (), (enqueue C d b r s)\<lparr>wakers := (wakers s)(d := w), task_queue := i\<rparr>)"
    using q(1) r x x' i by (cases d) (simp_all add: input_interrupt_def add_scancode_def add_byte_def wake_def wake_task_def enqueue_def)
  then show ?thesis using p by (simp add: interrupted_def then_at_def enqueue_def)
qed

text \<open>What \<open>poll_next\<close> is without interrupts.\<close>

lemma poll_next_steps:
  assumes "system_ok s" and p: "place s = First d"
  shows "\<exists>n. case poll_next C d (task_of d) s of
      (Ok (Some b), t) \<Rightarrow> (next_step C ^^ n) s = deliver d b t
    | (Ok None, t) \<Rightarrow> (next_step C ^^ n) s = t\<lparr>place := Ready\<rparr>
    | _ \<Rightarrow> False"
proof -
  have "device_ok d s" using assms by (simp add: system_ok_def)
  then obtain q where q: "inputs s d = Some q" using p by (auto simp: device_ok_def in_task_def Let_def)
  from pop_input_run [OF q] show ?thesis
  proof (elim disjE exE conjE)
    fix b r assume r: "pop_input C d s = (Ok (Some b), s\<lparr>inputs := (inputs s)(d := Some r)\<rparr>)"
    then show ?thesis using p by (intro exI [of _ 1]) (simp add: poll_next_def next_step_def)
  next
    assume r: "pop_input C d s = (Ok None, s)" "pending s d = []"
    let ?t = "s\<lparr>wakers := (wakers s)(d := aw_register C (task_of d) (wakers s d))\<rparr>"
    have e: "aq_pop (byte_queue C) q = None" using r(1) q by (auto simp: pop_input_def split: option.splits prod.splits)
    have "poll_next C d (task_of d) s = (Ok None, ?t)"
      using r(1) q e by (simp add: poll_next_def register_waker_def modify_def bind_def pop_input_def)
    moreover have "(next_step C ^^ 3) s = ?t\<lparr>place := Ready\<rparr>"
      using p r(1) q e by (simp add: numeral_3_eq_3 next_step_def then_at_def register_waker_def modify_def pop_input_def)
    ultimately show ?thesis by (intro exI [of _ 3]) simp
  qed
qed

text \<open>Bytes from the serial port while no task reads them.\<close>

lemma panicked_stays: "place s = Panicked \<Longrightarrow> place (fold (interrupted C d) bs s) = Panicked"
proof (induction bs arbitrary: s)
  case (Cons b bs)
  have "place (interrupted C d b s) = Panicked"
    using Cons.prems by (simp add: interrupted_def then_at_def split: prod.splits res.splits)
  then show ?case using Cons.IH by simp
qed simp

lemma serial_burst:
  assumes "system_ok s" and "place s \<noteq> Masked" and "inputs s SerialPort = Some q" and "bcap q = 100"
    and "100 < length (bcontent q) + length bs" and "bs \<noteq> [] \<or> length (bcontent q) \<le> 100"
  shows "place (fold (interrupted C SerialPort) bs s) = Panicked"
  using assms
proof (induction bs arbitrary: s q)
  case Nil
  then show ?case by simp
next
  case (Cons b bs)
  show ?case
  proof (cases "place (interrupted C SerialPort b s) = Panicked")
    case True
    then show ?thesis using panicked_stays by simp
  next
    case False
    then have p: "place s \<noteq> Panicked" using panicked_stays [of s SerialPort "[b]"] by auto
    have w: "holds (wakers s SerialPort) = None \<or> holds (wakers s SerialPort) = Some (task_of SerialPort)"
      using Cons.prems(1) p by (auto simp: system_ok_def device_ok_def Let_def)
    obtain r t where run: "input_interrupt C SerialPort b s = (r, t)" by fastforce
    have i: "interrupted C SerialPort b s = t\<lparr>place := if place s = Asleep then Ready else place s\<rparr>" "r = Ok ()"
      using False input_interrupt_run [OF run w] by (auto simp: interrupted_def then_at_def run)
    obtain q' where q': "aq_push (byte_queue C) b q = Some q'"
      using run i(2) Cons.prems(3) by (cases "aq_push (byte_queue C) b q") (auto simp: input_interrupt_def add_byte_def)
    have "wake C SerialPort (enqueue C SerialPort b q' s) = (Ok (), t)"
      using run i(2) q' Cons.prems(3) by (simp add: input_interrupt_def add_byte_def)
    then have "inputs t SerialPort = Some q'"
      by (auto simp: wake_def wake_task_def enqueue_def split: prod.splits option.splits)
    then have "inputs (interrupted C SerialPort b s) SerialPort = Some q'" by (simp add: i(1))
    moreover have "place (interrupted C SerialPort b s) \<noteq> Masked" using Cons.prems(2) by (simp add: i(1))
    ultimately have "place (fold (interrupted C SerialPort) bs (interrupted C SerialPort b s)) = Panicked"
      using Cons.prems(4,5) bytes.push_Some [OF q'] interrupted_ok [OF Cons.prems(1,2) p]
      by (intro Cons.IH [of _ q']) simp_all
    then show ?thesis by simp
  qed
qed

end

section \<open>Queues as lists\<close>

definition list_queue :: "('a, nat \<times> 'a list) array_queue" where
  "list_queue = \<lparr>aq_new = (\<lambda>n. (n, [])), aq_push = (\<lambda>x (n, xs). if length xs < n then Some (n, xs @ [x]) else None),
     aq_pop = (\<lambda>(n, xs). case xs of [] \<Rightarrow> None | x # xs \<Rightarrow> Some (x, n, xs)), aq_is_empty = (\<lambda>(n, xs). xs = [])\<rparr>"

definition list_crates :: "(nat \<times> u8 list, nat \<times> nat list, nat option) task_crates" where
  "list_crates = \<lparr>byte_queue = list_queue, id_queue = list_queue, aw_new = None, aw_register = (\<lambda>i _. Some i), aw_take = (\<lambda>w. (w, None))\<rparr>"

interpretation list_queue: bounded_queue list_queue snd fst
  by unfold_locales (auto simp: list_queue_def split: list.splits)

interpretation list_crates: task_crates list_crates snd fst snd fst id
  by unfold_locales (auto simp: list_crates_def list_queue_def split: list.splits)

lemma list_crates_asleep: "\<exists>s. task_reach list_crates s \<and> place s = Asleep \<and> arrived s = (\<lambda>_. [])"
proof -
  obtain s where s: "boot_tasks list_crates (executor_new list_crates) = (Ok (), s)" "place s = Ready" "arrived s = (\<lambda>_. [])"
    by (simp add: boot_tasks_def TaskId_new_def spawn_def executor_new_def TASK_MAX_def Let_def list_crates_def list_queue_def)
  show ?thesis
    using list_crates.reach_sleeps [OF task_reach.boot [OF s(1)]] s(2,3) by (metis place.distinct(17))
qed

section \<open>Properties\<close>

text \<open>C19. No wake-up is lost. Whenever the interrupts arrive between the operations of the executor and
  the tasks, a task has received a prefix of the bytes that its queue accepted, in order; and the processor
  sleeps only when both tasks have received them all, their queues are empty and their wakers are
  registered.\<close>

theorem sleep_means_served:
  assumes crates: "task_crates C bc bcap ic icap holds" and reach: "task_reach C s" and p: "place s \<noteq> Panicked"
  shows "(\<exists>rest. arrived s d = received s d @ rest) \<and>
    (place s = Asleep \<longrightarrow> received s d = arrived s d \<and> holds (wakers s d) = Some (task_of d) \<and>
       (\<exists>q. inputs s d = Some q \<and> bc q = []))"
proof -
  have ok: "task_crates.system_ok bc bcap ic icap holds s" by (rule task_crates.reach_ok [OF crates reach])
  then have "task_crates.device_ok bc bcap ic holds d s" using p by (simp add: task_crates.system_ok_def [OF crates])
  then show ?thesis
    using task_crates.asleep_served [OF crates ok, of d] by (auto simp: task_crates.device_ok_def [OF crates] Let_def)
qed

theorem sleep_means_served_witness:
  "\<exists>s. task_reach list_crates s \<and> place s = Asleep \<and> received s SerialPort = [0x41] \<and> received s Keyboard = []"
proof -
  obtain s where s: "task_reach list_crates s" "place s = Asleep" "arrived s = (\<lambda>_. [])" using list_crates_asleep by blast
  let ?t = "interrupted list_crates SerialPort 0x41 s"
  have t: "place ?t = Ready" "arrived ?t = (arrived s)(SerialPort := [0x41])"
    using list_crates.interrupt_asleep [OF list_crates.reach_ok [OF s(1)] s(2)] s(3) by simp_all
  have "task_reach list_crates ?t" using s(1,2) by (intro task_reach.step [OF s(1)] task_step.interrupt) simp_all
  then obtain n where u: "place ((next_step list_crates ^^ n) ?t) = Asleep" "arrived ((next_step list_crates ^^ n) ?t) = arrived ?t"
      "task_reach list_crates ((next_step list_crates ^^ n) ?t)"
    using list_crates.reach_sleeps [of ?t] t(1) by auto
  then show ?thesis
    using sleep_means_served [OF list_crates.task_crates_axioms u(3), of SerialPort] t(2) s(3)
      sleep_means_served [OF list_crates.task_crates_axioms u(3), of Keyboard] by auto
qed

text \<open>C20. Input is served. From every state that can be reached, if no more interrupts arrive, the executor
  gives the tasks all bytes that arrived and goes to sleep after finitely many steps, without a panic; and a
  byte that arrives while it sleeps wakes it, reaches its task, and no other.\<close>

theorem input_served:
  assumes crates: "task_crates C bc bcap ic icap holds" and reach: "task_reach C s" and p: "place s \<noteq> Panicked"
  shows "(\<exists>n. place ((next_step C ^^ n) s) = Asleep \<and> received ((next_step C ^^ n) s) = arrived s) \<and>
    (place s = Asleep \<longrightarrow> (\<exists>n. place ((next_step C ^^ n) (interrupted C d b s)) = Asleep \<and>
       received ((next_step C ^^ n) (interrupted C d b s)) = (received s)(d := received s d @ [b])))"
proof -
  note served = task_crates.asleep_served(1) [OF crates]
  have all: "\<exists>n. place ((next_step C ^^ n) u) = Asleep \<and> received ((next_step C ^^ n) u) = arrived u"
    if u: "task_reach C u" "place u \<noteq> Panicked" for u
  proof -
    obtain n where "place ((next_step C ^^ n) u) = Asleep" "task_crates.system_ok bc bcap ic icap holds ((next_step C ^^ n) u)"
        "arrived ((next_step C ^^ n) u) = arrived u" "task_reach C ((next_step C ^^ n) u)"
      by (rule task_crates.reach_sleeps [OF crates u])
    then show ?thesis using served [of "(next_step C ^^ n) u"] by (intro exI [of _ n]) (auto simp: fun_eq_iff)
  qed
  moreover have "\<exists>n. place ((next_step C ^^ n) (interrupted C d b s)) = Asleep \<and>
      received ((next_step C ^^ n) (interrupted C d b s)) = (received s)(d := received s d @ [b])" if a: "place s = Asleep"
  proof -
    have ok: "task_crates.system_ok bc bcap ic icap holds s" by (rule task_crates.reach_ok [OF crates reach])
    have i: "place (interrupted C d b s) = Ready" "arrived (interrupted C d b s) = (arrived s)(d := arrived s d @ [b])"
      using task_crates.interrupt_asleep [OF crates ok a] by simp_all
    have "task_reach C (interrupted C d b s)" using reach a by (intro task_reach.step [OF reach] task_step.interrupt) simp_all
    moreover have "received s = arrived s" using served [OF ok a] by (simp add: fun_eq_iff)
    ultimately show ?thesis using all [of "interrupted C d b s"] i by simp
  qed
  ultimately show ?thesis using reach p by blast
qed

theorem input_served_witness:
  "\<exists>s n. task_reach list_crates s \<and> place s = Asleep \<and>
     received ((next_step list_crates ^^ n) (interrupted list_crates Keyboard 0x1e s)) = (received s)(Keyboard := received s Keyboard @ [0x1e])"
proof -
  obtain s where s: "task_reach list_crates s" "place s = Asleep" using list_crates_asleep by blast
  then show ?thesis using input_served [OF list_crates.task_crates_axioms s(1), of Keyboard "0x1e"] by auto
qed

text \<open>C40. A burst on the serial port panics the kernel. From any state that can be reached after the serial
  task has started, more than 100 bytes in a row, which no task reads in between, lead to a panic.\<close>

theorem serial_burst_panics:
  assumes crates: "task_crates C bc bcap ic icap holds" and reach: "task_reach C s"
    and p: "place s \<noteq> Masked" and started: "inputs s SerialPort \<noteq> None" and burst: "100 < length bs"
  shows "place (fold (interrupted C SerialPort) bs s) = Panicked"
proof (cases "place s = Panicked")
  case True
  then show ?thesis by (rule task_crates.panicked_stays [OF crates])
next
  case False
  have ok: "task_crates.system_ok bc bcap ic icap holds s" by (rule task_crates.reach_ok [OF crates reach])
  then have d: "task_crates.device_ok bc bcap ic holds SerialPort s" using False by (simp add: task_crates.system_ok_def [OF crates])
  obtain q where q: "inputs s SerialPort = Some q" using started by auto
  then have "bcap q = 100" using d by (simp add: task_crates.device_ok_def [OF crates] Let_def)
  moreover have "bs \<noteq> []" using burst by auto
  ultimately show ?thesis using task_crates.serial_burst [OF crates ok p q, of bs] burst by simp
qed

theorem serial_burst_panics_witness:
  "\<exists>s. task_reach list_crates s \<and> place s = Asleep \<and>
     place (fold (interrupted list_crates SerialPort) (replicate 101 0x41) s) = Panicked"
proof -
  obtain s where s: "task_reach list_crates s" "place s = Asleep" using list_crates_asleep by blast
  have started: "inputs s SerialPort \<noteq> None" using list_crates.asleep_served(2) [OF list_crates.reach_ok [OF s(1)] s(2), of SerialPort] by auto
  have "place s \<noteq> Masked" "100 < length (replicate 101 (0x41 :: u8))" using s(2) by simp_all
  from serial_burst_panics [OF list_crates.task_crates_axioms s(1) this(1) started this(2)] show ?thesis using s by blast
qed

end
