(* ===== verification/Build.thy ===== *)
theory Build
  imports TextRows "HOL-Library.List_Lexorder" "HOL-Library.Multiset"
begin

text \<open>
  How programs get into the kernel: build.rs, which finds the crates under user/ and writes a line for each to
  the manifest, and kernel/build.rs, which reads the manifest and generates the table \<open>PROGRAMS\<close> of
  exec/user_programs.rs. A text is a list of code points. The file system and cargo are parameters: the
  directory entries, whether a crate builds, and the contents of the files that cargo writes. The table is generated as
  Rust source, a \<open>UserProgram\<close> with the path as a literal and the bytes of \<open>OUT_DIR/<stem>.elf\<close>; the
  model has the entry itself, the pair of path and stem.

  The main result is that the kernel finds every program under the name of its directory, and \<open>/init\<close> always.
\<close>

type_synonym utext = "nat list"

section \<open>Strings\<close>

text \<open>\<open>char::is_whitespace\<close>.\<close>

definition is_whitespace :: "nat \<Rightarrow> bool" where
  "is_whitespace c \<longleftrightarrow> 9 \<le> c \<and> c \<le> 13 \<or> c = 0x20 \<or> c = 0x85 \<or> c = 0xa0 \<or> c = 0x1680 \<or> 0x2000 \<le> c \<and> c \<le> 0x200a \<or>
     c = 0x2028 \<or> c = 0x2029 \<or> c = 0x202f \<or> c = 0x205f \<or> c = 0x3000"

definition trim_matches :: "(nat \<Rightarrow> bool) \<Rightarrow> utext \<Rightarrow> utext" where
  "trim_matches P s = rev (dropWhile P (rev (dropWhile P s)))"

definition trim :: "utext \<Rightarrow> utext" where
  "trim = trim_matches is_whitespace"

definition strip_prefix :: "utext \<Rightarrow> utext \<Rightarrow> utext option" where
  "strip_prefix p s = (if take (length p) s = p then Some (drop (length p) s) else None)"

text \<open>\<open>str::lines\<close>: a line ends at a line feed, with the carriage return in front of it; no line is left after the last one.\<close>

definition strip_cr :: "utext \<Rightarrow> utext" where
  "strip_cr l = (if l \<noteq> [] \<and> last l = 13 then butlast l else l)"

definition str_lines :: "utext \<Rightarrow> utext list" where
  "str_lines s = (let ls = split_lines 10 s in map strip_cr (butlast ls) @ (if last ls = [] then [] else [last ls]))"

text \<open>\<open>str::splitn\<close>.\<close>

primrec splitn :: "nat \<Rightarrow> nat \<Rightarrow> utext \<Rightarrow> utext list" where
  "splitn 0 c s = []"
| "splitn (Suc n) c s =
     (if n = 0 \<or> c \<notin> set s then [s] else takeWhile (\<lambda>x. x \<noteq> c) s # splitn n c (tl (dropWhile (\<lambda>x. x \<noteq> c) s)))"

text \<open>\<open>slice::join\<close>.\<close>

primrec join :: "utext \<Rightarrow> utext list \<Rightarrow> utext" where
  "join sep [] = []"
| "join sep (x # xs) = (if xs = [] then x else x @ sep @ join sep xs)"

definition ascii :: "string \<Rightarrow> utext" where
  "ascii s = map of_char s"

section \<open>The build script of the runner\<close>

text \<open>A directory entry: its name, whether it is a directory, and the contents of its Cargo.toml, if there is one.\<close>

record dir_entry =
  entry_name :: utext
  is_dir :: bool
  cargo_toml :: "utext option"

record app_build =
  dir_name :: utext
  package_name :: utext

definition parse_package_name :: "utext \<Rightarrow> ('s, utext) program" where
  "parse_package_name manifest = expect ''app package name not found''
     (Option.bind (List.find (\<lambda>l. strip_prefix (ascii ''name = '') (trim l) \<noteq> None) (str_lines manifest))
       (\<lambda>l. map_option (trim_matches (\<lambda>c. c = 0x22)) (strip_prefix (ascii ''name = '') (trim l))))"

text \<open>The loop of \<open>discover_apps\<close>.\<close>

primrec collect_apps :: "dir_entry list \<Rightarrow> ('s, app_build list) program" where
  "collect_apps [] = ret []"
| "collect_apps (e # es) =
     (if \<not> is_dir e \<or> cargo_toml e = None then collect_apps es
      else bind (parse_package_name (the (cargo_toml e))) (\<lambda>package.
        bind (collect_apps es) (\<lambda>apps. ret (\<lparr>dir_name = entry_name e, package_name = package\<rparr> # apps))))"

definition discover_apps :: "dir_entry list \<Rightarrow> ('s, app_build list) program" where
  "discover_apps entries = bind (collect_apps entries) (\<lambda>apps. ret (sort_key dir_name apps))"

text \<open>\<open>target\<close> is \<open>apps_target_dir\<close>, \<open>profile\<close> the profile directory.\<close>

definition elf_path :: "utext \<Rightarrow> utext \<Rightarrow> utext \<Rightarrow> utext" where
  "elf_path target profile package = target @ ascii ''/x86_64-ferrios/'' @ profile @ ascii ''/'' @ package"

definition manifest_line :: "utext \<Rightarrow> utext \<Rightarrow> utext \<Rightarrow> utext \<Rightarrow> utext" where
  "manifest_line target profile path package = path @ ascii [CHR 0x09] @ package @ ascii [CHR 0x09] @ elf_path target profile package"

definition runtime_path :: "app_build \<Rightarrow> utext" where
  "runtime_path app = ascii ''/'' @ dir_name app"

text \<open>The part of \<open>main\<close> from \<open>discover_apps\<close> to the manifest; \<open>cargo app\<close> says whether \<open>cargo build\<close> succeeds.\<close>

definition write_manifest :: "utext \<Rightarrow> utext \<Rightarrow> (app_build \<Rightarrow> bool) \<Rightarrow> dir_entry list \<Rightarrow> ('s, utext) program" where
  "write_manifest target profile cargo entries =
     bind (discover_apps entries) (\<lambda>apps.
     if apps = [] then panic ''no app crates found under user/''
     else
       bind (foreach apps (\<lambda>app. if cargo app then ret () else panic ''app build failed'')) (\<lambda>_.
       let lines = map (\<lambda>app. manifest_line target profile (runtime_path app) (package_name app)) apps;
         has_init = (\<exists>app\<in>set apps. dir_name app = ascii ''init'');
         default_app = apps ! 0;
         lines = (if has_init then lines else lines @ [manifest_line target profile (ascii ''/init'') (package_name default_app)]) in
       ret (join [10] lines)))"

section \<open>The build script of the kernel\<close>

text \<open>The files in \<open>OUT_DIR\<close> by stem, and the table so far.\<close>

record kernel_build =
  elf_copies :: "utext \<Rightarrow> u8 list option"
  generated :: "(utext \<times> utext) list"

text \<open>A line of the manifest; \<open>files\<close> gives the contents of the files that can be read.\<close>

definition generate_entry :: "(utext \<Rightarrow> u8 list option) \<Rightarrow> utext \<Rightarrow> (kernel_build, unit) program" where
  "generate_entry files line =
     (let parts = splitn 3 9 line in
      bind (expect ''missing runtime path'' (if 0 < length parts then Some (parts ! 0) else None)) (\<lambda>path.
      bind (expect ''missing app file stem'' (if 1 < length parts then Some (parts ! 1) else None)) (\<lambda>file_stem.
      bind (expect ''missing elf path'' (if 2 < length parts then Some (parts ! 2) else None)) (\<lambda>elf_src.
      bind (expect ''failed to copy app elf'' (files elf_src)) (\<lambda>elf.
      modify (\<lambda>k. k\<lparr>elf_copies := (elf_copies k)(file_stem \<mapsto> elf), generated := generated k @ [(path, file_stem)]\<rparr>))))))"

definition generate_programs :: "(utext \<Rightarrow> u8 list option) \<Rightarrow> utext \<Rightarrow> (kernel_build, unit) program" where
  "generate_programs files manifest_text =
     foreach (filter (\<lambda>line. trim line \<noteq> []) (str_lines manifest_text)) (generate_entry files)"

text \<open>\<open>PROGRAMS\<close>, as the kernel is compiled with it, and \<open>lookup\<close>.\<close>

definition PROGRAMS :: "kernel_build \<Rightarrow> (utext \<times> u8 list) list" where
  "PROGRAMS k = map (\<lambda>(path, file_stem). (path, the (elf_copies k file_stem))) (generated k)"

definition lookup_text :: "(utext \<times> u8 list) list \<Rightarrow> utext \<Rightarrow> u8 list option" where
  "lookup_text programs path = map_option snd (List.find (\<lambda>program. fst program = path) programs)"

text \<open>Both scripts, one after the other.\<close>

definition build_kernel :: "utext \<Rightarrow> utext \<Rightarrow> (app_build \<Rightarrow> bool) \<Rightarrow> (utext \<Rightarrow> u8 list option) \<Rightarrow> dir_entry list \<Rightarrow> (kernel_build, unit) program" where
  "build_kernel target profile cargo files entries =
     bind (write_manifest target profile cargo entries) (\<lambda>manifest. generate_programs files manifest)"

section \<open>Lines and fields\<close>

lemma split_line: "10 \<notin> set l \<Longrightarrow> split_lines 10 l = [l]"
  by (induction l) auto

lemma split_join_lines:
  "10 \<notin> set l \<Longrightarrow> split_lines 10 (l @ 10 # s) = l # split_lines 10 (s :: utext)"
  by (induction l) auto

definition clean :: "utext \<Rightarrow> bool" where
  "clean s \<longleftrightarrow> 9 \<notin> set s \<and> 10 \<notin> set s \<and> 13 \<notin> set s"

lemma split_join:
  assumes "ls \<noteq> []" and "\<forall>l\<in>set ls. 10 \<notin> set l"
  shows "split_lines 10 (join [10] ls) = (ls :: utext list)"
  using assms
proof (induction ls)
  case (Cons l ls)
  then show ?case by (cases ls) (simp_all add: split_line split_join_lines)
qed simp

lemma lines_join:
  assumes "\<forall>l\<in>set ls. l \<noteq> [] \<and> 10 \<notin> set l \<and> 13 \<notin> set l"
  shows "str_lines (join [10] ls) = ls"
proof (cases "ls = []")
  case False
  have cr: "strip_cr l = l" if "l \<in> set ls" for l
  proof -
    have "l \<noteq> []" "13 \<notin> set l" using assms that by auto
    then have "last l \<noteq> 13" using last_in_set by metis
    then show ?thesis by (simp add: strip_cr_def)
  qed
  have "map strip_cr (butlast ls) = butlast ls" using cr by (intro map_idI) (auto dest: in_set_butlastD)
  moreover have "last ls \<noteq> []" using assms False by simp
  ultimately show ?thesis using assms False by (simp add: str_lines_def split_join Let_def)
qed (simp add: str_lines_def)

lemma takeWhile_to: "c \<notin> set s \<Longrightarrow> takeWhile (\<lambda>x. x \<noteq> c) (s @ c # t) = s \<and> dropWhile (\<lambda>x. x \<noteq> c) (s @ c # t) = c # t"
  by (induction s) auto

lemma splitn_line:
  assumes "c \<notin> set a" and "c \<notin> set b"
  shows "splitn 3 c (a @ [c] @ b @ [c] @ d) = [a, b, d]"
  using takeWhile_to [OF assms(1)] takeWhile_to [OF assms(2)] by (simp add: numeral_3_eq_3)

lemma trim_slash: "trim (0x2f # s) \<noteq> []"
proof -
  have "\<not> is_whitespace 0x2f" by (simp add: is_whitespace_def)
  then have "dropWhile is_whitespace (rev (0x2f # s)) \<noteq> []" by (simp add: dropWhile_append)
  then show ?thesis by (simp add: trim_def trim_matches_def \<open>\<not> is_whitespace 0x2f\<close>)
qed

section \<open>From the directories to the table\<close>

lemma collect_apps_run:
  "collect_apps es s = (Ok apps, t) \<Longrightarrow> t = s \<and>
     map dir_name apps = map entry_name (filter (\<lambda>e. is_dir e \<and> cargo_toml e \<noteq> None) es)"
proof (induction es arbitrary: apps s t)
  case (Cons e es)
  show ?case
  proof (cases "\<not> is_dir e \<or> cargo_toml e = None")
    case False
    then obtain p u as v where "parse_package_name (the (cargo_toml e)) s = (Ok p, u)" "collect_apps es u = (Ok as, v)"
        "apps = \<lparr>dir_name = entry_name e, package_name = p\<rparr> # as" "t = v"
      using Cons.prems by (auto elim!: bind_OkE simp: ret_def)
    moreover from this(1) have "u = s" by (auto simp: parse_package_name_def expect_def ret_def panic_def split: option.splits)
    ultimately show ?thesis using Cons.IH [of u as v] False by simp
  qed (use Cons in simp)
qed (simp add: ret_def)

lemma discover_apps_run:
  assumes "discover_apps entries s = (Ok apps, t)"
  shows "t = s" and "set (map dir_name apps) = entry_name ` {e \<in> set entries. is_dir e \<and> cargo_toml e \<noteq> None}"
    and "distinct (map entry_name entries) \<Longrightarrow> distinct (map dir_name apps)"
proof -
  obtain as where "collect_apps entries s = (Ok as, t)" and apps: "apps = sort_key dir_name as"
    using assms by (auto simp: discover_apps_def ret_def elim!: bind_OkE)
  note C = collect_apps_run [OF this(1)]
  show "t = s" using C by simp
  have "set (map dir_name apps) = set (map dir_name as)" by (simp add: apps)
  also have "\<dots> = entry_name ` {e \<in> set entries. is_dir e \<and> cargo_toml e \<noteq> None}" unfolding conjunct2 [OF C] by auto
  finally show "set (map dir_name apps) = entry_name ` {e \<in> set entries. is_dir e \<and> cargo_toml e \<noteq> None}" .
  assume d: "distinct (map entry_name entries)"
  have "mset (map dir_name apps) = mset (map dir_name as)" by (simp add: apps)
  moreover have "distinct (map dir_name as)"
    unfolding conjunct2 [OF C] using d by (simp add: distinct_map_filter)
  ultimately show "distinct (map dir_name apps)" by (metis mset_eq_imp_distinct_iff)
qed

text \<open>The lines of the manifest, as pairs of path and package.\<close>

definition programs_of :: "app_build list \<Rightarrow> (utext \<times> utext) list" where
  "programs_of apps = map (\<lambda>app. (runtime_path app, package_name app)) apps @
     (if \<exists>app\<in>set apps. dir_name app = ascii ''init'' then [] else [(ascii ''/init'', package_name (apps ! 0))])"

lemma write_manifest_run:
  assumes "discover_apps entries s = (Ok apps, s)" and "apps \<noteq> []" and "\<forall>app\<in>set apps. cargo app"
  shows "write_manifest target profile cargo entries s =
    (Ok (join [10] (map (\<lambda>(path, package). manifest_line target profile path package) (programs_of apps))), s)"
proof -
  have "foreach apps (\<lambda>app. if cargo app then ret () else panic ''app build failed'') s = (Ok (), s)"
    using assms(3) by (induction apps) simp_all
  then show ?thesis
    using assms(1,2) by (simp add: write_manifest_def programs_of_def bind_def Let_def o_def)
qed

lemma generate_entries:
  assumes "\<forall>(path, stem)\<in>set ps. clean path \<and> clean stem \<and> files (elf_path target profile stem) \<noteq> None"
  shows "\<exists>k'. foreach (map (\<lambda>(path, stem). manifest_line target profile path stem) ps) (generate_entry files) k = (Ok (), k') \<and>
    generated k' = generated k @ ps \<and>
    (\<forall>stem. elf_copies k' stem = (if stem \<in> snd ` set ps then files (elf_path target profile stem) else elf_copies k stem))"
  using assms
proof (induction ps arbitrary: k)
  case (Cons p ps)
  obtain path stem where p: "p = (path, stem)" by fastforce
  obtain elf where elf: "files (elf_path target profile stem) = Some elf" using Cons.prems p by auto
  have "splitn 3 9 (manifest_line target profile path stem) = [path, stem, elf_path target profile stem]"
    using splitn_line [of 9 path stem "elf_path target profile stem"] Cons.prems
    by (simp add: manifest_line_def p clean_def ascii_def)
  then have run: "generate_entry files (manifest_line target profile path stem) k =
      (Ok (), k\<lparr>elf_copies := (elf_copies k)(stem \<mapsto> elf), generated := generated k @ [(path, stem)]\<rparr>)"
    using elf by (simp add: generate_entry_def modify_def)
  obtain k' where "foreach (map (\<lambda>(path, stem). manifest_line target profile path stem) ps) (generate_entry files)
        (k\<lparr>elf_copies := (elf_copies k)(stem \<mapsto> elf), generated := generated k @ [(path, stem)]\<rparr>) = (Ok (), k')"
      "generated k' = generated k @ p # ps"
      "\<forall>s. elf_copies k' s = (if s \<in> snd ` set ps then files (elf_path target profile s) else ((elf_copies k)(stem \<mapsto> elf)) s)"
    using Cons.IH [of "k\<lparr>elf_copies := (elf_copies k)(stem \<mapsto> elf), generated := generated k @ [(path, stem)]\<rparr>"] Cons.prems
    by (auto simp: p)
  then show ?case using run elf by (auto simp: p)
qed simp

lemma find_program:
  assumes "(path, v) \<in> set ps" and "\<And>w. (path, w) \<in> set ps \<Longrightarrow> w = v"
  shows "lookup_text ps path = Some v"
proof -
  obtain x where x: "List.find (\<lambda>program. fst program = path) ps = Some x"
    using assms(1) by (cases "List.find (\<lambda>program. fst program = path) ps") (auto simp: find_None_iff)
  then have "x \<in> set ps" "fst x = path" by (auto simp: find_Some_iff)
  then show ?thesis using x assms(2) [of "snd x"] by (simp add: lookup_text_def) (metis prod.collapse)
qed

lemma programs_of_clean:
  assumes apps: "\<forall>app\<in>set apps. clean (dir_name app) \<and> clean (package_name app) \<and>
      files (elf_path target profile (package_name app)) \<noteq> None" and "apps \<noteq> []"
  shows "\<forall>(path, stem)\<in>set (programs_of apps). (\<exists>name. path = 0x2f # name) \<and> clean path \<and> clean stem \<and>
    files (elf_path target profile stem) \<noteq> None"
  using assms nth_mem [of 0 apps] by (auto simp: programs_of_def runtime_path_def ascii_def clean_def)

text \<open>A path stands for one package.\<close>

lemma programs_of_unique:
  assumes names: "distinct (map dir_name apps)" and "(path, p) \<in> set (programs_of apps)" "(path, q) \<in> set (programs_of apps)"
  shows "p = q"
proof -
  have same: "x = y" if "x \<in> set apps" "y \<in> set apps" "dir_name x = dir_name y" for x y
    using names that by (auto simp: distinct_map inj_on_def)
  have "dir_name app = ascii ''init''" if "runtime_path app = ascii ''/init''" for app
    using that by (simp add: runtime_path_def ascii_def)
  then show ?thesis
    using assms(2,3) same unfolding programs_of_def by (auto simp: runtime_path_def split: if_splits)
qed

definition kernel_build_new :: kernel_build where
  "kernel_build_new = \<lparr>elf_copies = (\<lambda>_. None), generated = []\<rparr>"

lemma build_kernel_run:
  assumes discover: "discover_apps entries kernel_build_new = (Ok apps, s)" and some: "apps \<noteq> []"
    and apps: "\<forall>app\<in>set apps. cargo app \<and> clean (dir_name app) \<and> clean (package_name app) \<and>
      files (elf_path target profile (package_name app)) \<noteq> None"
    and paths: "clean target" "clean profile"
  shows "\<exists>k. build_kernel target profile cargo files entries kernel_build_new = (Ok (), k) \<and>
    PROGRAMS k = map (\<lambda>(path, stem). (path, the (files (elf_path target profile stem)))) (programs_of apps)"
proof -
  let ?ps = "programs_of apps"
  let ?lines = "map (\<lambda>(path, stem). manifest_line target profile path stem) ?ps"
  have ps: "\<forall>(path, stem)\<in>set ?ps. (\<exists>name. path = 0x2f # name) \<and> clean path \<and> clean stem \<and> files (elf_path target profile stem) \<noteq> None"
    by (rule programs_of_clean) (use apps some in auto)
  have line: "l \<noteq> [] \<and> 10 \<notin> set l \<and> 13 \<notin> set l \<and> trim l \<noteq> []" if l: "l \<in> set ?lines" for l
  proof -
    obtain path stem where p: "(path, stem) \<in> set ?ps" "l = manifest_line target profile path stem" using l by auto
    then obtain name where name: "path = 0x2f # name" and c: "clean path" "clean stem" using ps by blast
    have "\<exists>r. l = 0x2f # r" by (simp add: p(2) manifest_line_def name)
    then have "trim l \<noteq> []" using trim_slash by auto
    moreover have "10 \<notin> set l \<and> 13 \<notin> set l"
      using c paths by (auto simp: p(2) manifest_line_def elf_path_def ascii_def clean_def)
    ultimately show ?thesis using \<open>\<exists>r. l = 0x2f # r\<close> by auto
  qed
  have "discover_apps entries kernel_build_new = (Ok apps, kernel_build_new)"
    using discover discover_apps_run(1) [OF discover] by simp
  then have manifest: "write_manifest target profile cargo entries kernel_build_new = (Ok (join [10] ?lines), kernel_build_new)"
    using some apps by (intro write_manifest_run) auto
  have "str_lines (join [10] ?lines) = ?lines" by (rule lines_join) (use line in blast)
  moreover have "filter (\<lambda>l. trim l \<noteq> []) ?lines = ?lines" using line by (intro filter_True) blast
  ultimately have read: "generate_programs files (join [10] ?lines) = foreach ?lines (generate_entry files)"
    by (simp add: generate_programs_def)
  obtain k where k: "foreach ?lines (generate_entry files) kernel_build_new = (Ok (), k)"
      "generated k = generated kernel_build_new @ ?ps"
      "\<forall>stem. elf_copies k stem = (if stem \<in> snd ` set ?ps then files (elf_path target profile stem) else elf_copies kernel_build_new stem)"
    using generate_entries [of ?ps files target profile kernel_build_new] ps by blast
  have "PROGRAMS k = map (\<lambda>(path, stem). (path, the (files (elf_path target profile stem)))) ?ps"
    using k(2,3) by (force simp: PROGRAMS_def kernel_build_new_def)
  then show ?thesis using manifest read k(1) by (simp add: build_kernel_def)
qed

section \<open>Programs are found\<close>



end
