(* ===== verification/Spec2Isabelle.thy ===== *)
theory Spec2Isabelle
  imports MemoryProps SchedulerProps HeapProps ExecProps Boot ConsoleProps TaskProps Build
begin

text \<open>
  FerriOS: a verification library.

  \<^bold>\<open>The program.\<close> FerriOS is a small x86-64 operating system in Rust. The kernel (src/kernel) runs on one
  processor. It takes frames of physical memory from the memory map of the boot loader (memory/mod.rs), keeps
  four-level page tables (memory/va.rs) and an address space per process (memory/umem.rs, memory/kmem.rs); it has
  threads with kernel stacks (thread/), a round-robin scheduler that a timer interrupt drives
  (scheduler/, interrupts.rs), processes with fork, exit, wait, kill and sbrk (thread/uprocess/,
  memory/syscalls.rs), a loader of ELF programs (exec/), a system call layer (syscall/), a heap (allocator/), consoles
  (console/) and asynchronous tasks for input (task/). User programs are linked with a library (src/userlib) that
  shares the numbers of the system calls with the kernel (src/abi); two build scripts put them into the kernel
  (src/build.rs, src/kernel/build.rs).

  \<^bold>\<open>Style.\<close> A function of the kernel is a program \<open>('s, 'a) program\<close> (Prelude): it takes the state and returns
  \<open>Ok\<close> with a value, \<open>Err\<close> with the message of a Rust \<open>Err\<close>, or \<open>Panic\<close>, and the state at that moment, so an
  early return or a panic keeps what was done before it. \<open>bind\<close> is \<open>?\<close>, \<open>foreach\<close> a loop. Machine integers
  are words, with checked and wrapping operations as the source has them. Global variables behind locks are fields of
  the state. The words of memory are a function from addresses.

  \<^bold>\<open>Parameters.\<close> Code that is not in the repository is a parameter, and what the kernel relies on is a locale. The
  crate x86_64 (bits of page-table entries, canonical addresses) is the record \<open>x86\<close> with the laws
  \<open>paging_crate\<close> (Paging), kept by \<open>x86_bits\<close>; its \<open>map_to\<close> has the contract \<open>mapper\<close> (Loading), kept by the
  loader over the sample memory (\<open>loader\<close>, ExecRun); the crate linked_list_allocator has the contract \<open>heap\<close>
  (KHeap); \<open>align_up\<close>, which two allocators import and nobody defines, has \<open>aligner\<close> and
  \<open>exact_aligner\<close>, kept by \<open>round_up\<close>; the queues and wakers of the input tasks have \<open>bounded_queue\<close> and
  \<open>task_crates\<close>; the font, the serial port, the file system and cargo are plain arguments.

  \<^bold>\<open>Memory.\<close> Frames: \<open>BootInfoFrameAllocator\<close>, with the interface \<open>frame_source\<close> that its clients use, and its
  interpretation \<open>boot\<close>. Paging: memory/va.rs; physical memory gives the word at an index of a
  frame. Space: the abstract view, the tree of tables below a root (\<open>tbl\<close>, \<open>wf\<close>); Walk: what \<open>walk_pagetable\<close> and
  \<open>translate_addr_inner\<close> do to it, in the locale \<open>paging\<close>, interpreted on the machine's own definitions as
  \<open>machine\<close> (Syscalls). Uvm: memory/umem.rs and \<open>setup_kvm\<close>; Growth: \<open>alloc_uvm\<close> and \<open>dealloc_uvm\<close> page by page;
  Subtree: \<open>free_uvm\<close>; Duplicate: \<open>new_uvm\<close> and \<open>copy_uvm\<close>. MemoryProps: growing maps exactly the
  pages to fresh zeroed frames or leaves everything as it was, freeing gives every frame back once, copying
  duplicates the user half.

  \<^bold>\<open>Threads, processes, system calls.\<close> Kernel: the record \<open>kernel\<close> with the memory, the thread and process tables,
  the CPU, the heap of kernel stacks and the tick count, and thread/, cpu.rs, scheduler/context.rs. Machine: the
  assembly of \<open>switch_context\<close>, \<open>syscall_entry\<close> and the trampolines as lists of instructions with a step function.
  Scheduler: one turn of its loop is \<open>scheduler_round\<close>; the policy contract \<open>pick_policy\<close>, interpreted as \<open>rr\<close>,
  gives fairness. Process, Syscalls, Lifecycle: thread/uprocess/ and memory/syscalls.rs; \<open>wait\<close> is its loop with an
  environment step between two rounds. UserMem and UserCopy: access to user memory. Dispatch: syscall/ksyscall.rs and the
  timer interrupt. SchedulerProps, ProcessProps, SyscallProps: a yield resumes with its registers, a runnable thread runs, a
  system call restores what it must, fork makes a copy that resumes behind the call, wait returns and frees a zombie,
  user pointers are confined.

  \<^bold>\<open>Programs.\<close> Exec: exec/. Loading, UserStack, ExecRun: the segments, the stack and the two halves of exec put together.
  UserLib: src/userlib, the argument iterator, the wrappers, \<open>print_fmt\<close>. Build: the build scripts.
  ExecProps: exec installs the image and enters it with its arguments, or changes nothing but free frames; the arguments
  arrive in the program's iterator.

  \<^bold>\<open>Boot.\<close> Boot: \<open>memory::init\<close> and \<open>kernel_main\<close>, which put the frame allocator, the heap, the tables, the loader and the
  scheduler together; the mapper on the kernel half is \<open>boot_mapper\<close>, an extension of \<open>mapper\<close> that the loader over the
  sample memory keeps as well (\<open>boot_loader\<close>). From empty tables the kernel reaches the scheduler with the input thread and
  \<open>/init\<close> ready to run. The list of block sizes that its vector goes through is that of the standard library.

  \<^bold>\<open>Heap.\<close> KHeap: the fixed-size block allocator over any fallback that keeps \<open>heap\<close>, refined from an allocator
  on lists; Bump, LinkedList: the other two allocators of the repository, which keep \<open>heap\<close> too (\<open>kheap\<close>,
  \<open>round\<close> and \<open>exact\<close> are the interpretations). HeapProps: whatever clients do, blocks are aligned and apart; the walk
  of the linked-list allocator always ends.

  \<^bold>\<open>Consoles and input.\<close> TextRows: a text in rows, the reference of both consoles. Vga: the text console.
  Framebuffer, FbText: the graphical console, pixel by pixel, and the choice of consoles. Tasks, TaskProps: the executor, the input tasks and the
  interrupt handlers as a step relation, in which interrupts arrive between any two operations.
  ConsoleProps and TaskProps: the screens show the last rows of the text; no wake-up is lost; input is served.

  \<^bold>\<open>Bounds and fuel.\<close> Loops are structural or have a measure. Loops that may not end are \<open>partial_function\<close>s,
  \<open>find_region\<close> and \<open>simple_run\<close>, whose results include that they return. \<open>wait\<close> has fuel, the number of times the
  caller is scheduled; its liveness property is that no amount of fuel lets it return. The walk over C strings and
  argument vectors is bounded by the source's own limits. The scheduler's fairness bound is its 64 rounds.

  \<^bold>\<open>Not modelled.\<close> Locks, since the kernel runs on one processor and takes no lock twice; the interrupt table, the
  segment tables and the model-specific registers, which are static data of the crate x86_64; the handlers that
  only print and halt; what \<open>kernel_main\<close> prints, and the devices that \<open>ferrios::init\<close> sets up but for the interrupt flag; the
  decoding of scancodes and the formatting of values, which belong to crates; the generated Rust text of \<open>PROGRAMS\<close>,
  of which the entries are modelled; the arguments of cargo and the runner. The arithmetic of the graphical console is on
  naturals, its sums and products being sizes of a buffer in memory. White space, line ends and prefixes of texts are those
  of Rust's \<open>str\<close>.
\<close>

section \<open>The frame allocator\<close>

text \<open>C24. The frame allocator never hands out a frame that is in use: a frame it returns was free,
  is a 4 KiB aligned physical address below \<open>2 ^ 52\<close>, and is not free afterwards.\<close>

theorem allocate_frame_fresh:
  assumes "frame_alloc_ok a" and "allocate_frame a = (Some f, b)"
  shows "f \<in> avail_frames a \<and> phys_frame f \<and> avail_frames b = avail_frames a - {f} \<and> frame_alloc_ok b"
  using allocate_frame_Some [OF assms] boot.avail_phys assms(1) by blast

theorem allocate_frame_fresh_witness:
  "0x2000 \<in> avail_frames \<lparr>memory_map = [], next_frame = 0, recycled_frames = [0x1000, 0x2000]\<rparr>"
proof -
  have "frame_alloc_ok \<lparr>memory_map = [], next_frame = 0, recycled_frames = [0x1000, 0x2000]\<rparr>"
    by (simp add: frame_alloc_ok_def free_list_def usable_frames_def phys_frame_def page_aligned_def
        mask_eq_exp_minus_1)
  moreover have "allocate_frame \<lparr>memory_map = [], next_frame = 0, recycled_frames = [0x1000, 0x2000]\<rparr> =
      (Some 0x2000, \<lparr>memory_map = [], next_frame = 0, recycled_frames = [0x1000]\<rparr>)"
    by (simp add: allocate_frame_def)
  ultimately show ?thesis
    using allocate_frame_fresh by blast
qed

end
